(* ===== verification/Kernel_Prelude.thy ===== *)
theory Kernel_Prelude
  imports Main "HOL-Library.Word"
begin

unbundle bit_operations_syntax

text \<open>
  Shared vocabulary of the development: the machine integers of the kernel
  (\<open>u8\<close>, \<open>u16\<close>, \<open>u32\<close>, \<open>u64\<close>, \<open>usize\<close> as fixed-width words whose \<open>+\<close>, \<open>-\<close>, \<open>*\<close> wrap, as they do
  in the release build the repository boots), the panics a Rust function can raise
  as values of a sum type together with its sequencing operator, the checked,
  saturating and rounding operations of \<open>core\<close> the kernel calls, and the lemmas that
  carry word arithmetic to natural numbers.
\<close>

section \<open>Machine integers\<close>

type_synonym u8 = "8 word"
type_synonym u16 = "16 word"
type_synonym u32 = "32 word"
type_synonym u64 = "64 word"
type_synonym usize = "64 word"

text \<open>The store the kernel dereferences: one 64-bit value per 8-byte-aligned byte address.\<close>

type_synonym qmem = "u64 \<Rightarrow> u64"

section \<open>Panics\<close>

text \<open>Why a Rust function can panic in the modelled code.\<close>

datatype panic =
    IndexOutOfBounds
  | AssertFailed
  | ExpectFailed
  | AllocError

text \<open>A call that may panic: \<open>Inl\<close> the panic, \<open>Inr\<close> the value it returns.\<close>

type_synonym 'a exec = "panic + 'a"

definition bindE :: "'e + 'a \<Rightarrow> ('a \<Rightarrow> 'e + 'b) \<Rightarrow> 'e + 'b" where
  "bindE m f = (case m of Inl e \<Rightarrow> Inl e | Inr x \<Rightarrow> f x)"

lemma bindE_simps [simp]:
  "bindE (Inl e) f = Inl e"
  "bindE (Inr x) f = f x"
  by (simp_all add: bindE_def)

lemma bindE_cong [fundef_cong]:
  "m = m' \<Longrightarrow> (\<And>x. m' = Inr x \<Longrightarrow> f x = f' x) \<Longrightarrow> bindE m f = bindE m' f'"
  by (auto simp: bindE_def split: sum.splits)

lemma bindE_eq_Inr:
  "bindE m f = Inr y \<longleftrightarrow> (\<exists>x. m = Inr x \<and> f x = Inr y)"
  by (cases m) auto

lemma bindE_InrE [elim]:
  assumes "bindE m f = Inr y"
  obtains x where "m = Inr x" and "f x = Inr y"
  using assms by (auto simp: bindE_eq_Inr)

text \<open>Indexing a slice: a read or a write out of range panics.\<close>

definition slice_get :: "'a list \<Rightarrow> usize \<Rightarrow> 'a exec" where
  "slice_get xs i = (if unat i < length xs then Inr (xs ! unat i) else Inl IndexOutOfBounds)"

definition slice_set :: "'a list \<Rightarrow> usize \<Rightarrow> 'a \<Rightarrow> 'a list exec" where
  "slice_set xs i v = (if unat i < length xs then Inr (xs[unat i := v]) else Inl IndexOutOfBounds)"

lemma slice_get_in [simp]: "unat i < length xs \<Longrightarrow> slice_get xs i = Inr (xs ! unat i)"
  by (simp add: slice_get_def)

lemma slice_set_in [simp]: "unat i < length xs \<Longrightarrow> slice_set xs i v = Inr (xs[unat i := v])"
  by (simp add: slice_set_def)

section \<open>Integer operations of \<open>core\<close>\<close>

definition checked_add :: "'a::len word \<Rightarrow> 'a word \<Rightarrow> 'a word option" where
  "checked_add x y = (if unat x + unat y < 2 ^ LENGTH('a) then Some (x + y) else None)"

definition checked_mul :: "'a::len word \<Rightarrow> 'a word \<Rightarrow> 'a word option" where
  "checked_mul x y = (if unat x * unat y < 2 ^ LENGTH('a) then Some (x * y) else None)"

definition saturating_add :: "'a::len word \<Rightarrow> 'a word \<Rightarrow> 'a word" where
  "saturating_add x y = (if unat x + unat y < 2 ^ LENGTH('a) then x + y else - 1)"

definition div_ceil :: "'a::len word \<Rightarrow> 'a word \<Rightarrow> 'a word" where
  "div_ceil x y = (let d = x div y; r = x mod y in if 0 < r then d + 1 else d)"

section \<open>Carrying words to natural numbers\<close>

named_theorems word_nat \<open>facts that turn word arithmetic into arithmetic on \<open>unat\<close>\<close>

lemma unat_lt64 [simp]: "unat (x :: 64 word) < 18446744073709551616"
  using unsigned_less [of x, where ?'a = nat] by simp

lemma unat_add_no_wrap:
  "unat x + unat y < 2 ^ LENGTH('a) \<Longrightarrow> unat (x + y :: 'a::len word) = unat x + unat y"
  by (simp add: unat_add_lem)

lemma unat_mult_no_wrap:
  "unat x * unat y < 2 ^ LENGTH('a) \<Longrightarrow> unat (x * y :: 'a::len word) = unat x * unat y"
  by (simp add: unat_word_ariths)

lemma unat_suc_less: "x < y \<Longrightarrow> unat (x + 1 :: 'a::len word) = Suc (unat x)"
proof -
  assume "x < y"
  then have "Suc (unat x) \<le> unat y" by (simp add: word_less_nat_alt)
  also have "unat y < 2 ^ LENGTH('a)" by (rule unsigned_less)
  finally have "unat x + unat (1 :: 'a word) < 2 ^ LENGTH('a)" by simp
  then show ?thesis by (simp add: unat_add_no_wrap)
qed

lemma unat_of_nat_small: "n < 2 ^ LENGTH('a) \<Longrightarrow> unat (of_nat n :: 'a::len word) = n"
  by (simp add: unat_of_nat)

lemma unat_of_nat64 [simp]: "n < 18446744073709551616 \<Longrightarrow> unat (of_nat n :: 64 word) = n"
  by (simp add: unat_of_nat)

lemmas [word_nat] = word_less_nat_alt word_le_nat_alt unat_div unat_mod

lemma checked_add_Some:
  "checked_add x y = Some z \<longleftrightarrow> unat x + unat y < 2 ^ LENGTH('a) \<and> z = (x + y :: 'a::len word)"
  by (auto simp: checked_add_def)

lemma checked_add_unat:
  "checked_add x y = Some (z :: 'a::len word) \<Longrightarrow> unat z = unat x + unat y"
  by (auto simp: checked_add_Some unat_add_no_wrap)

lemma checked_mul_unat:
  "checked_mul x y = Some (z :: 'a::len word) \<Longrightarrow> unat z = unat x * unat y"
  by (auto simp: checked_mul_def unat_mult_no_wrap split: if_splits)

lemma unat_saturating_add:
  "unat (saturating_add x y :: 'a::len word) = min (unat x + unat y) (2 ^ LENGTH('a) - 1)"
proof (cases "unat x + unat y < 2 ^ LENGTH('a)")
  case True
  then have "unat x + unat y \<le> 2 ^ LENGTH('a) - 1" by linarith
  with True show ?thesis by (simp add: saturating_add_def unat_add_no_wrap)
next
  case False
  moreover have "unat (- 1 :: 'a word) = 2 ^ LENGTH('a) - 1"
    by (simp add: unsigned_minus_1_eq_mask mask_eq_exp_minus_1)
  ultimately show ?thesis by (simp add: saturating_add_def)
qed

lemma unat_div_ceil:
  assumes y: "1 < unat y"
  shows "unat (div_ceil x y :: 'a::len word) = (unat x + unat y - 1) div unat y"
proof -
  define q r where "q = unat x div unat y" and "r = unat x mod unat y"
  have x: "unat x = q * unat y + r" and r: "r < unat y"
    using y by (auto simp: q_def r_def)
  have "q \<le> unat x div 2"
    unfolding q_def using y by (intro div_le_mono2) auto
  moreover have "unat x < 2 ^ LENGTH('a)" by simp
  moreover have "(2 :: nat) \<le> 2 ^ LENGTH('a)"
    using self_le_power [of "2 :: nat" "LENGTH('a)"] by simp
  ultimately have q: "q + 1 < 2 ^ LENGTH('a)" if "0 < r"
    using that x y by (cases "q = 0") auto
  have *: "(unat x + unat y - 1) div unat y = (if 0 < r then q + 1 else q)"
  proof (cases "0 < r")
    case True
    then have "unat x + unat y - 1 = (r - 1) + (q + 1) * unat y"
      using x by (simp add: algebra_simps)
    then have "(unat x + unat y - 1) div unat y = (r - 1) div unat y + (q + 1)"
      using y by (simp only: div_mult_self1)
    moreover have "(r - 1) div unat y = 0" using r by (simp add: div_less)
    ultimately show ?thesis using True by simp
  next
    case False
    then have "unat x + unat y - 1 = (unat y - 1) + q * unat y"
      using x y by simp
    then have "(unat x + unat y - 1) div unat y = (unat y - 1) div unat y + q"
      using y by (simp only: div_mult_self1)
    moreover have "(unat y - 1) div unat y = 0" using y by (simp add: div_less)
    ultimately show ?thesis using False by simp
  qed
  have u: "unat (x div y) = q" "unat (x mod y) = r"
    by (simp_all add: unat_div unat_mod q_def r_def)
  show ?thesis
  proof (cases "0 < r")
    case True
    then have "0 < x mod y" by (simp add: word_less_nat_alt u)
    moreover have "unat (x div y + 1) = q + 1"
      using q [OF True] unat_add_no_wrap [of "x div y" 1] by (simp add: u)
    ultimately show ?thesis using True * by (simp add: div_ceil_def Let_def)
  next
    case False
    then have "\<not> 0 < x mod y" by (simp add: word_less_nat_alt u)
    then show ?thesis using False * by (simp add: div_ceil_def Let_def u)
  qed
qed

text \<open>Masks with a run of low ones are remainders; the kernel masks with \<open>0x1FF\<close> and \<open>0xFFF\<close>.\<close>

lemma unat_and_mask: "unat (x AND mask n :: 'a::len word) = unat x mod 2 ^ n"
proof -
  have "unat (x AND mask n) = unat (take_bit n x)"
    by (simp add: take_bit_eq_mask)
  also have "\<dots> = take_bit n (unat x)"
    by (simp add: unsigned_take_bit_eq)
  finally show ?thesis by (simp add: take_bit_eq_mod)
qed

lemma and_mask_numerals:
  "(x :: u64) AND 511 = x AND mask 9"
  "(x :: u64) AND 4095 = x AND mask 12"
  "(x :: u64) AND 2097151 = x AND mask 21"
  "(x :: u64) AND 1073741823 = x AND mask 30"
  by (simp_all add: mask_eq_exp_minus_1)

lemma unat_drop_bit_div: "unat (drop_bit n (x :: 'a::len word)) = unat x div 2 ^ n"
  by (subst unat_drop_bit_eq) (rule drop_bit_eq_div)

lemmas [word_nat] = unat_and_mask unat_drop_bit_div

text \<open>An aligned base and an offset below its alignment: the bitwise or is the sum.\<close>

lemma or_offset:
  fixes x y :: u64
  assumes "unat x mod 2 ^ k = 0" and "unat y < 2 ^ k"
  shows "unat (x OR y) = unat x + unat y"
proof -
  have x: "unat x = push_bit k (unat x div 2 ^ k)"
    using assms(1) div_mult_mod_eq [of "unat x" "2 ^ k"] by (simp add: push_bit_eq_mult)
  have y: "unat y = take_bit k (unat y)"
    using assms(2) by (simp add: take_bit_nat_eq_self)
  have "unat x AND unat y = 0"
    by (subst x, subst y) (auto intro!: bit_eqI simp: bit_simps)
  then show ?thesis by (simp add: unsigned_or_eq disjunctive_add_eq_or)
qed

lemma or_offset_add:
  fixes x y :: u64
  assumes "unat x mod 2 ^ k = 0" and "unat y < 2 ^ k"
  shows "x OR y = x + y"
proof -
  have "unat x + unat y < 2 ^ LENGTH(64)"
    unfolding or_offset [OF assms, symmetric] by (rule unsigned_less)
  then show ?thesis by (simp add: word_unat_eq_iff or_offset [OF assms] unat_add_no_wrap)
qed

text \<open>Clearing a run of low bits rounds down to a multiple of the power of two.\<close>

lemma unat_and_not_mask: "unat ((x :: u64) AND NOT (mask k)) = unat x div 2 ^ k * 2 ^ k"
proof -
  have "(x AND NOT (mask k)) AND mask k = 0" by (rule bit_eqI) (auto simp: bit_simps)
  then have base: "unat (x AND NOT (mask k)) mod 2 ^ k = 0" by (simp only: unat_0 flip: unat_and_mask)
  have "(x AND NOT (mask k)) OR (x AND mask k) = x" by (rule bit_eqI) (auto simp: bit_simps)
  then have "unat x = unat (x AND NOT (mask k)) + unat x mod 2 ^ k"
    using or_offset [OF base, of "x AND mask k"] by (simp add: unat_and_mask)
  then show ?thesis
    using div_mult_mod_eq [of "unat x" "2 ^ k"] by linarith
qed

end
