(* ===== verification/Addresses.thy ===== *)
theory Addresses
  imports Kernel_Prelude
begin

text \<open>
  The two address newtypes of the memory manager, \<open>PhysAddr\<close> (\<open>mm/phys_addr.rs\<close>) and
  \<open>VirtAddr\<close> (\<open>mm/virt_addr.rs\<close>): conversion between physical addresses and frame
  numbers, and the 9/9/9/9/12-bit split of a virtual address into page-table indices
  and a page offset. The lemmas show the conversions are inverse where the code needs
  them to be, that the indices stay below 512, and that the split loses nothing of the
  low 48 bits.
\<close>

section \<open>Physical addresses\<close>

definition FRAME_SIZE :: u64 where
  "FRAME_SIZE = 4096"

datatype phys_addr = PhysAddr (phys_as_u64: u64)

definition frame_number :: "phys_addr \<Rightarrow> usize" where
  "frame_number p = phys_as_u64 p div FRAME_SIZE"

definition from_frame_number :: "usize \<Rightarrow> phys_addr" where
  "from_frame_number frame = PhysAddr (frame * FRAME_SIZE)"

definition is_frame_aligned :: "phys_addr \<Rightarrow> bool" where
  "is_frame_aligned p \<longleftrightarrow> phys_as_u64 p mod FRAME_SIZE = 0"

section \<open>Virtual addresses\<close>

datatype virt_addr = VirtAddr (virt_as_u64: u64)

definition is_page_aligned :: "virt_addr \<Rightarrow> bool" where
  "is_page_aligned v \<longleftrightarrow> virt_as_u64 v mod FRAME_SIZE = 0"

definition pml4_index :: "virt_addr \<Rightarrow> usize" where
  "pml4_index v = drop_bit 39 (virt_as_u64 v) AND 0x1FF"

definition pdpt_index :: "virt_addr \<Rightarrow> usize" where
  "pdpt_index v = drop_bit 30 (virt_as_u64 v) AND 0x1FF"

definition pd_index :: "virt_addr \<Rightarrow> usize" where
  "pd_index v = drop_bit 21 (virt_as_u64 v) AND 0x1FF"

definition pt_index :: "virt_addr \<Rightarrow> usize" where
  "pt_index v = drop_bit 12 (virt_as_u64 v) AND 0x1FF"

definition page_offset :: "virt_addr \<Rightarrow> u64" where
  "page_offset v = virt_as_u64 v AND 0xFFF"

section \<open>The derived orders\<close>

text \<open>Both newtypes derive \<open>PartialOrd\<close> and \<open>Ord\<close>: the order of the wrapped integer.\<close>

instantiation phys_addr :: linorder
begin

definition less_eq_phys_addr :: "phys_addr \<Rightarrow> phys_addr \<Rightarrow> bool" where
  "less_eq_phys_addr p q \<longleftrightarrow> phys_as_u64 p \<le> phys_as_u64 q"

definition less_phys_addr :: "phys_addr \<Rightarrow> phys_addr \<Rightarrow> bool" where
  "less_phys_addr p q \<longleftrightarrow> phys_as_u64 p < phys_as_u64 q"

instance
  by standard
    (auto simp: less_eq_phys_addr_def less_phys_addr_def phys_addr.expand)

end

instantiation virt_addr :: linorder
begin

definition less_eq_virt_addr :: "virt_addr \<Rightarrow> virt_addr \<Rightarrow> bool" where
  "less_eq_virt_addr p q \<longleftrightarrow> virt_as_u64 p \<le> virt_as_u64 q"

definition less_virt_addr :: "virt_addr \<Rightarrow> virt_addr \<Rightarrow> bool" where
  "less_virt_addr p q \<longleftrightarrow> virt_as_u64 p < virt_as_u64 q"

instance
  by standard
    (auto simp: less_eq_virt_addr_def less_virt_addr_def virt_addr.expand)

end

section \<open>Frame numbers\<close>

lemma unat_frame_number: "unat (frame_number p) = unat (phys_as_u64 p) div 4096"
  by (simp add: frame_number_def FRAME_SIZE_def unat_div)

lemma frame_number_bound: "unat (frame_number p) < 2 ^ 52"
  unfolding unat_frame_number using unat_lt64 [of "phys_as_u64 p"]
  by (simp add: less_mult_imp_div_less)

lemma is_frame_aligned_iff: "is_frame_aligned p \<longleftrightarrow> unat (phys_as_u64 p) mod 4096 = 0"
  by (simp add: is_frame_aligned_def FRAME_SIZE_def word_unat_eq_iff unat_mod)

lemma unat_from_frame_number:
  "unat f < 2 ^ 52 \<Longrightarrow> unat (phys_as_u64 (from_frame_number f)) = unat f * 4096"
  by (simp add: from_frame_number_def FRAME_SIZE_def unat_mult_no_wrap)

lemma from_frame_number_aligned:
  "unat f < 2 ^ 52 \<Longrightarrow> is_frame_aligned (from_frame_number f)"
  by (simp add: is_frame_aligned_iff unat_from_frame_number)

lemma frame_number_from: "unat f < 2 ^ 52 \<Longrightarrow> frame_number (from_frame_number f) = f"
  by (simp add: word_unat_eq_iff unat_frame_number unat_from_frame_number)

lemma from_frame_number_of: "is_frame_aligned p \<Longrightarrow> from_frame_number (frame_number p) = p"
proof -
  assume "is_frame_aligned p"
  then have "unat (phys_as_u64 p) mod 4096 = 0" by (simp add: is_frame_aligned_iff)
  moreover have "unat (frame_number p) < 2 ^ 52" by (rule frame_number_bound)
  ultimately have "unat (phys_as_u64 (from_frame_number (frame_number p))) = unat (phys_as_u64 p)"
    using div_mult_mod_eq [of "unat (phys_as_u64 p)" 4096]
    by (simp add: unat_from_frame_number unat_frame_number)
  then show ?thesis
    by (metis phys_addr.expand word_unat_eq_iff)
qed

section \<open>Page-table indices\<close>

lemmas index_defs = pml4_index_def pdpt_index_def pd_index_def pt_index_def page_offset_def

lemma unat_indices:
  "unat (pml4_index v) = unat (virt_as_u64 v) div 2 ^ 39 mod 512"
  "unat (pdpt_index v) = unat (virt_as_u64 v) div 2 ^ 30 mod 512"
  "unat (pd_index v) = unat (virt_as_u64 v) div 2 ^ 21 mod 512"
  "unat (pt_index v) = unat (virt_as_u64 v) div 2 ^ 12 mod 512"
  "unat (page_offset v) = unat (virt_as_u64 v) mod 4096"
  by (simp_all only: index_defs and_mask_numerals word_nat) simp_all

lemma index_bounds [simp]:
  "unat (pml4_index v) < 512" "unat (pdpt_index v) < 512"
  "unat (pd_index v) < 512" "unat (pt_index v) < 512" "unat (page_offset v) < 4096"
  by (simp_all add: unat_indices)

lemma is_page_aligned_iff: "is_page_aligned v \<longleftrightarrow> unat (virt_as_u64 v) mod 4096 = 0"
  by (simp add: is_page_aligned_def FRAME_SIZE_def word_unat_eq_iff unat_mod)

text \<open>The four indices together: the page an address lies in, as the walker sees it.\<close>

definition page_path :: "virt_addr \<Rightarrow> usize \<times> usize \<times> usize \<times> usize" where
  "page_path v = (pml4_index v, pdpt_index v, pd_index v, pt_index v)"

lemma split_digits:
  fixes n :: nat
  shows "n mod 2 ^ 48 = n div 2 ^ 39 mod 512 * 2 ^ 39 + n div 2 ^ 30 mod 512 * 2 ^ 30
    + n div 2 ^ 21 mod 512 * 2 ^ 21 + n div 2 ^ 12 mod 512 * 2 ^ 12 + n mod 4096"
  using mod_mult2_eq [of n "2 ^ 39" 512] mod_mult2_eq [of n "2 ^ 30" 512]
    mod_mult2_eq [of n "2 ^ 21" 512] mod_mult2_eq [of n "2 ^ 12" 512]
  by simp

lemma digits_eq_iff:
  fixes n m :: nat
  shows "(n div 2 ^ 39 mod 512 = m div 2 ^ 39 mod 512 \<and> n div 2 ^ 30 mod 512 = m div 2 ^ 30 mod 512
      \<and> n div 2 ^ 21 mod 512 = m div 2 ^ 21 mod 512 \<and> n div 2 ^ 12 mod 512 = m div 2 ^ 12 mod 512)
    \<longleftrightarrow> n div 4096 mod 2 ^ 36 = m div 4096 mod 2 ^ 36" (is "?digits \<longleftrightarrow> ?pages")
proof
  have split: "k div 4096 mod 2 ^ 36 = k div 2 ^ 39 mod 512 * 2 ^ 27 + k div 2 ^ 30 mod 512 * 2 ^ 18
      + k div 2 ^ 21 mod 512 * 2 ^ 9 + k div 2 ^ 12 mod 512" for k :: nat
    using mod_mult2_eq [of "k div 4096" "2 ^ 27" 512] mod_mult2_eq [of "k div 4096" "2 ^ 18" 512]
      mod_mult2_eq [of "k div 4096" "2 ^ 9" 512] by (simp flip: div_mult2_eq)
  show ?pages if ?digits
    using that by (simp only: split)
  have digit: "k div 2 ^ (12 + e) mod 512 = (k div 4096 mod 2 ^ 36) div 2 ^ e mod 512"
    if "e \<le> 27" for k e :: nat
  proof -
    have "take_bit 9 (drop_bit e (take_bit 36 (k div 4096))) = take_bit 9 (drop_bit e (k div 4096))"
      using that by (simp add: drop_bit_take_bit min_def)
    then show ?thesis
      by (simp add: take_bit_eq_mod drop_bit_eq_div power_add flip: div_mult2_eq)
  qed
  show ?digits if ?pages
    using digit [of 27] digit [of 18] digit [of 9] digit [of 0] that by simp
qed

lemma page_path_eq_iff:
  "page_path v = page_path w \<longleftrightarrow>
    unat (virt_as_u64 v) div 4096 mod 2 ^ 36 = unat (virt_as_u64 w) div 4096 mod 2 ^ 36"
  unfolding page_path_def using digits_eq_iff [of "unat (virt_as_u64 v)" "unat (virt_as_u64 w)"]
  by (simp only: prod.inject word_unat_eq_iff unat_indices)

end
