(* ===== verification/Boot_Info.thy ===== *)
theory Boot_Info
  imports Addresses
begin

text \<open>
  The bootloader's handoff structure (\<open>boot_info.rs\<close>) and the iterator over the raw UEFI
  memory map it points to (\<open>mm/memory_map.rs\<close>). Memory is read byte by byte, little
  endian, at the fixed offsets the source uses, with the firmware's descriptor size as
  the stride. The lemmas give the size the validity check compares against, the entries
  the iterator yields, and the exact end address of an entry or its rejection.
\<close>

section \<open>\<open>BootInfo\<close>\<close>

definition BOOTINFO_MAGIC :: u64 where
  "BOOTINFO_MAGIC = 0x58
     OR push_bit 8 0x4F OR push_bit 16 0x53 OR push_bit 24 0x42 OR push_bit 32 0x4F
     OR push_bit 40 0x4F OR push_bit 48 0x54 OR push_bit 56 0x31"

definition BOOTINFO_VERSION :: u32 where
  "BOOTINFO_VERSION = 1"

record boot_info =
  magic :: u64
  version :: u32
  struct_size_bytes :: u32
  memory_map_phys_addr :: u64
  memory_map_size_bytes :: u64
  memory_map_descriptor_size :: u64
  memory_map_descriptor_version :: u32
  memory_map_entry_count :: u64
  kernel_physical_base :: u64
  kernel_virtual_base :: u64
  kernel_size_bytes :: u64
  kernel_stack_top :: u64
  kernel_stack_size_bytes :: u64

text \<open>
  \<open>#[repr(C)]\<close> layout: each field at the next multiple of its alignment, the whole
  rounded up to the largest alignment. Fields are given by their size, which is also
  their alignment for the integer types.
\<close>

definition round_up_to :: "nat \<Rightarrow> nat \<Rightarrow> nat" where
  "round_up_to n a = (n + a - 1) div a * a"

definition repr_c_size :: "nat list \<Rightarrow> nat" where
  "repr_c_size fs =
     round_up_to (fold (\<lambda>f off. round_up_to off f + f) fs 0) (fold max fs 1)"

definition size_of_BootInfo :: usize where
  "size_of_BootInfo = of_nat (repr_c_size [8, 4, 4, 8, 8, 8, 4, 8, 8, 8, 8, 8, 8])"

definition is_valid :: "boot_info \<Rightarrow> bool" where
  "is_valid bi \<longleftrightarrow> magic bi = BOOTINFO_MAGIC \<and> version bi = BOOTINFO_VERSION
     \<and> (ucast (struct_size_bytes bi) :: usize) = size_of_BootInfo"

lemma size_of_BootInfo_96: "size_of_BootInfo = 96"
  by (simp add: size_of_BootInfo_def repr_c_size_def round_up_to_def)

section \<open>Reading the memory map\<close>

type_synonym byte_mem = "u64 \<Rightarrow> u8"

fun le_bytes :: "u8 list \<Rightarrow> nat" where
  "le_bytes [] = 0"
| "le_bytes (b # bs) = unat b + 256 * le_bytes bs"

definition read_bytes :: "byte_mem \<Rightarrow> u64 \<Rightarrow> nat \<Rightarrow> u8 list" where
  "read_bytes m p n = map (\<lambda>i. m (p + of_nat i)) [0..<n]"

definition read_unaligned_u32 :: "byte_mem \<Rightarrow> u64 \<Rightarrow> u32" where
  "read_unaligned_u32 m p = of_nat (le_bytes (read_bytes m p 4))"

definition read_unaligned_u64 :: "byte_mem \<Rightarrow> u64 \<Rightarrow> u64" where
  "read_unaligned_u64 m p = of_nat (le_bytes (read_bytes m p 8))"

definition EFI_CONVENTIONAL_MEMORY :: u32 where
  "EFI_CONVENTIONAL_MEMORY = 7"

record memory_map_entry =
  entry_typ :: u32
  physical_start :: phys_addr
  number_of_pages :: u64

definition end_addr :: "memory_map_entry \<Rightarrow> u64 option" where
  "end_addr e = (case checked_mul (number_of_pages e) FRAME_SIZE of
       None \<Rightarrow> None
     | Some sz \<Rightarrow> checked_add (phys_as_u64 (physical_start e)) sz)"

record memory_map_iter =
  base_ptr :: u64
  descriptor_size :: usize
  entry_count :: usize
  iter_index :: usize

definition memory_map_iter_new :: "boot_info \<Rightarrow> memory_map_iter" where
  "memory_map_iter_new bi =
     \<lparr>base_ptr = memory_map_phys_addr bi,
      descriptor_size = memory_map_descriptor_size bi,
      entry_count = memory_map_entry_count bi,
      iter_index = 0\<rparr>"

definition read_entry_at :: "byte_mem \<Rightarrow> u64 \<Rightarrow> memory_map_entry" where
  "read_entry_at m entry_ptr =
     \<lparr>entry_typ = read_unaligned_u32 m entry_ptr,
      physical_start = PhysAddr (read_unaligned_u64 m (entry_ptr + 8)),
      number_of_pages = read_unaligned_u64 m (entry_ptr + 24)\<rparr>"

definition iter_next ::
    "byte_mem \<Rightarrow> memory_map_iter \<Rightarrow> memory_map_entry option \<times> memory_map_iter" where
  "iter_next m it =
     (if iter_index it \<ge> entry_count it then (None, it)
      else let offset = iter_index it * descriptor_size it;
               it' = it\<lparr>iter_index := iter_index it + 1\<rparr>
           in (Some (read_entry_at m (base_ptr it + offset)), it'))"

text \<open>A \<open>for\<close> loop over the iterator visits the entries of this list in order.\<close>

function iter_collect :: "byte_mem \<Rightarrow> memory_map_iter \<Rightarrow> memory_map_entry list" where
  "iter_collect m it =
     (case iter_next m it of (None, _) \<Rightarrow> [] | (Some e, it') \<Rightarrow> e # iter_collect m it')"
  by pat_completeness auto
termination
proof (relation "measure (\<lambda>(m, it). unat (entry_count it) - unat (iter_index it))", goal_cases)
  case (2 m it r it' e)
  then have lt: "iter_index it < entry_count it" and it': "it' = it\<lparr>iter_index := iter_index it + 1\<rparr>"
    by (auto simp: iter_next_def Let_def not_le split: if_splits)
  then show ?case
    using unat_suc_less [OF lt] lt by (simp add: word_less_nat_alt)
qed simp

declare iter_collect.simps [simp del]

definition memory_map_entries :: "byte_mem \<Rightarrow> boot_info \<Rightarrow> memory_map_entry list" where
  "memory_map_entries m bi = iter_collect m (memory_map_iter_new bi)"

section \<open>What the iterator yields\<close>

lemma iter_collect_from:
  "iter_collect m it =
     map (\<lambda>k. read_entry_at m (base_ptr it + of_nat k * descriptor_size it))
       [unat (iter_index it)..<unat (entry_count it)]"
proof (induction m it rule: iter_collect.induct)
  case (1 m it)
  show ?case
  proof (cases "iter_index it < entry_count it")
    case False
    then show ?thesis
      by (subst iter_collect.simps) (auto simp: iter_next_def word_less_nat_alt word_le_nat_alt)
  next
    case True
    let ?it = "it\<lparr>iter_index := iter_index it + 1\<rparr>"
    have nx: "iter_next m it =
        (Some (read_entry_at m (base_ptr it + iter_index it * descriptor_size it)), ?it)"
      using True by (simp add: iter_next_def Let_def not_le)
    have "[unat (iter_index it)..<unat (entry_count it)]
        = unat (iter_index it) # [Suc (unat (iter_index it))..<unat (entry_count it)]"
      using True by (simp add: word_less_nat_alt upt_conv_Cons)
    then show ?thesis
      using 1 [OF nx [symmetric] refl] unat_suc_less [OF True]
      by (subst iter_collect.simps) (simp add: nx)
  qed
qed

lemma memory_map_entries_eq:
  "memory_map_entries m bi =
     map (\<lambda>k. read_entry_at m (memory_map_phys_addr bi + of_nat k * memory_map_descriptor_size bi))
       [0..<unat (memory_map_entry_count bi)]"
  by (simp add: memory_map_entries_def memory_map_iter_new_def iter_collect_from)

lemma end_addr_unat:
  "end_addr e = Some z \<Longrightarrow>
     unat z = unat (phys_as_u64 (physical_start e)) + unat (number_of_pages e) * 4096"
  by (auto simp: end_addr_def FRAME_SIZE_def split: option.splits
      dest!: checked_mul_unat checked_add_unat)

lemma end_addr_None_iff:
  "end_addr e = None \<longleftrightarrow>
     2 ^ 64 \<le> unat (phys_as_u64 (physical_start e)) + unat (number_of_pages e) * 4096"
  by (auto simp: end_addr_def checked_mul_def checked_add_def FRAME_SIZE_def unat_mult_no_wrap)

end
