(* ===== verification/Frame_Allocator.thy ===== *)
theory Frame_Allocator
  imports Boot_Info
begin

text \<open>
  The bitmap frame allocator of \<open>mm/frame_allocator.rs\<close>: one bit per 4 KiB frame, 1 for
  used. The operations are state-passing functions that return a panic where the source
  would index its bitmap out of range. The invariant \<open>fa_inv\<close> ties the bitmap, the free
  count and the scan hint together; under it no operation panics and each one is a set
  operation on the free frames. \<open>fa_init\<close> follows the three passes of
  \<open>FrameAllocator::init\<close> over the memory map.
\<close>

section \<open>State and operations\<close>

definition IDENTITY_MAP_LIMIT :: u64 where
  "IDENTITY_MAP_LIMIT = 0x100000000"

definition MAX_BITMAP_BYTES :: usize where
  "MAX_BITMAP_BYTES = 64 * 1024 * 1024"

datatype init_error =
    InconsistentMemoryMap
  | NoSuitableBitmapRegion
  | ImpliedAddressSpaceTooLarge

datatype dealloc_error =
    OutOfRange
  | DoubleFree

text \<open>The slice \<open>bitmap\<close> is its address (\<open>bitmap_ptr\<close>) and its bytes.\<close>

record frame_allocator =
  bitmap_ptr :: u64
  bitmap :: "u8 list"
  total_frames :: usize
  frames_free :: usize
  next_hint :: usize

definition is_free :: "frame_allocator \<Rightarrow> usize \<Rightarrow> bool exec" where
  "is_free a frame =
     bindE (slice_get (bitmap a) (frame div 8)) (\<lambda>b.
       Inr (b AND push_bit (unat (frame mod 8)) 1 = 0))"

definition mark_used :: "frame_allocator \<Rightarrow> usize \<Rightarrow> frame_allocator exec" where
  "mark_used a frame =
     bindE (is_free a frame) (\<lambda>free.
       let a = (if free then a\<lparr>frames_free := frames_free a - 1\<rparr> else a) in
       bindE (slice_get (bitmap a) (frame div 8)) (\<lambda>b.
       bindE (slice_set (bitmap a) (frame div 8) (b OR push_bit (unat (frame mod 8)) 1)) (\<lambda>bm.
         Inr (a\<lparr>bitmap := bm\<rparr>))))"

definition mark_free :: "frame_allocator \<Rightarrow> usize \<Rightarrow> frame_allocator exec" where
  "mark_free a frame =
     bindE (is_free a frame) (\<lambda>free.
       let a = (if \<not> free then a\<lparr>frames_free := frames_free a + 1\<rparr> else a) in
       bindE (slice_get (bitmap a) (frame div 8)) (\<lambda>b.
       bindE (slice_set (bitmap a) (frame div 8) (b AND NOT (push_bit (unat (frame mod 8)) 1))) (\<lambda>bm.
         Inr (a\<lparr>bitmap := bm\<rparr>))))"

text \<open>The loop \<open>for offset in 0..total\<close> of \<open>allocate\<close>, from a given offset on.\<close>

function allocate_scan ::
    "frame_allocator \<Rightarrow> usize \<Rightarrow> usize \<Rightarrow> (phys_addr option \<times> frame_allocator) exec" where
  "allocate_scan a tot offset =
     (if offset < tot then
        let frame = (next_hint a + offset) mod tot in
        bindE (is_free a frame) (\<lambda>free.
          if free then
            bindE (mark_used a frame) (\<lambda>a.
              Inr (Some (from_frame_number frame), a\<lparr>next_hint := (frame + 1) mod tot\<rparr>))
          else allocate_scan a tot (offset + 1))
      else Inr (None, a))"
  by pat_completeness auto
termination
  by (relation "measure (\<lambda>(a, tot, offset). unat tot - unat offset)")
    (auto simp: unat_suc_less word_less_nat_alt)

declare allocate_scan.simps [simp del]

definition allocate :: "frame_allocator \<Rightarrow> (phys_addr option \<times> frame_allocator) exec" where
  "allocate a =
     (let tot = total_frames a in
      if tot = 0 then Inr (None, a) else allocate_scan a tot 0)"

definition deallocate ::
    "frame_allocator \<Rightarrow> phys_addr \<Rightarrow> ((dealloc_error + unit) \<times> frame_allocator) exec" where
  "deallocate a p =
     (let frame = frame_number p in
      if frame \<ge> total_frames a then Inr (Inl OutOfRange, a)
      else bindE (is_free a frame) (\<lambda>free.
        if free then Inr (Inl DoubleFree, a)
        else bindE (mark_free a frame) (\<lambda>a. Inr (Inr (), a))))"

text \<open>The loop \<open>for frame in 0..bound\<close> of \<open>allocate_below\<close>, from a given frame on.\<close>

function allocate_below_scan ::
    "frame_allocator \<Rightarrow> usize \<Rightarrow> usize \<Rightarrow> (phys_addr option \<times> frame_allocator) exec" where
  "allocate_below_scan a bound frame =
     (if frame < bound then
        bindE (is_free a frame) (\<lambda>free.
          if free then
            bindE (mark_used a frame) (\<lambda>a. Inr (Some (from_frame_number frame), a))
          else allocate_below_scan a bound (frame + 1))
      else Inr (None, a))"
  by pat_completeness auto
termination
  by (relation "measure (\<lambda>(a, bound, frame). unat bound - unat frame)")
    (auto simp: unat_suc_less word_less_nat_alt)

declare allocate_below_scan.simps [simp del]

definition allocate_below ::
    "frame_allocator \<Rightarrow> phys_addr \<Rightarrow> (phys_addr option \<times> frame_allocator) exec" where
  "allocate_below a limit =
     (let bound = min (total_frames a) (frame_number limit) in allocate_below_scan a bound 0)"

section \<open>Initialisation from the memory map\<close>

text \<open>Pass 1: the highest end address of an entry that passes validation.\<close>

fun highest_addr_pass :: "memory_map_entry list \<Rightarrow> u64 \<Rightarrow> u64" where
  "highest_addr_pass [] highest_addr = highest_addr"
| "highest_addr_pass (e # es) highest_addr =
     (if number_of_pages e = 0 then highest_addr_pass es highest_addr
      else if \<not> is_frame_aligned (physical_start e) then highest_addr_pass es highest_addr
      else case end_addr e of
        None \<Rightarrow> highest_addr_pass es highest_addr
      | Some stop \<Rightarrow> highest_addr_pass es (if stop > highest_addr then stop else highest_addr))"

text \<open>Pass 2: the first conventional region below the identity-map limit that can hold the bitmap.\<close>

fun bitmap_region_pass :: "memory_map_entry list \<Rightarrow> usize \<Rightarrow> u64 option" where
  "bitmap_region_pass [] bitmap_bytes = None"
| "bitmap_region_pass (e # es) bitmap_bytes =
     (if entry_typ e \<noteq> EFI_CONVENTIONAL_MEMORY then bitmap_region_pass es bitmap_bytes
      else if number_of_pages e = 0 then bitmap_region_pass es bitmap_bytes
      else if \<not> is_frame_aligned (physical_start e) then bitmap_region_pass es bitmap_bytes
      else case end_addr e of
        None \<Rightarrow> bitmap_region_pass es bitmap_bytes
      | Some stop \<Rightarrow>
          if stop > IDENTITY_MAP_LIMIT then bitmap_region_pass es bitmap_bytes
          else let region_size = stop - phys_as_u64 (physical_start e) in
            if region_size \<ge> bitmap_bytes then Some (phys_as_u64 (physical_start e))
            else bitmap_region_pass es bitmap_bytes)"

text \<open>The bitmap filled with \<open>0xFF\<close> and the allocator built over it.\<close>

definition all_used_allocator :: "u64 \<Rightarrow> usize \<Rightarrow> usize \<Rightarrow> frame_allocator" where
  "all_used_allocator bitmap_phys_addr bitmap_bytes tot =
     \<lparr>bitmap_ptr = bitmap_phys_addr, bitmap = replicate (unat bitmap_bytes) 0xFF,
      total_frames = tot, frames_free = 0, next_hint = 0\<rparr>"

text \<open>Pass 3, inner loop: free \<open>frame..stop\<close>, stopping at the first untracked frame.\<close>

function free_range :: "frame_allocator \<Rightarrow> usize \<Rightarrow> usize \<Rightarrow> frame_allocator exec" where
  "free_range a frame stop =
     (if frame < stop then
        if frame \<ge> total_frames a then Inr a
        else bindE (mark_free a frame) (\<lambda>a. free_range a (frame + 1) stop)
      else Inr a)"
  by pat_completeness auto
termination
  by (relation "measure (\<lambda>(a, frame, stop). unat stop - unat frame)")
    (auto simp: unat_suc_less word_less_nat_alt)

declare free_range.simps [simp del]

fun free_pass :: "frame_allocator \<Rightarrow> memory_map_entry list \<Rightarrow> frame_allocator exec" where
  "free_pass a [] = Inr a"
| "free_pass a (e # es) =
     (if entry_typ e \<noteq> EFI_CONVENTIONAL_MEMORY then free_pass a es
      else if number_of_pages e = 0 then free_pass a es
      else if \<not> is_frame_aligned (physical_start e) then free_pass a es
      else if end_addr e = None then free_pass a es
      else let start_frame = frame_number (physical_start e);
               frame_count = number_of_pages e
           in bindE (free_range a start_frame (saturating_add start_frame frame_count))
                (\<lambda>a. free_pass a es))"

text \<open>The final loop: reserve the frames that hold the bitmap.\<close>

function reserve_range :: "frame_allocator \<Rightarrow> usize \<Rightarrow> usize \<Rightarrow> frame_allocator exec" where
  "reserve_range a frame stop =
     (if frame < stop then
        bindE (if frame < total_frames a then mark_used a frame else Inr a)
          (\<lambda>a. reserve_range a (frame + 1) stop)
      else Inr a)"
  by pat_completeness auto
termination
  by (relation "measure (\<lambda>(a, frame, stop). unat stop - unat frame)")
    (auto simp: unat_suc_less word_less_nat_alt)

declare reserve_range.simps [simp del]

definition fa_init :: "byte_mem \<Rightarrow> boot_info \<Rightarrow> (init_error + frame_allocator) exec" where
  "fa_init m bi =
     (let count = memory_map_entry_count bi;
          desc_size = memory_map_descriptor_size bi
      in case checked_mul count desc_size of
        None \<Rightarrow> Inr (Inl InconsistentMemoryMap)
      | Some claimed_size \<Rightarrow>
        if memory_map_size_bytes bi < claimed_size then Inr (Inl InconsistentMemoryMap)
        else let highest_addr = highest_addr_pass (memory_map_entries m bi) 0 in
        if highest_addr = 0 then Inr (Inl InconsistentMemoryMap)
        else let tot = highest_addr div FRAME_SIZE;
                 bitmap_bytes = div_ceil tot 8
        in if bitmap_bytes = 0 \<or> bitmap_bytes > MAX_BITMAP_BYTES
           then Inr (Inl ImpliedAddressSpaceTooLarge)
        else case bitmap_region_pass (memory_map_entries m bi) bitmap_bytes of
          None \<Rightarrow> Inr (Inl NoSuitableBitmapRegion)
        | Some bitmap_phys_addr \<Rightarrow>
          let a = all_used_allocator bitmap_phys_addr bitmap_bytes tot
          in bindE (free_pass a (memory_map_entries m bi)) (\<lambda>a.
             let bitmap_start_frame = frame_number (PhysAddr bitmap_phys_addr);
                 bitmap_frame_count = div_ceil bitmap_bytes FRAME_SIZE
             in bindE (reserve_range a bitmap_start_frame
                  (saturating_add bitmap_start_frame bitmap_frame_count)) (\<lambda>a. Inr (Inr a))))"

section \<open>Abstraction and invariant\<close>

text \<open>Whether frame number \<open>f\<close> is marked used, and the tracked frames that are not.\<close>

definition frame_used :: "frame_allocator \<Rightarrow> nat \<Rightarrow> bool" where
  "frame_used a f \<longleftrightarrow> bit (bitmap a ! (f div 8)) (f mod 8)"

definition free_frames :: "frame_allocator \<Rightarrow> nat set" where
  "free_frames a = {f. f < unat (total_frames a) \<and> \<not> frame_used a f}"

definition bitmap_fits :: "frame_allocator \<Rightarrow> bool" where
  "bitmap_fits a \<longleftrightarrow> length (bitmap a) = (unat (total_frames a) + 7) div 8
     \<and> length (bitmap a) \<le> unat MAX_BITMAP_BYTES"

definition fa_inv :: "frame_allocator \<Rightarrow> bool" where
  "fa_inv a \<longleftrightarrow> bitmap_fits a
     \<and> unat (frames_free a) = card (free_frames a)
     \<and> (0 < total_frames a \<longrightarrow> next_hint a < total_frames a)"

section \<open>Single-frame updates\<close>

text \<open>The part of the invariant every step of \<open>fa_init\<close> keeps, before the hint matters.\<close>

definition fa_core :: "frame_allocator \<Rightarrow> bool" where
  "fa_core a \<longleftrightarrow> bitmap_fits a \<and> unat (frames_free a) = card (free_frames a)"

definition same_pool :: "frame_allocator \<Rightarrow> frame_allocator \<Rightarrow> bool" where
  "same_pool a b \<longleftrightarrow> total_frames b = total_frames a \<and> bitmap_ptr b = bitmap_ptr a"

lemma same_pool_refl [simp]: "same_pool a a"
  by (simp add: same_pool_def)

lemma same_pool_trans [trans]: "same_pool a b \<Longrightarrow> same_pool b c \<Longrightarrow> same_pool a c"
  by (simp add: same_pool_def)

lemma finite_free_frames [simp]: "finite (free_frames a)"
  by (simp add: free_frames_def)

lemma bitmap_index:
  assumes "bitmap_fits a" and "frame < total_frames a"
  shows "unat (frame div 8) < length (bitmap a)" and "unat (frame div 8) = unat frame div 8"
    and "unat (frame mod 8) = unat frame mod 8"
proof -
  show div: "unat (frame div 8) = unat frame div 8" and "unat (frame mod 8) = unat frame mod 8"
    by (simp_all add: unat_div unat_mod)
  have "unat frame div 8 < (unat (total_frames a) + 7) div 8"
    using assms(2) unfolding word_less_nat_alt by linarith
  then show "unat (frame div 8) < length (bitmap a)"
    using assms(1) div by (simp add: bitmap_fits_def)
qed

lemma is_free_eq:
  assumes "bitmap_fits a" and "frame < total_frames a"
  shows "is_free a frame = Inr (unat frame \<in> free_frames a)"
  using bitmap_index [OF assms] assms(2)
  by (simp add: is_free_def frame_used_def free_frames_def and_exp_eq_0_iff_not_bit word_less_nat_alt)

text \<open>Setting or clearing one bit of the bitmap moves one frame.\<close>

lemma frame_used_update:
  assumes "f div 8 < length (bitmap a)"
  shows "frame_used (a\<lparr>bitmap := (bitmap a)[f div 8 := bitmap a ! (f div 8) OR 2 ^ (f mod 8)]\<rparr>) g
      \<longleftrightarrow> frame_used a g \<or> g = f"
    and "frame_used (a\<lparr>bitmap := (bitmap a)[f div 8 := bitmap a ! (f div 8) AND NOT (2 ^ (f mod 8))]\<rparr>) g
      \<longleftrightarrow> frame_used a g \<and> g \<noteq> f"
proof -
  have g: "g = f \<longleftrightarrow> g div 8 = f div 8 \<and> g mod 8 = f mod 8"
    by (metis div_mult_mod_eq)
  show "frame_used (a\<lparr>bitmap := (bitmap a)[f div 8 := bitmap a ! (f div 8) OR 2 ^ (f mod 8)]\<rparr>) g
      \<longleftrightarrow> frame_used a g \<or> g = f"
    using assms g
    by (cases "g div 8 = f div 8") (auto simp: frame_used_def bit_or_iff bit_exp_iff)
  show "frame_used (a\<lparr>bitmap := (bitmap a)[f div 8 := bitmap a ! (f div 8) AND NOT (2 ^ (f mod 8))]\<rparr>) g
      \<longleftrightarrow> frame_used a g \<and> g \<noteq> f"
    using assms g
    by (cases "g div 8 = f div 8")
      (auto simp: frame_used_def bit_and_iff bit_not_iff bit_exp_iff)
qed

lemma card_free_bound: "card (free_frames a) \<le> unat (total_frames a)"
  using card_mono [of "{..<unat (total_frames a)}" "free_frames a"] by (auto simp: free_frames_def)

lemma fa_core_fits: "fa_core a \<Longrightarrow> bitmap_fits a"
  by (simp add: fa_core_def)

lemma mark_used_spec:
  assumes "fa_core a" and "frame < total_frames a"
  obtains a' where "mark_used a frame = Inr a'" and "fa_core a'" and "same_pool a a'"
    and "next_hint a' = next_hint a" and "free_frames a' = free_frames a - {unat frame}"
proof -
  let ?f = "unat frame"
  let ?n = "if ?f \<in> free_frames a then frames_free a - 1 else frames_free a"
  define a' where "a' = a\<lparr>frames_free := ?n,
    bitmap := (bitmap a)[?f div 8 := bitmap a ! (?f div 8) OR 2 ^ (?f mod 8)]\<rparr>"
  note fits = fa_core_fits [OF assms(1)]
  note ix = bitmap_index [OF fits assms(2)]
  have eq: "mark_used a frame = Inr a'"
    using ix by (simp add: mark_used_def is_free_eq [OF fits assms(2)] Let_def a'_def)
  have used: "frame_used a' g \<longleftrightarrow> frame_used a g \<or> g = ?f" for g
    using frame_used_update(1) [of ?f a g] ix by (simp add: frame_used_def a'_def)
  have free: "free_frames a' = free_frames a - {?f}"
    by (auto simp: free_frames_def used) (simp_all add: a'_def)
  have "unat ?n = card (free_frames a - {?f})"
  proof (cases "?f \<in> free_frames a")
    case True
    then have "0 < card (free_frames a)" by (auto simp: card_gt_0_iff)
    then have "frames_free a \<noteq> 0" using assms(1) by (auto simp: fa_core_def)
    then show ?thesis using True assms(1) by (simp add: fa_core_def unat_minus_one card_Diff_singleton)
  next
    case False
    then show ?thesis using assms(1) by (simp add: fa_core_def)
  qed
  then have core: "fa_core a'"
    using fits free by (simp add: fa_core_def bitmap_fits_def a'_def)
  show thesis
    using that [OF eq core _ _ free] by (simp add: same_pool_def a'_def)
qed

lemma mark_free_spec:
  assumes "fa_core a" and "frame < total_frames a"
  obtains a' where "mark_free a frame = Inr a'" and "fa_core a'" and "same_pool a a'"
    and "next_hint a' = next_hint a" and "free_frames a' = insert (unat frame) (free_frames a)"
proof -
  let ?f = "unat frame"
  let ?n = "if ?f \<notin> free_frames a then frames_free a + 1 else frames_free a"
  define a' where "a' = a\<lparr>frames_free := ?n,
    bitmap := (bitmap a)[?f div 8 := bitmap a ! (?f div 8) AND NOT (2 ^ (?f mod 8))]\<rparr>"
  note fits = fa_core_fits [OF assms(1)]
  note ix = bitmap_index [OF fits assms(2)]
  have eq: "mark_free a frame = Inr a'"
    using ix by (simp add: mark_free_def is_free_eq [OF fits assms(2)] Let_def a'_def)
  have used: "frame_used a' g \<longleftrightarrow> frame_used a g \<and> g \<noteq> ?f" for g
    using frame_used_update(2) [of ?f a g] ix by (simp add: frame_used_def a'_def)
  have f: "?f < unat (total_frames a)" using assms(2) by (simp add: word_less_nat_alt)
  then have free: "free_frames a' = insert ?f (free_frames a)"
    by (auto simp: free_frames_def used) (simp_all add: a'_def)
  have "unat ?n = card (insert ?f (free_frames a))"
  proof (cases "?f \<in> free_frames a")
    case True
    then show ?thesis using assms(1) by (simp add: fa_core_def insert_absorb)
  next
    case False
    have "insert ?f (free_frames a) \<subseteq> {..<unat (total_frames a)}"
      using f by (auto simp: free_frames_def)
    then have "card (insert ?f (free_frames a)) \<le> unat (total_frames a)"
      by (metis card_lessThan card_mono finite_lessThan)
    then have "unat (frames_free a) < unat (total_frames a)"
      using False assms(1) by (simp add: fa_core_def)
    then have "unat (frames_free a + 1) = Suc (unat (frames_free a))"
      by (intro unat_suc_less) (simp add: word_less_nat_alt)
    then show ?thesis using False assms(1) by (simp add: fa_core_def)
  qed
  then have core: "fa_core a'"
    using fits free by (simp add: fa_core_def bitmap_fits_def a'_def)
  show thesis
    using that [OF eq core _ _ free] by (simp add: same_pool_def a'_def)
qed

section \<open>Allocation is next fit\<close>

text \<open>
  The reference: the first free frame met when the \<open>n\<close> frames are visited cyclically
  from \<open>hint\<close>, and the first free frame below \<open>bound\<close>.
\<close>

definition next_fit :: "nat set \<Rightarrow> nat \<Rightarrow> nat \<Rightarrow> nat option" where
  "next_fit free n hint =
     map_option (\<lambda>k. (hint + k) mod n) (find (\<lambda>k. (hint + k) mod n \<in> free) [0..<n])"

definition first_fit :: "nat set \<Rightarrow> nat \<Rightarrow> nat option" where
  "first_fit free bound = find (\<lambda>f. f \<in> free) [0..<bound]"

definition frame_addr :: "nat \<Rightarrow> phys_addr" where
  "frame_addr f = from_frame_number (of_nat f)"

lemma find_upt_less: "i < n \<Longrightarrow> find P [i..<n] = (if P i then Some i else find P [Suc i..<n])"
  by (simp add: upt_conv_Cons)

lemma total_frames_bound: "bitmap_fits a \<Longrightarrow> unat (total_frames a) \<le> 2 ^ 29"
  by (simp add: bitmap_fits_def MAX_BITMAP_BYTES_def) arith

lemma frame_addr_word: "from_frame_number w = frame_addr (unat w)"
  by (simp add: frame_addr_def)

text \<open>The scanned position as a natural number: no addition in it wraps.\<close>

lemma scan_position:
  assumes "bitmap_fits a" and "next_hint a < total_frames a" and "offset < total_frames a"
  shows "unat ((next_hint a + offset) mod total_frames a)
      = (unat (next_hint a) + unat offset) mod unat (total_frames a)"
    and "(next_hint a + offset) mod total_frames a < total_frames a"
proof -
  have "unat (next_hint a) + unat offset < 2 ^ LENGTH(64)"
    using total_frames_bound [OF assms(1)] assms(2,3) by (simp add: word_less_nat_alt)
  then show eq: "unat ((next_hint a + offset) mod total_frames a)
      = (unat (next_hint a) + unat offset) mod unat (total_frames a)"
    by (simp add: unat_mod unat_add_no_wrap)
  show "(next_hint a + offset) mod total_frames a < total_frames a"
    using assms(3) by (simp add: word_less_nat_alt unat_mod)
qed

lemma allocate_scan_spec:
  assumes "fa_core a" and "next_hint a < total_frames a" and "tot = total_frames a"
  shows "\<exists>a'. allocate_scan a tot offset
      = Inr (map_option (\<lambda>k. frame_addr ((unat (next_hint a) + k) mod unat tot))
          (find (\<lambda>k. (unat (next_hint a) + k) mod unat tot \<in> free_frames a) [unat offset..<unat tot]), a')
    \<and> fa_core a' \<and> same_pool a a' \<and> next_hint a' < total_frames a'
    \<and> free_frames a' = free_frames a - (\<lambda>k. (unat (next_hint a) + k) mod unat tot) `
        set_option (find (\<lambda>k. (unat (next_hint a) + k) mod unat tot \<in> free_frames a) [unat offset..<unat tot])"
  using assms
proof (induction a tot offset rule: allocate_scan.induct)
  case (1 a tot offset)
  note fits = fa_core_fits [OF "1.prems"(1)]
  show ?case
  proof (cases "offset < tot")
    case False
    then show ?thesis
      using "1.prems" by (subst allocate_scan.simps) (simp add: word_less_nat_alt)
  next
    case True
    define frame where "frame = (next_hint a + offset) mod tot"
    have frame: "unat frame = (unat (next_hint a) + unat offset) mod unat tot" "frame < total_frames a"
      using scan_position [OF fits "1.prems"(2), of offset] True "1.prems"(3) by (simp_all add: frame_def)
    have lt: "unat offset < unat tot" using True by (simp add: word_less_nat_alt)
    have free: "is_free a frame = Inr (unat frame \<in> free_frames a)"
      by (rule is_free_eq [OF fits frame(2)])
    show ?thesis
    proof (cases "unat frame \<in> free_frames a")
      case False
      then have "allocate_scan a tot offset = allocate_scan a tot (offset + 1)"
        using True free by (subst allocate_scan.simps) (simp add: Let_def flip: frame_def)
      moreover have "is_free a ((next_hint a + offset) mod tot) = Inr False"
        using free False by (simp add: frame_def)
      ultimately show ?thesis
        using "1.IH" [OF True refl, of False] "1.prems" False lt
        by (simp add: find_upt_less frame(1) unat_suc_less [OF True])
    next
      case used: True
      obtain a' where a': "mark_used a frame = Inr a'" "fa_core a'" "same_pool a a'"
        "next_hint a' = next_hint a" "free_frames a' = free_frames a - {unat frame}"
        using mark_used_spec [OF "1.prems"(1) frame(2)] by blast
      let ?a = "a'\<lparr>next_hint := (frame + 1) mod tot\<rparr>"
      have eq: "allocate_scan a tot offset = Inr (Some (frame_addr (unat frame)), ?a)"
        using True used free a'(1)
        by (subst allocate_scan.simps) (simp add: Let_def frame_addr_word flip: frame_def)
      have "fa_core ?a" "same_pool a ?a" "free_frames ?a = free_frames a - {unat frame}"
        using a' by (simp_all add: fa_core_def bitmap_fits_def free_frames_def frame_used_def same_pool_def)
      moreover have "next_hint ?a < total_frames ?a"
        using a'(3) "1.prems"(2,3) by (simp add: same_pool_def word_less_nat_alt unat_mod)
      ultimately show ?thesis
        using eq used lt by (auto simp: find_upt_less frame(1))
    qed
  qed
qed

lemma allocate_spec:
  assumes "fa_inv a"
  obtains a' where
    "allocate a = Inr (map_option frame_addr
        (next_fit (free_frames a) (unat (total_frames a)) (unat (next_hint a))), a')"
    and "fa_inv a'" and "same_pool a a'"
    and "free_frames a' = free_frames a -
        set_option (next_fit (free_frames a) (unat (total_frames a)) (unat (next_hint a)))"
proof (cases "total_frames a = 0")
  case True
  then have "allocate a = Inr (None, a)" and "next_fit (free_frames a) (unat (total_frames a)) h = None" for h
    by (simp_all add: allocate_def next_fit_def)
  then show thesis using assms that [of a] by simp
next
  case False
  then have "0 < total_frames a" by (simp add: word_neq_0_conv)
  with assms have core: "fa_core a" and hint: "next_hint a < total_frames a"
    by (simp_all add: fa_inv_def fa_core_def)
  obtain a' where a': "allocate_scan a (total_frames a) 0
      = Inr (map_option (\<lambda>k. frame_addr ((unat (next_hint a) + k) mod unat (total_frames a)))
          (find (\<lambda>k. (unat (next_hint a) + k) mod unat (total_frames a) \<in> free_frames a)
            [0..<unat (total_frames a)]), a')"
    "fa_core a'" "same_pool a a'" "next_hint a' < total_frames a'"
    "free_frames a' = free_frames a - (\<lambda>k. (unat (next_hint a) + k) mod unat (total_frames a)) `
        set_option (find (\<lambda>k. (unat (next_hint a) + k) mod unat (total_frames a) \<in> free_frames a)
          [0..<unat (total_frames a)])"
    using allocate_scan_spec [OF core hint refl, of 0] by auto
  show thesis
  proof (rule that)
    show "allocate a = Inr (map_option frame_addr
        (next_fit (free_frames a) (unat (total_frames a)) (unat (next_hint a))), a')"
      using False a'(1) by (simp add: allocate_def Let_def next_fit_def option.map_comp comp_def)
    show "fa_inv a'" using a'(2,4) by (simp add: fa_inv_def fa_core_def)
    show "same_pool a a'" by (rule a'(3))
    show "free_frames a' = free_frames a -
        set_option (next_fit (free_frames a) (unat (total_frames a)) (unat (next_hint a)))"
      using a'(5) by (simp add: next_fit_def option.set_map)
  qed
qed

lemma next_fit_Some:
  assumes "next_fit free n hint = Some f"
  shows "f \<in> free"
  using assms by (auto simp: next_fit_def find_Some_iff)

lemma next_fit_None:
  assumes "next_fit free n hint = None" and "free \<subseteq> {..<n}"
  shows "free = {}"
proof (rule ccontr)
  assume "free \<noteq> {}"
  then obtain f where f: "f \<in> free" "f < n" using assms(2) by auto
  define k where "k = (f + (n - hint mod n)) mod n"
  have "k < n" using f(2) by (simp add: k_def)
  have "(hint + k) mod n = (hint mod n + (f + (n - hint mod n))) mod n"
    by (simp add: k_def mod_simps)
  also have "hint mod n + (f + (n - hint mod n)) = f + n"
    using f(2) mod_less_divisor [of n hint] by linarith
  finally have "(hint + k) mod n = f" using f(2) by simp
  with assms(1) \<open>k < n\<close> f(1) show False
    by (auto simp: next_fit_def find_None_iff)
qed

lemma allocate_below_scan_spec:
  assumes "fa_core a" and "bound \<le> total_frames a"
  shows "\<exists>a'. allocate_below_scan a bound frame
      = Inr (map_option frame_addr (find (\<lambda>f. f \<in> free_frames a) [unat frame..<unat bound]), a')
    \<and> fa_core a' \<and> same_pool a a' \<and> next_hint a' = next_hint a
    \<and> free_frames a' = free_frames a - set_option (find (\<lambda>f. f \<in> free_frames a) [unat frame..<unat bound])"
  using assms
proof (induction a bound frame rule: allocate_below_scan.induct)
  case (1 a bound frame)
  show ?case
  proof (cases "frame < bound")
    case False
    then show ?thesis
      using "1.prems" by (subst allocate_below_scan.simps) (simp add: word_less_nat_alt)
  next
    case True
    then have lt: "unat frame < unat bound" by (simp add: word_less_nat_alt)
    have tot: "frame < total_frames a" using True "1.prems"(2) by simp
    have free: "is_free a frame = Inr (unat frame \<in> free_frames a)"
      by (rule is_free_eq [OF fa_core_fits [OF "1.prems"(1)] tot])
    show ?thesis
    proof (cases "unat frame \<in> free_frames a")
      case False
      then have "allocate_below_scan a bound frame = allocate_below_scan a bound (frame + 1)"
        using True free by (subst allocate_below_scan.simps) simp
      then show ?thesis
        using "1.IH" [OF True free] "1.prems" False lt
        by (simp add: find_upt_less unat_suc_less [OF True])
    next
      case used: True
      obtain a' where "mark_used a frame = Inr a'" "fa_core a'" "same_pool a a'"
        "next_hint a' = next_hint a" "free_frames a' = free_frames a - {unat frame}"
        using mark_used_spec [OF "1.prems"(1) tot] by blast
      then show ?thesis
        using True used free lt
        by (subst allocate_below_scan.simps) (simp add: find_upt_less frame_addr_word)
    qed
  qed
qed

lemma allocate_below_spec:
  assumes "fa_inv a"
  obtains a' where
    "allocate_below a limit = Inr (map_option frame_addr
        (first_fit (free_frames a) (min (unat (total_frames a)) (unat (frame_number limit)))), a')"
    and "fa_inv a'" and "same_pool a a'"
    and "free_frames a' = free_frames a -
        set_option (first_fit (free_frames a) (min (unat (total_frames a)) (unat (frame_number limit))))"
proof -
  have core: "fa_core a" using assms by (simp add: fa_inv_def fa_core_def)
  let ?b = "min (total_frames a) (frame_number limit)"
  have b: "unat ?b = min (unat (total_frames a)) (unat (frame_number limit))"
    by (simp add: min_def word_le_nat_alt)
  obtain a' where a': "allocate_below_scan a ?b 0
      = Inr (map_option frame_addr (find (\<lambda>f. f \<in> free_frames a) [0..<unat ?b]), a')"
    "fa_core a'" "same_pool a a'" "next_hint a' = next_hint a"
    "free_frames a' = free_frames a - set_option (find (\<lambda>f. f \<in> free_frames a) [0..<unat ?b])"
    using allocate_below_scan_spec [OF core, of ?b 0] by auto
  show thesis
    using that [of a'] a' assms unfolding b first_fit_def allocate_below_def
    by (simp add: Let_def fa_inv_def fa_core_def same_pool_def)
qed

lemma first_fit_Some: "first_fit free b = Some f \<Longrightarrow> f \<in> free \<and> f < b"
  by (auto simp: first_fit_def find_Some_iff)

lemma first_fit_None: "first_fit free b = None \<longleftrightarrow> free \<inter> {..<b} = {}"
  by (auto simp: first_fit_def find_None_iff)

lemma first_fit_least: "first_fit free b = Some f \<Longrightarrow> g \<in> free \<Longrightarrow> f \<le> g"
  by (auto simp: first_fit_def find_Some_iff) (metis leI)

lemma deallocate_spec:
  assumes "fa_inv a"
  shows "deallocate a p =
      (if unat (frame_number p) \<ge> unat (total_frames a) then Inr (Inl OutOfRange, a)
       else if unat (frame_number p) \<in> free_frames a then Inr (Inl DoubleFree, a)
       else bindE (mark_free a (frame_number p)) (\<lambda>a. Inr (Inr (), a)))"
  using assms is_free_eq [of a "frame_number p"]
  by (auto simp: deallocate_def Let_def word_le_nat_alt word_less_nat_alt fa_inv_def)

lemma deallocate_Ok:
  assumes "fa_inv a" and "unat (frame_number p) < unat (total_frames a)"
    and "unat (frame_number p) \<notin> free_frames a"
  obtains a' where "deallocate a p = Inr (Inr (), a')" and "fa_inv a'" and "same_pool a a'"
    and "free_frames a' = insert (unat (frame_number p)) (free_frames a)"
proof -
  have core: "fa_core a" using assms(1) by (simp add: fa_inv_def fa_core_def)
  have lt: "frame_number p < total_frames a" using assms(2) by (simp add: word_less_nat_alt)
  obtain a' where a': "mark_free a (frame_number p) = Inr a'" "fa_core a'" "same_pool a a'"
    "next_hint a' = next_hint a" "free_frames a' = insert (unat (frame_number p)) (free_frames a)"
    using mark_free_spec [OF core lt] by blast
  show thesis
    using that [of a'] a' assms by (simp add: deallocate_spec fa_inv_def fa_core_def same_pool_def)
qed

section \<open>Initialisation\<close>

text \<open>An entry the allocator treats as free memory, and the frames it covers.\<close>

definition valid_entry :: "memory_map_entry \<Rightarrow> bool" where
  "valid_entry e \<longleftrightarrow> number_of_pages e \<noteq> 0 \<and> is_frame_aligned (physical_start e) \<and> end_addr e \<noteq> None"

definition usable_entry :: "memory_map_entry \<Rightarrow> bool" where
  "usable_entry e \<longleftrightarrow> entry_typ e = EFI_CONVENTIONAL_MEMORY \<and> valid_entry e"

definition entry_frames :: "memory_map_entry \<Rightarrow> nat set" where
  "entry_frames e = {unat (frame_number (physical_start e))
     ..< unat (frame_number (physical_start e)) + unat (number_of_pages e)}"

definition bitmap_frames :: "frame_allocator \<Rightarrow> nat set" where
  "bitmap_frames a = {unat (bitmap_ptr a) div 4096
     ..< unat (bitmap_ptr a) div 4096 + (length (bitmap a) + 4095) div 4096}"

lemma free_range_spec:
  assumes "fa_core a"
  shows "\<exists>a'. free_range a frame stop = Inr a' \<and> fa_core a' \<and> same_pool a a' \<and> next_hint a' = next_hint a
    \<and> free_frames a' = free_frames a \<union> ({unat frame..<unat stop} \<inter> {..<unat (total_frames a)})"
  using assms
proof (induction a frame stop rule: free_range.induct)
  case (1 a frame stop)
  show ?case
  proof (cases "frame < stop \<and> frame < total_frames a")
    case False
    then show ?thesis
      using "1.prems" by (subst free_range.simps) (auto simp: word_less_nat_alt word_le_nat_alt)
  next
    case True
    then have lt: "frame < stop" and tot: "frame < total_frames a" by simp_all
    obtain a1 where a1: "mark_free a frame = Inr a1" "fa_core a1" "same_pool a a1"
      "next_hint a1 = next_hint a" "free_frames a1 = insert (unat frame) (free_frames a)"
      using mark_free_spec [OF "1.prems" tot] by blast
    obtain a2 where a2: "free_range a1 (frame + 1) stop = Inr a2" "fa_core a2" "same_pool a1 a2"
      "next_hint a2 = next_hint a1"
      "free_frames a2 = free_frames a1 \<union> ({unat (frame + 1)..<unat stop} \<inter> {..<unat (total_frames a1)})"
      using "1.IH" [OF lt _ a1(1)] tot a1(2) by (auto simp: not_le)
    have "{unat frame..<unat stop} \<inter> {..<unat (total_frames a)}
        = insert (unat frame) ({Suc (unat frame)..<unat stop} \<inter> {..<unat (total_frames a)})"
      using lt tot by (auto simp: word_less_nat_alt)
    then have "free_frames a2 = free_frames a \<union> ({unat frame..<unat stop} \<inter> {..<unat (total_frames a)})"
      using a1(3,5) a2(5) unat_suc_less [OF lt] by (simp add: same_pool_def)
    moreover have "free_range a frame stop = Inr a2"
      using lt tot a1(1) a2(1) by (subst free_range.simps) (simp add: not_le)
    ultimately show ?thesis
      using a1(3,4) a2(2,3,4) same_pool_trans by metis
  qed
qed

lemma reserve_range_spec:
  assumes "fa_core a"
  shows "\<exists>a'. reserve_range a frame stop = Inr a' \<and> fa_core a' \<and> same_pool a a' \<and> next_hint a' = next_hint a
    \<and> free_frames a' = free_frames a - {unat frame..<unat stop}"
  using assms
proof (induction a frame stop rule: reserve_range.induct)
  case (1 a frame stop)
  show ?case
  proof (cases "frame < stop")
    case False
    then show ?thesis
      using "1.prems" by (subst reserve_range.simps) (auto simp: word_less_nat_alt)
  next
    case lt: True
    obtain a1 where a1: "(if frame < total_frames a then mark_used a frame else Inr a) = Inr a1"
      "fa_core a1" "same_pool a a1" "next_hint a1 = next_hint a"
      "free_frames a1 = free_frames a - {unat frame}"
    proof (cases "frame < total_frames a")
      case True
      then show thesis
        using mark_used_spec [OF "1.prems" True] that by (metis (full_types))
    next
      case False
      then have "unat frame \<notin> free_frames a"
        by (simp add: free_frames_def word_less_nat_alt)
      then show thesis using that [of a] False "1.prems" by simp
    qed
    obtain a2 where a2: "reserve_range a1 (frame + 1) stop = Inr a2" "fa_core a2" "same_pool a1 a2"
      "next_hint a2 = next_hint a1" "free_frames a2 = free_frames a1 - {unat (frame + 1)..<unat stop}"
      using "1.IH" [OF lt a1(1)] a1(2) by auto
    have "{unat frame..<unat stop} = insert (unat frame) {Suc (unat frame)..<unat stop}"
      using lt by (auto simp: word_less_nat_alt)
    then have "free_frames a2 = free_frames a - {unat frame..<unat stop}"
      using a1(5) a2(5) unat_suc_less [OF lt] by auto
    moreover have "reserve_range a frame stop = Inr a2"
      using lt a1(1) a2(1) by (subst reserve_range.simps) simp
    ultimately show ?thesis
      using a1(3,4) a2(2,3,4) same_pool_trans by metis
  qed
qed

lemma entry_end:
  assumes "valid_entry e"
  obtains stop where "end_addr e = Some stop"
    and "unat stop = (unat (frame_number (physical_start e)) + unat (number_of_pages e)) * 4096"
    and "unat (saturating_add (frame_number (physical_start e)) (number_of_pages e))
      = unat (frame_number (physical_start e)) + unat (number_of_pages e)"
proof -
  obtain stop where stop: "end_addr e = Some stop"
    using assms by (auto simp: valid_entry_def)
  have al: "unat (phys_as_u64 (physical_start e)) mod 4096 = 0"
    using assms by (simp add: valid_entry_def is_frame_aligned_iff)
  then have eq: "unat stop = (unat (frame_number (physical_start e)) + unat (number_of_pages e)) * 4096"
    using end_addr_unat [OF stop] div_mult_mod_eq [of "unat (phys_as_u64 (physical_start e))" 4096]
    by (simp add: unat_frame_number algebra_simps)
  moreover have "unat stop < 2 ^ 64" by simp
  ultimately have "unat (frame_number (physical_start e)) + unat (number_of_pages e) < 2 ^ 52"
    by simp
  then show thesis
    using that [OF stop eq] by (simp add: unat_saturating_add)
qed

lemma free_pass_spec:
  assumes "fa_core a"
  shows "\<exists>a'. free_pass a es = Inr a' \<and> fa_core a' \<and> same_pool a a' \<and> next_hint a' = next_hint a
    \<and> free_frames a' = free_frames a
        \<union> ((\<Union>e \<in> {e \<in> set es. usable_entry e}. entry_frames e) \<inter> {..<unat (total_frames a)})"
  using assms
proof (induction es arbitrary: a)
  case Nil
  then show ?case by simp
next
  case (Cons e es)
  show ?case
  proof (cases "usable_entry e")
    case False
    then have "free_pass a (e # es) = free_pass a es"
      by (auto simp: usable_entry_def valid_entry_def)
    moreover have "{x \<in> set (e # es). usable_entry x} = {x \<in> set es. usable_entry x}"
      using False by auto
    ultimately show ?thesis using Cons.IH [OF Cons.prems] by presburger
  next
    case True
    let ?s = "frame_number (physical_start e)" and ?n = "number_of_pages e"
    obtain stop where stop: "end_addr e = Some stop"
      "unat (saturating_add ?s ?n) = unat ?s + unat ?n"
      using entry_end True by (metis usable_entry_def)
    obtain a1 where a1: "free_range a ?s (saturating_add ?s ?n) = Inr a1" "fa_core a1" "same_pool a a1"
      "next_hint a1 = next_hint a"
      "free_frames a1 = free_frames a \<union> (entry_frames e \<inter> {..<unat (total_frames a)})"
      using free_range_spec [OF Cons.prems, of ?s "saturating_add ?s ?n"] stop(2)
      by (auto simp: entry_frames_def)
    obtain a2 where a2: "free_pass a1 es = Inr a2" "fa_core a2" "same_pool a1 a2"
      "next_hint a2 = next_hint a1"
      "free_frames a2 = free_frames a1
        \<union> ((\<Union>e \<in> {e \<in> set es. usable_entry e}. entry_frames e) \<inter> {..<unat (total_frames a1)})"
      using Cons.IH [OF a1(2)] by blast
    have "free_pass a (e # es) = Inr a2"
      using True stop(1) a1(1) a2(1) by (simp add: usable_entry_def valid_entry_def Let_def)
    moreover have "{x \<in> set (e # es). usable_entry x} = insert e {x \<in> set es. usable_entry x}"
      using True by auto
    ultimately show ?thesis
      using a1(3,4,5) a2(2,3,4,5) same_pool_trans [OF a1(3) a2(3)]
      by (auto simp: same_pool_def)
  qed
qed

lemma highest_addr_pass_ge:
  "h \<le> highest_addr_pass es h"
proof (induction es arbitrary: h)
  case (Cons e es)
  then show ?case by (auto split: option.splits intro: order_trans [OF less_imp_le])
qed simp

lemma highest_addr_pass_upper:
  "e \<in> set es \<Longrightarrow> valid_entry e \<Longrightarrow> end_addr e = Some stop \<Longrightarrow> stop \<le> highest_addr_pass es h"
proof (induction es arbitrary: h)
  case (Cons x es)
  show ?case
  proof (cases "e = x")
    case True
    then show ?thesis
      using Cons.prems highest_addr_pass_ge [of stop es] highest_addr_pass_ge [of h es]
      by (auto simp: valid_entry_def not_less)
  next
    case False
    then show ?thesis using Cons by (auto split: option.splits)
  qed
qed simp

lemma bitmap_region_pass_Some:
  "bitmap_region_pass es n = Some p \<Longrightarrow>
    \<exists>e \<in> set es. usable_entry e \<and> p = phys_as_u64 (physical_start e)
      \<and> (\<exists>stop. end_addr e = Some stop \<and> stop \<le> IDENTITY_MAP_LIMIT \<and> unat p + unat n \<le> unat stop)"
proof (induction es)
  case (Cons e es)
  show ?case
  proof (cases "bitmap_region_pass es n = Some p")
    case True
    then show ?thesis using Cons.IH by auto
  next
    case False
    then obtain stop where e: "usable_entry e" "end_addr e = Some stop" "stop \<le> IDENTITY_MAP_LIMIT"
      "n \<le> stop - phys_as_u64 (physical_start e)" "p = phys_as_u64 (physical_start e)"
      using Cons.prems
      by (auto simp: usable_entry_def valid_entry_def Let_def not_less split: if_splits option.splits)
    have "unat p \<le> unat stop" using end_addr_unat [OF e(2)] e(5) by simp
    then have "unat p + unat n \<le> unat stop"
      using e(4,5) by (simp add: word_le_nat_alt unat_sub_if')
    then show ?thesis using e by auto
  qed
qed simp

text \<open>The allocator before pass 3: every frame used.\<close>

lemma all_used_core:
  assumes "tot = h div FRAME_SIZE" and "div_ceil tot 8 \<le> MAX_BITMAP_BYTES"
  shows "fa_core (all_used_allocator p (div_ceil tot 8) tot)"
    and "free_frames (all_used_allocator p (div_ceil tot 8) tot) = {}"
proof -
  let ?a = "all_used_allocator p (div_ceil tot 8) tot"
  have len: "unat (div_ceil tot 8) = (unat tot + 7) div 8"
    by (simp add: unat_div_ceil)
  have "bit (255 :: u8) k" if "k < 8" for k
  proof -
    have "(255 :: u8) = mask 8" by (simp add: mask_eq_exp_minus_1)
    then show ?thesis using that by (simp only: bit_mask_iff) simp
  qed
  then have used: "frame_used ?a f" if "f < unat tot" for f
    using that len by (simp add: frame_used_def all_used_allocator_def)
  then show "free_frames ?a = {}"
    by (auto simp: free_frames_def) (simp add: all_used_allocator_def)
  with len assms(2) show "fa_core ?a"
    by (simp add: fa_core_def bitmap_fits_def word_le_nat_alt all_used_allocator_def)
qed

lemma fa_init_no_panic: "\<exists>r. fa_init m bi = Inr r"
proof -
  let ?es = "memory_map_entries m bi"
  define tot where "tot = highest_addr_pass ?es 0 div FRAME_SIZE"
  have run: "\<exists>r. bindE (free_pass a ?es) (\<lambda>a. bindE (reserve_range a s t) (\<lambda>a. Inr (Inr a))) = Inr r"
    if core: "fa_core a" for a s t
  proof -
    obtain a1 where a1: "free_pass a ?es = Inr a1" "fa_core a1"
      using free_pass_spec [OF core] by blast
    then show ?thesis using reserve_range_spec [OF a1(2), of s t] by auto
  qed
  have core: "fa_core (all_used_allocator p (div_ceil tot 8) tot)"
    if "\<not> MAX_BITMAP_BYTES < div_ceil tot 8" for p
    using all_used_core(1) [OF tot_def] that by simp
  show ?thesis
    by (auto simp: fa_init_def Let_def simp flip: tot_def split: option.splits intro!: run core)
qed

lemma fa_init_cases:
  assumes "fa_init m bi = Inr (Inr a)"
  obtains p a0 a1 tot where
    "tot = highest_addr_pass (memory_map_entries m bi) 0 div FRAME_SIZE"
    and "div_ceil tot 8 \<noteq> 0" and "div_ceil tot 8 \<le> MAX_BITMAP_BYTES"
    and "bitmap_region_pass (memory_map_entries m bi) (div_ceil tot 8) = Some p"
    and "a0 = all_used_allocator p (div_ceil tot 8) tot"
    and "free_pass a0 (memory_map_entries m bi) = Inr a1"
    and "reserve_range a1 (frame_number (PhysAddr p))
      (saturating_add (frame_number (PhysAddr p)) (div_ceil (div_ceil tot 8) FRAME_SIZE)) = Inr a"
  using assms
  by (fastforce simp: fa_init_def Let_def split: option.splits if_splits elim!: bindE_InrE)

lemma fa_init_spec:
  assumes "fa_init m bi = Inr (Inr a)"
  shows "fa_inv a"
    and "free_frames a = (\<Union>e \<in> {e \<in> set (memory_map_entries m bi). usable_entry e}. entry_frames e)
        - bitmap_frames a"
    and "\<exists>e \<in> set (memory_map_entries m bi). usable_entry e
        \<and> bitmap_ptr a = phys_as_u64 (physical_start e)
        \<and> unat (bitmap_ptr a) + length (bitmap a) \<le> unat (the (end_addr e))
        \<and> the (end_addr e) \<le> IDENTITY_MAP_LIMIT"
proof -
  let ?es = "memory_map_entries m bi"
  obtain p a0 a1 tot where i: "tot = highest_addr_pass ?es 0 div FRAME_SIZE"
    "div_ceil tot 8 \<noteq> 0" "div_ceil tot 8 \<le> MAX_BITMAP_BYTES"
    "bitmap_region_pass ?es (div_ceil tot 8) = Some p"
    "a0 = all_used_allocator p (div_ceil tot 8) tot"
    "free_pass a0 ?es = Inr a1"
    "reserve_range a1 (frame_number (PhysAddr p))
      (saturating_add (frame_number (PhysAddr p)) (div_ceil (div_ceil tot 8) FRAME_SIZE)) = Inr a"
    using fa_init_cases [OF assms] by metis
  let ?n = "div_ceil tot 8"
  note core0 = all_used_core [OF i(1,3), of p, folded i(5)]
  have a1: "fa_core a1" "same_pool a0 a1" "next_hint a1 = next_hint a0"
    "free_frames a1 = (\<Union>e \<in> {e \<in> set ?es. usable_entry e}. entry_frames e) \<inter> {..<unat tot}"
    using free_pass_spec [OF core0(1), of ?es] core0(2) i(5,6) by (auto simp: all_used_allocator_def)
  let ?s = "frame_number (PhysAddr p)" and ?c = "div_ceil ?n FRAME_SIZE"
  have a: "fa_core a" "same_pool a1 a" "next_hint a = next_hint a1"
    "free_frames a = free_frames a1 - {unat ?s..<unat (saturating_add ?s ?c)}"
    using reserve_range_spec [OF a1(1), of ?s "saturating_add ?s ?c"] i(7) by auto
  have pool: "total_frames a = tot" "bitmap_ptr a = p" "next_hint a = 0"
    using a1(2,3) a(2,3) i(5) by (simp_all add: same_pool_def all_used_allocator_def)
  have len: "length (bitmap a) = unat ?n"
    using a(1) pool(1) by (simp add: fa_core_def bitmap_fits_def unat_div_ceil)
  have "0 < tot" using i(2) by (cases "tot = 0") (auto simp: div_ceil_def word_neq_0_conv)
  then show "fa_inv a"
    using a(1) pool by (simp add: fa_inv_def fa_core_def)
  have covered: "entry_frames e \<subseteq> {..<unat tot}" if e: "e \<in> set ?es" "usable_entry e" for e
  proof -
    obtain stop where stop: "end_addr e = Some stop"
      "unat stop = (unat (frame_number (physical_start e)) + unat (number_of_pages e)) * 4096"
      using entry_end e(2) by (metis usable_entry_def)
    have "unat stop \<le> unat (highest_addr_pass ?es 0)"
      using highest_addr_pass_upper [OF e(1) _ stop(1)] e(2) by (simp add: usable_entry_def word_le_nat_alt)
    then have "unat (frame_number (physical_start e)) + unat (number_of_pages e) \<le> unat tot"
      using stop(2) div_le_mono [of "unat stop" "unat (highest_addr_pass ?es 0)" 4096]
      by (simp add: i(1) FRAME_SIZE_def unat_div)
    then show ?thesis by (auto simp: entry_frames_def)
  qed
  have "unat ?c = (unat ?n + 4095) div 4096" by (simp add: unat_div_ceil FRAME_SIZE_def)
  moreover have "unat ?n \<le> 2 ^ 26" using i(3) by (simp add: word_le_nat_alt MAX_BITMAP_BYTES_def)
  moreover have "unat ?s < 2 ^ 52" by (rule frame_number_bound)
  ultimately have "unat (saturating_add ?s ?c) = unat ?s + (unat ?n + 4095) div 4096"
    by (simp add: unat_saturating_add)
  then have "{unat ?s..<unat (saturating_add ?s ?c)} = bitmap_frames a"
    by (simp add: bitmap_frames_def pool len unat_frame_number)
  then show "free_frames a = (\<Union>e \<in> {e \<in> set ?es. usable_entry e}. entry_frames e) - bitmap_frames a"
    using a(4) a1(4) covered by (simp add: Int_absorb2 UN_subset_iff)
  show "\<exists>e \<in> set ?es. usable_entry e \<and> bitmap_ptr a = phys_as_u64 (physical_start e)
        \<and> unat (bitmap_ptr a) + length (bitmap a) \<le> unat (the (end_addr e))
        \<and> the (end_addr e) \<le> IDENTITY_MAP_LIMIT"
    using bitmap_region_pass_Some [OF i(4)] by (auto simp: pool len)
qed

section \<open>The interface its clients use\<close>

text \<open>
  A source of frames: an allocation either reports that no eligible frame is left, or
  hands out an eligible frame and removes exactly it from the free frames.
\<close>

locale frame_source =
  fixes inv :: "'s \<Rightarrow> bool"
    and free :: "'s \<Rightarrow> nat set"
    and eligible :: "'s \<Rightarrow> nat set"
    and alloc :: "'s \<Rightarrow> (phys_addr option \<times> 's) exec"
  assumes eligible_free: "eligible s \<subseteq> free s"
    and alloc_total: "inv s \<Longrightarrow> \<exists>r s'. alloc s = Inr (r, s')"
    and alloc_inv: "inv s \<Longrightarrow> alloc s = Inr (r, s') \<Longrightarrow> inv s'"
    and alloc_None: "inv s \<Longrightarrow> alloc s = Inr (None, s') \<Longrightarrow> eligible s = {} \<and> free s' = free s"
    and alloc_Some: "inv s \<Longrightarrow> alloc s = Inr (Some p, s') \<Longrightarrow>
      is_frame_aligned p \<and> unat (frame_number p) \<in> eligible s
      \<and> free s' = free s - {unat (frame_number p)}"
begin

lemma alloc_cases:
  assumes "inv s"
  obtains (none) s' where "alloc s = Inr (None, s')" "inv s'" "eligible s = {}" "free s' = free s"
  | (some) p s' where "alloc s = Inr (Some p, s')" "inv s'" "is_frame_aligned p"
      "unat (frame_number p) \<in> eligible s" "unat (frame_number p) \<in> free s"
      "free s' = free s - {unat (frame_number p)}"
proof -
  obtain r s' where s': "alloc s = Inr (r, s')" using alloc_total [OF assms] by blast
  then have inv': "inv s'" using alloc_inv [OF assms] by blast
  show thesis
  proof (cases r)
    case None
    then have s'': "alloc s = Inr (None, s')" using s' by simp
    show thesis using none [OF s'' inv'] alloc_None [OF assms s''] by simp
  next
    case (Some p)
    then have s'': "alloc s = Inr (Some p, s')" using s' by simp
    have "unat (frame_number p) \<in> free s"
      using alloc_Some [OF assms s''] eligible_free by blast
    then show thesis using some [OF s'' inv'] alloc_Some [OF assms s''] by simp
  qed
qed

lemma alloc_succeeds:
  assumes "inv s" and "eligible s \<noteq> {}"
  shows "\<exists>p s'. alloc s = Inr (Some p, s')"
  using assms by (cases rule: alloc_cases) auto

end

text \<open>
  A pool also takes frames back: a frame it tracks and has handed out is accepted, a free
  frame is reported as a double free, a frame it does not track as out of range.
\<close>

locale frame_pool = frame_source inv free free alloc
  for inv :: "'s \<Rightarrow> bool"
    and free :: "'s \<Rightarrow> nat set"
    and alloc :: "'s \<Rightarrow> (phys_addr option \<times> 's) exec" +
  fixes tracked :: "'s \<Rightarrow> nat"
    and dealloc :: "'s \<Rightarrow> phys_addr \<Rightarrow> ((dealloc_error + unit) \<times> 's) exec"
  assumes free_tracked: "free s \<subseteq> {..<tracked s}"
    and alloc_tracked: "inv s \<Longrightarrow> alloc s = Inr (r, s') \<Longrightarrow> tracked s' = tracked s"
    and dealloc_range: "inv s \<Longrightarrow> tracked s \<le> unat (frame_number p) \<Longrightarrow>
      dealloc s p = Inr (Inl OutOfRange, s)"
    and dealloc_double: "inv s \<Longrightarrow> unat (frame_number p) \<in> free s \<Longrightarrow>
      dealloc s p = Inr (Inl DoubleFree, s)"
    and dealloc_held: "inv s \<Longrightarrow> unat (frame_number p) < tracked s \<Longrightarrow>
      unat (frame_number p) \<notin> free s \<Longrightarrow>
      \<exists>s'. dealloc s p = Inr (Inr (), s') \<and> inv s' \<and> tracked s' = tracked s
        \<and> free s' = insert (unat (frame_number p)) (free s)"
begin

lemma finite_free: "finite (free s)"
  using free_tracked finite_subset by blast

lemma dealloc_cases:
  assumes "inv s"
  obtains (ok) s' where "dealloc s p = Inr (Inr (), s')" "inv s'" "tracked s' = tracked s"
      "unat (frame_number p) < tracked s" "unat (frame_number p) \<notin> free s"
      "free s' = insert (unat (frame_number p)) (free s)"
  | (err) e where "dealloc s p = Inr (Inl e, s)"
      "tracked s \<le> unat (frame_number p) \<or> unat (frame_number p) \<in> free s"
proof -
  let ?f = "unat (frame_number p)"
  consider "tracked s \<le> ?f" | "?f \<in> free s" | "?f < tracked s" "?f \<notin> free s"
    by linarith
  then show thesis
  proof cases
    case 1
    then show thesis using err [OF dealloc_range [OF assms]] by blast
  next
    case 2
    then show thesis using err [OF dealloc_double [OF assms]] by blast
  next
    case 3
    then show thesis using dealloc_held [OF assms] ok by blast
  qed
qed

lemma alloc_dealloc_restores:
  assumes "inv s" and "alloc s = Inr (Some p, s')"
  shows "\<exists>s''. dealloc s' p = Inr (Inr (), s'') \<and> inv s'' \<and> free s'' = free s"
proof -
  have inv': "inv s'" by (rule alloc_inv [OF assms])
  have p: "unat (frame_number p) \<in> free s" "free s' = free s - {unat (frame_number p)}"
    using alloc_Some [OF assms] by simp_all
  have "unat (frame_number p) < tracked s'"
    using p(1) free_tracked [of s] alloc_tracked [OF assms] by auto
  then show ?thesis
    using dealloc_held [OF inv', of p] p by (auto simp: insert_absorb)
qed

end

lemma frame_number_frame_addr: "f < 2 ^ 52 \<Longrightarrow> frame_number (frame_addr f) = of_nat f"
  by (simp add: frame_addr_def frame_number_from)

lemma frame_addr_free:
  assumes "fa_inv a" and "f \<in> free_frames a"
  shows "is_frame_aligned (frame_addr f)" and "unat (frame_number (frame_addr f)) = f"
    and "unat (phys_as_u64 (frame_addr f)) = f * 4096" and "f < 2 ^ 29"
proof -
  show "f < 2 ^ 29"
    using assms total_frames_bound [of a] by (auto simp: fa_inv_def free_frames_def)
  then show "is_frame_aligned (frame_addr f)" "unat (frame_number (frame_addr f)) = f"
    "unat (phys_as_u64 (frame_addr f)) = f * 4096"
    by (simp_all add: frame_addr_def from_frame_number_aligned frame_number_from unat_from_frame_number)
qed

text \<open>The scan results as facts about a call that returned.\<close>

abbreviation next_frame :: "frame_allocator \<Rightarrow> nat option" where
  "next_frame a \<equiv> next_fit (free_frames a) (unat (total_frames a)) (unat (next_hint a))"

abbreviation first_frame :: "frame_allocator \<Rightarrow> phys_addr \<Rightarrow> nat option" where
  "first_frame a limit \<equiv>
     first_fit (free_frames a) (min (unat (total_frames a)) (unat (frame_number limit)))"

lemma allocate_returns:
  assumes "fa_inv a" and "allocate a = Inr (r, a')"
  shows "map_option frame_addr (next_frame a) = r" and "fa_inv a'" and "same_pool a a'"
    and "free_frames a' = free_frames a - set_option (next_frame a)"
proof -
  obtain b where "allocate a = Inr (map_option frame_addr (next_frame a), b)" "fa_inv b"
    "same_pool a b" "free_frames b = free_frames a - set_option (next_frame a)"
    by (rule allocate_spec [OF assms(1)])
  with assms(2) show "map_option frame_addr (next_frame a) = r" "fa_inv a'" "same_pool a a'"
    "free_frames a' = free_frames a - set_option (next_frame a)" by simp_all
qed

lemma allocate_below_returns:
  assumes "fa_inv a" and "allocate_below a limit = Inr (r, a')"
  shows "map_option frame_addr (first_frame a limit) = r" and "fa_inv a'" and "same_pool a a'"
    and "free_frames a' = free_frames a - set_option (first_frame a limit)"
proof -
  obtain b where "allocate_below a limit = Inr (map_option frame_addr (first_frame a limit), b)"
    "fa_inv b" "same_pool a b" "free_frames b = free_frames a - set_option (first_frame a limit)"
    by (rule allocate_below_spec [OF assms(1)])
  with assms(2) show "map_option frame_addr (first_frame a limit) = r" "fa_inv a'" "same_pool a a'"
    "free_frames a' = free_frames a - set_option (first_frame a limit)" by simp_all
qed

lemma free_frames_tracked: "free_frames a \<subseteq> {..<unat (total_frames a)}"
  by (auto simp: free_frames_def)

interpretation fa: frame_pool fa_inv free_frames allocate "\<lambda>a. unat (total_frames a)" deallocate
proof (unfold_locales, goal_cases)
  case (2 a)
  show ?case by (rule allocate_spec [OF 2]) blast
next
  case (3 a r a')
  then show ?case by (rule allocate_returns)
next
  case (4 a a')
  then have "next_frame a = None" "free_frames a' = free_frames a - set_option (next_frame a)"
    using allocate_returns(1,4) [OF 4] by auto
  then show ?case using next_fit_None [OF _ free_frames_tracked] by simp
next
  case (5 a p a')
  then obtain f where f: "next_frame a = Some f" "p = frame_addr f" "free_frames a' = free_frames a - {f}"
    using allocate_returns(1,4) [OF 5] by auto
  then show ?case using next_fit_Some [OF f(1)] frame_addr_free [OF 5(1)] by simp
next
  case (6 a)
  then show ?case by (rule free_frames_tracked)
next
  case (7 a r a')
  then show ?case using allocate_returns(3) [OF 7] by (simp add: same_pool_def)
next
  case (8 a p)
  then show ?case by (simp add: deallocate_spec)
next
  case (9 a p)
  then show ?case using free_frames_tracked [of a] by (auto simp: deallocate_spec)
next
  case (10 a p)
  show ?case by (rule deallocate_Ok [OF 10]) (simp add: same_pool_def)
qed simp

interpretation fa_below: frame_source fa_inv free_frames
    "\<lambda>a. {f \<in> free_frames a. f < unat (frame_number limit)}" "\<lambda>a. allocate_below a limit"
  for limit
proof (unfold_locales, goal_cases)
  case (2 a)
  show ?case by (rule allocate_below_spec [OF 2, of limit]) blast
next
  case (3 a r a')
  then show ?case by (rule allocate_below_returns)
next
  case (4 a a')
  have none: "first_frame a limit = None"
    and eq: "free_frames a' = free_frames a - set_option (first_frame a limit)"
    using allocate_below_returns(1,4) [OF 4] by simp_all
  have "free_frames a \<inter> {..<min (unat (total_frames a)) (unat (frame_number limit))} = {}"
    using none by (simp only: first_fit_None)
  then have "{f \<in> free_frames a. f < unat (frame_number limit)} = {}"
    using free_frames_tracked [of a] by (auto simp: disjoint_iff subset_iff)
  with none eq show ?case by simp
next
  case (5 a p a')
  then obtain f where f: "first_frame a limit = Some f" "p = frame_addr f"
      "free_frames a' = free_frames a - {f}"
    using allocate_below_returns(1,4) [OF 5] by auto
  then show ?case using first_fit_Some [OF f(1)] frame_addr_free [OF 5(1)] by simp
qed auto

section \<open>Runs of the allocator\<close>

text \<open>
  One call of a client that holds the frames in \<open>held\<close>: it may allocate, allocate below a
  limit, return a frame it holds, or make a call that the allocator rejects.
\<close>

inductive fa_step :: "frame_allocator \<times> nat set \<Rightarrow> frame_allocator \<times> nat set \<Rightarrow> bool" where
  step_allocate: "allocate a = Inr (Some p, a') \<Longrightarrow>
    fa_step (a, held) (a', insert (unat (frame_number p)) held)"
| step_allocate_none: "allocate a = Inr (None, a') \<Longrightarrow> fa_step (a, held) (a', held)"
| step_below: "allocate_below a limit = Inr (Some p, a') \<Longrightarrow>
    fa_step (a, held) (a', insert (unat (frame_number p)) held)"
| step_below_none: "allocate_below a limit = Inr (None, a') \<Longrightarrow> fa_step (a, held) (a', held)"
| step_deallocate: "unat (frame_number p) \<in> held \<Longrightarrow> deallocate a p = Inr (Inr (), a') \<Longrightarrow>
    fa_step (a, held) (a', held - {unat (frame_number p)})"
| step_rejected: "deallocate a p = Inr (Inl e, a') \<Longrightarrow> fa_step (a, held) (a', held)"

inductive fa_reachable :: "frame_allocator \<Rightarrow> frame_allocator \<times> nat set \<Rightarrow> bool" for a0 where
  reach_start: "fa_reachable a0 (a0, {})"
| reach_step: "fa_reachable a0 s \<Longrightarrow> fa_step s t \<Longrightarrow> fa_reachable a0 t"

text \<open>What every run keeps: nothing held is free, and no frame appears or disappears.\<close>

definition run_inv :: "frame_allocator \<Rightarrow> frame_allocator \<times> nat set \<Rightarrow> bool" where
  "run_inv a0 s \<longleftrightarrow> fa_inv (fst s) \<and> same_pool a0 (fst s)
     \<and> snd s \<inter> free_frames (fst s) = {} \<and> snd s \<union> free_frames (fst s) = free_frames a0"

lemma run_inv_step:
  assumes "run_inv a0 (a, held)" and "fa_inv a'" and "same_pool a a'"
    and "held' \<inter> free_frames a' = {}" and "held' \<union> free_frames a' = held \<union> free_frames a"
  shows "run_inv a0 (a', held')"
  using assms by (auto simp: run_inv_def intro: same_pool_trans)

lemma fa_step_run_inv:
  assumes "fa_step s t" and "run_inv a0 s"
  shows "run_inv a0 t"
  using assms
proof (induction rule: fa_step.induct)
  case (step_allocate a p a' held)
  then have inv: "fa_inv a" and "held \<inter> free_frames a = {}" by (simp_all add: run_inv_def)
  then show ?case
    using fa.alloc_Some [OF inv step_allocate(1)]
    by (intro run_inv_step [OF step_allocate(2) allocate_returns(2,3) [OF inv step_allocate(1)]]) auto
next
  case (step_allocate_none a a' held)
  then have inv: "fa_inv a" and "held \<inter> free_frames a = {}" by (simp_all add: run_inv_def)
  then show ?case
    using fa.alloc_None [OF inv step_allocate_none(1)]
    by (intro run_inv_step [OF step_allocate_none(2) allocate_returns(2,3) [OF inv step_allocate_none(1)]]) auto
next
  case (step_below a limit p a' held)
  then have inv: "fa_inv a" and "held \<inter> free_frames a = {}" by (simp_all add: run_inv_def)
  then show ?case
    using fa_below.alloc_Some [OF inv step_below(1)]
    by (intro run_inv_step [OF step_below(2) allocate_below_returns(2,3) [OF inv step_below(1)]]) auto
next
  case (step_below_none a limit a' held)
  then have inv: "fa_inv a" and "held \<inter> free_frames a = {}" by (simp_all add: run_inv_def)
  then show ?case
    using fa_below.alloc_None [OF inv step_below_none(1)]
    by (intro run_inv_step [OF step_below_none(2) allocate_below_returns(2,3) [OF inv step_below_none(1)]]) auto
next
  case (step_deallocate p held a a')
  then have inv: "fa_inv a" and "held \<inter> free_frames a = {}" by (simp_all add: run_inv_def)
  moreover obtain b where "deallocate a p = Inr (Inr (), b)" "fa_inv b" "same_pool a b"
    "free_frames b = insert (unat (frame_number p)) (free_frames a)"
  proof (rule deallocate_Ok [OF inv])
    show "unat (frame_number p) < unat (total_frames a)" "unat (frame_number p) \<notin> free_frames a"
      using step_deallocate(2) by (cases rule: fa.dealloc_cases [OF inv, of p]; simp)+
  qed blast
  ultimately show ?case
    using step_deallocate(1,2) by (intro run_inv_step [OF step_deallocate(3)]) auto
next
  case (step_rejected a p e a' held)
  then have inv: "fa_inv a" by (simp add: run_inv_def)
  have "a' = a" using step_rejected(1) by (cases rule: fa.dealloc_cases [OF inv, of p]) auto
  then show ?case using step_rejected(2) by simp
qed

lemma fa_reachable_run_inv:
  assumes "fa_reachable a0 s" and "fa_inv a0"
  shows "run_inv a0 s"
  using assms
  by (induction rule: fa_reachable.induct) (auto simp: run_inv_def [of a0 "(a0, {})"] intro: fa_step_run_inv)

end
