(* ===== verification/Page_Table_Entry.thy ===== *)
theory Page_Table_Entry
  imports Addresses
begin

text \<open>
  The page-table entry format of \<open>mm/page_table_entry.rs\<close>: a wrapped 64-bit value with
  the present, writable and no-execute bits and a physical address in bits 51:12. The
  lemmas read every entry the constructors build back through the accessors, so the
  walker of \<open>Vmm\<close> never looks at bit patterns.
\<close>

section \<open>The entry and its constructors\<close>

definition FLAG_PRESENT :: u64 where "FLAG_PRESENT = push_bit 0 1"

definition FLAG_WRITABLE :: u64 where "FLAG_WRITABLE = push_bit 1 1"

definition FLAG_NO_EXECUTE :: u64 where "FLAG_NO_EXECUTE = push_bit 63 1"

definition ADDR_MASK :: u64 where "ADDR_MASK = 0x000FFFFFFFFFF000"

record page_flags =
  writable :: bool
  no_execute :: bool

definition read_write :: page_flags where
  "read_write = \<lparr>writable = True, no_execute = False\<rparr>"

datatype page_table_entry = PageTableEntry (entry_bits: u64)

definition is_present :: "page_table_entry \<Rightarrow> bool" where
  "is_present e \<longleftrightarrow> entry_bits e AND FLAG_PRESENT \<noteq> 0"

definition raw_has_flag :: "page_table_entry \<Rightarrow> u64 \<Rightarrow> bool" where
  "raw_has_flag e flag \<longleftrightarrow> entry_bits e AND flag \<noteq> 0"

definition entry_addr :: "page_table_entry \<Rightarrow> phys_addr" where
  "entry_addr e = PhysAddr (entry_bits e AND ADDR_MASK)"

definition is_writable :: "page_table_entry \<Rightarrow> bool" where
  "is_writable e \<longleftrightarrow> entry_bits e AND FLAG_WRITABLE \<noteq> 0"

definition is_no_execute :: "page_table_entry \<Rightarrow> bool" where
  "is_no_execute e \<longleftrightarrow> entry_bits e AND FLAG_NO_EXECUTE \<noteq> 0"

definition new_table_pointer :: "phys_addr \<Rightarrow> page_table_entry" where
  "new_table_pointer p =
     PageTableEntry ((phys_as_u64 p AND ADDR_MASK) OR FLAG_PRESENT OR FLAG_WRITABLE)"

definition new_leaf :: "phys_addr \<Rightarrow> page_flags \<Rightarrow> page_table_entry" where
  "new_leaf p flags =
     (let bits = (phys_as_u64 p AND ADDR_MASK) OR FLAG_PRESENT;
          bits = (if writable flags then bits OR FLAG_WRITABLE else bits);
          bits = (if no_execute flags then bits OR FLAG_NO_EXECUTE else bits)
      in PageTableEntry bits)"

definition cleared :: page_table_entry where
  "cleared = PageTableEntry 0"

section \<open>Bits of an entry\<close>

lemma and_one_bit: "x AND push_bit n 1 \<noteq> 0 \<longleftrightarrow> bit (x :: u64) n" if "n < 64"
proof
  assume "bit x n"
  then have "bit (x AND push_bit n 1) n"
    using that by (simp add: bit_simps)
  then show "x AND push_bit n 1 \<noteq> 0"
    by (metis bit_0_eq bot_apply bot_bool_def)
next
  assume "x AND push_bit n 1 \<noteq> 0"
  then obtain k where "bit (x AND push_bit n 1) k"
    using bit_eqI [of "x AND push_bit n 1" 0] by auto
  then show "bit x n"
    by (auto simp: bit_simps)
qed

lemma bit_single: "k < 64 \<Longrightarrow> bit (push_bit k 1 :: u64) n \<longleftrightarrow> n = k"
  by (auto simp: bit_exp_iff)

lemma bit_FLAGS:
  "bit FLAG_PRESENT n \<longleftrightarrow> n = 0" "bit FLAG_WRITABLE n \<longleftrightarrow> n = 1"
  "bit FLAG_NO_EXECUTE n \<longleftrightarrow> n = 63"
  unfolding FLAG_PRESENT_def FLAG_WRITABLE_def FLAG_NO_EXECUTE_def
  by (rule bit_single, simp)+

lemma ADDR_MASK_shift: "ADDR_MASK = push_bit 12 (mask 40)"
  by (simp add: ADDR_MASK_def mask_eq_exp_minus_1)

lemma bit_ADDR_MASK: "bit ADDR_MASK n \<longleftrightarrow> 12 \<le> n \<and> n < 52"
  by (auto simp: ADDR_MASK_shift bit_simps)

lemma entry_bits_iff:
  "is_present e \<longleftrightarrow> bit (entry_bits e) 0"
  "is_writable e \<longleftrightarrow> bit (entry_bits e) 1"
  "is_no_execute e \<longleftrightarrow> bit (entry_bits e) 63"
  by (simp_all only: is_present_def is_writable_def is_no_execute_def FLAG_PRESENT_def
      FLAG_WRITABLE_def FLAG_NO_EXECUTE_def and_one_bit)

lemma bit_entry_addr:
  "bit (phys_as_u64 (entry_addr e)) n \<longleftrightarrow> bit (entry_bits e) n \<and> 12 \<le> n \<and> n < 52"
  by (auto simp: entry_addr_def bit_and_iff bit_ADDR_MASK)

lemma bit_new_table_pointer:
  "bit (entry_bits (new_table_pointer p)) n \<longleftrightarrow>
    bit (phys_as_u64 p) n \<and> 12 \<le> n \<and> n < 52 \<or> n = 0 \<or> n = 1"
  by (auto simp: new_table_pointer_def bit_or_iff bit_and_iff bit_FLAGS bit_ADDR_MASK)

lemma bit_new_leaf:
  "bit (entry_bits (new_leaf p flags)) n \<longleftrightarrow>
    bit (phys_as_u64 p) n \<and> 12 \<le> n \<and> n < 52 \<or> n = 0
    \<or> n = 1 \<and> writable flags \<or> n = 63 \<and> no_execute flags"
  by (auto simp: new_leaf_def Let_def bit_or_iff bit_and_iff bit_FLAGS bit_ADDR_MASK)

text \<open>An address an entry can hold: frame-aligned and below \<open>2 ^ 52\<close>.\<close>

definition entry_holds :: "phys_addr \<Rightarrow> bool" where
  "entry_holds p \<longleftrightarrow> is_frame_aligned p \<and> unat (phys_as_u64 p) < 2 ^ 52"

lemma entry_holds_bits:
  assumes "entry_holds p" and "bit (phys_as_u64 p) n"
  shows "12 \<le> n \<and> n < 52"
proof -
  let ?x = "unat (phys_as_u64 p)"
  have n: "bit ?x n" using assms(2) by (simp add: bit_unsigned_iff)
  have "take_bit 12 ?x = 0"
    using assms(1) by (simp add: entry_holds_def is_frame_aligned_iff take_bit_eq_mod)
  then have "\<not> n < 12" using n by (metis bit_0_eq bit_take_bit_iff bot_apply bot_bool_def)
  moreover have "take_bit 52 ?x = ?x"
    using assms(1) by (simp add: entry_holds_def take_bit_eq_mod)
  then have "n < 52" using n by (metis bit_take_bit_iff)
  ultimately show ?thesis by simp
qed

lemma entry_addr_masked: "entry_holds p \<Longrightarrow> phys_as_u64 p AND ADDR_MASK = phys_as_u64 p"
  by (rule bit_eqI) (auto simp: bit_and_iff bit_ADDR_MASK dest: entry_holds_bits)

section \<open>Round trips\<close>

lemma entry_addr_holds: "entry_holds (entry_addr e)"
proof -
  let ?x = "phys_as_u64 (entry_addr e)"
  have "?x AND mask 12 = 0"
    by (rule bit_eqI) (auto simp: bit_simps bit_entry_addr)
  then have "unat ?x mod 2 ^ 12 = 0" by (simp only: unat_0 flip: unat_and_mask)
  moreover have "?x AND mask 52 = ?x"
    by (rule bit_eqI) (auto simp: bit_simps bit_entry_addr)
  then have "unat ?x mod 2 ^ 52 = unat ?x" by (simp only: flip: unat_and_mask)
  then have "unat ?x < 2 ^ 52" by (metis mod_less_divisor zero_less_numeral zero_less_power)
  ultimately show ?thesis by (simp add: entry_holds_def is_frame_aligned_iff)
qed

lemma entry_addr_of_new:
  assumes "entry_holds p"
  shows "entry_addr (new_table_pointer p) = p" and "entry_addr (new_leaf p flags) = p"
proof -
  have "phys_as_u64 (entry_addr (new_table_pointer p)) = phys_as_u64 p"
    "phys_as_u64 (entry_addr (new_leaf p flags)) = phys_as_u64 p"
    by (rule bit_eqI; use entry_holds_bits [OF assms] in
        \<open>auto simp: bit_entry_addr bit_new_table_pointer bit_new_leaf\<close>)+
  then show "entry_addr (new_table_pointer p) = p" and "entry_addr (new_leaf p flags) = p"
    by (metis phys_addr.expand)+
qed

lemma new_table_pointer_flags [simp]:
  "is_present (new_table_pointer p)" "is_writable (new_table_pointer p)"
  "\<not> is_no_execute (new_table_pointer p)"
  by (simp_all add: entry_bits_iff bit_new_table_pointer)

lemma new_leaf_flags [simp]:
  "is_present (new_leaf p flags)"
  "is_writable (new_leaf p flags) \<longleftrightarrow> writable flags"
  "is_no_execute (new_leaf p flags) \<longleftrightarrow> no_execute flags"
  by (simp_all add: entry_bits_iff bit_new_leaf)

lemma cleared_not_present [simp]: "\<not> is_present cleared"
  by (simp add: entry_bits_iff cleared_def)

lemma zero_not_present [simp]: "\<not> is_present (PageTableEntry 0)"
  by (simp add: entry_bits_iff)

end
