(* ===== verification/Vmm.thy ===== *)
theory Vmm
  imports Frame_Allocator Page_Table_Entry
begin

unbundle bit_operations_syntax

text \<open>
  The virtual memory manager of \<open>mm/vmm.rs\<close>: the four-level walker and \<open>map\<close>, \<open>unmap\<close>,
  \<open>translate\<close> and \<open>flags_at\<close> over an explicit machine state (memory seen through the identity
  map, cached translations, \<open>CR3\<close>, \<open>EFER\<close>) and the frame allocator of \<open>Frame_Allocator\<close>.
  All four operations are shown to agree with one \<open>walk\<close> along the indices of an address;
  under the invariant \<open>vm_inv\<close> (the tables form a tree of frames the allocator does not
  consider free) creating tables changes no walk and writing a leaf changes exactly one.
\<close>

section \<open>Machine state\<close>

text \<open>
  The part of the machine the manager touches: memory as seen through the bootloader's
  identity map, the cached translations of canonical pages (keyed by page number), and the
  two registers.
\<close>

record cpu =
  mem :: qmem
  tlb :: "u64 \<rightharpoonup> phys_addr"
  cr3 :: u64
  efer :: u64

definition EFER_NXE_BIT :: u64 where
  "EFER_NXE_BIT = push_bit 11 1"

definition FLAG_PAGE_SIZE :: u64 where
  "FLAG_PAGE_SIZE = push_bit 7 1"

datatype map_error =
    NotPageAligned
  | AlreadyMapped
  | OutOfFrames
  | PageTableUnreachable
  | WouldOverlapHugePage

datatype unmap_error =
    UnmapNotPageAligned
  | NotMapped
  | UnmapPageTableUnreachable
  | IsHugePage

section \<open>Access to tables and registers\<close>

definition checked_table_ptr :: "phys_addr \<Rightarrow> unit + u64" where
  "checked_table_ptr p = (if phys_as_u64 p \<ge> IDENTITY_MAP_LIMIT then Inl () else Inr (phys_as_u64 p))"

text \<open>\<open>ptr.add(index)\<close> on a pointer to \<open>u64\<close>.\<close>

definition ptr_add :: "u64 \<Rightarrow> usize \<Rightarrow> u64" where
  "ptr_add ptr index = ptr + 8 * index"

definition read_entry :: "cpu \<Rightarrow> u64 \<Rightarrow> usize \<Rightarrow> page_table_entry" where
  "read_entry c ptr index = PageTableEntry (mem c (ptr_add ptr index))"

definition write_entry :: "cpu \<Rightarrow> u64 \<Rightarrow> usize \<Rightarrow> page_table_entry \<Rightarrow> cpu" where
  "write_entry c ptr index entry = c\<lparr>mem := (mem c)(ptr_add ptr index := entry_bits entry)\<rparr>"

definition zero_table :: "cpu \<Rightarrow> u64 \<Rightarrow> cpu" where
  "zero_table c ptr = fold (\<lambda>i c. c\<lparr>mem := (mem c)(ptr_add ptr i := 0)\<rparr>) (map of_nat [0..<512]) c"

definition read_cr3 :: "cpu \<Rightarrow> u64" where
  "read_cr3 c = cr3 c"

text \<open>
  \<open>invlpg\<close> drops the cached translation of the page that contains the address; for an
  address that is not canonical it does nothing.
\<close>

definition canonical :: "u64 \<Rightarrow> bool" where
  "canonical addr \<longleftrightarrow> unat addr < 2 ^ 47 \<or> 2 ^ 64 - 2 ^ 47 \<le> unat addr"

definition invlpg :: "cpu \<Rightarrow> u64 \<Rightarrow> cpu" where
  "invlpg c addr = (if canonical addr then c\<lparr>tlb := (tlb c)(addr div FRAME_SIZE := None)\<rparr> else c)"

text \<open>\<open>rdmsr\<close> and \<open>wrmsr\<close> split the register into two 32-bit halves.\<close>

definition read_efer :: "cpu \<Rightarrow> u64" where
  "read_efer c =
     (let low = ucast (efer c) :: u32; high = ucast (drop_bit 32 (efer c)) :: u32
      in push_bit 32 (ucast high) OR ucast low)"

definition write_efer :: "cpu \<Rightarrow> u64 \<Rightarrow> cpu" where
  "write_efer c val =
     (let low = ucast val :: u32; high = ucast (drop_bit 32 val) :: u32
      in c\<lparr>efer := push_bit 32 (ucast high) OR ucast low\<rparr>)"

definition enable_nxe :: "cpu \<Rightarrow> cpu" where
  "enable_nxe c =
     (let current = read_efer c in
      if current AND EFER_NXE_BIT = 0 then write_efer c (current OR EFER_NXE_BIT) else c)"

definition entry_is_huge_page :: "cpu \<Rightarrow> u64 \<Rightarrow> usize \<Rightarrow> bool" where
  "entry_is_huge_page c ptr index = raw_has_flag (read_entry c ptr index) FLAG_PAGE_SIZE"

section \<open>The manager\<close>

record vmm =
  pml4_phys :: phys_addr

definition vmm_init :: "cpu \<Rightarrow> vmm \<times> cpu" where
  "vmm_init c = (let c = enable_nxe c in (\<lparr>pml4_phys = PhysAddr (read_cr3 c)\<rparr>, c))"

text \<open>
  A call that may panic, may return an error, and changes the machine and the allocator
  either way. \<open>bindS\<close> sequences two of them as \<open>?\<close> does: an error returns at once with the
  state reached so far.
\<close>

type_synonym ('e, 'a) vm_result = "(('e + 'a) \<times> cpu \<times> frame_allocator) exec"

definition bindS :: "('e, 'a) vm_result \<Rightarrow> ('a \<Rightarrow> cpu \<Rightarrow> frame_allocator \<Rightarrow> ('e, 'b) vm_result)
    \<Rightarrow> ('e, 'b) vm_result" where
  "bindS m f = bindE m (\<lambda>(r, c, a). case r of Inl e \<Rightarrow> Inr (Inl e, c, a) | Inr x \<Rightarrow> f x c a)"

definition get_or_create_table ::
    "cpu \<Rightarrow> frame_allocator \<Rightarrow> phys_addr \<Rightarrow> usize \<Rightarrow> (map_error, phys_addr) vm_result" where
  "get_or_create_table c a table_phys index =
     (case checked_table_ptr table_phys of
        Inl _ \<Rightarrow> Inr (Inl PageTableUnreachable, c, a)
      | Inr ptr \<Rightarrow>
        let entry = read_entry c ptr index in
        if is_present entry then
          if entry_is_huge_page c ptr index then Inr (Inl WouldOverlapHugePage, c, a)
          else Inr (Inr (entry_addr entry), c, a)
        else
          bindE (allocate_below a (PhysAddr IDENTITY_MAP_LIMIT)) (\<lambda>(r, a).
            case r of
              None \<Rightarrow> Inr (Inl OutOfFrames, c, a)
            | Some new_table_phys \<Rightarrow>
              (case checked_table_ptr new_table_phys of
                 Inl _ \<Rightarrow> Inr (Inl PageTableUnreachable, c, a)
               | Inr new_table_ptr \<Rightarrow>
                 let c = zero_table c new_table_ptr;
                     c = write_entry c ptr index (new_table_pointer new_table_phys)
                 in Inr (Inr new_table_phys, c, a))))"

definition vmm_map ::
    "vmm \<Rightarrow> cpu \<Rightarrow> frame_allocator \<Rightarrow> virt_addr \<Rightarrow> phys_addr \<Rightarrow> page_flags \<Rightarrow> (map_error, unit) vm_result"
where
  "vmm_map v c a virt phys flags =
     (if \<not> is_page_aligned virt \<or> \<not> is_frame_aligned phys then Inr (Inl NotPageAligned, c, a)
      else
        bindS (get_or_create_table c a (pml4_phys v) (pml4_index virt)) (\<lambda>pdpt_phys c a.
        bindS (get_or_create_table c a pdpt_phys (pdpt_index virt)) (\<lambda>pd_phys c a.
        bindS (get_or_create_table c a pd_phys (pd_index virt)) (\<lambda>pt_phys c a.
          case checked_table_ptr pt_phys of
            Inl _ \<Rightarrow> Inr (Inl PageTableUnreachable, c, a)
          | Inr pt_ptr \<Rightarrow>
            let existing = read_entry c pt_ptr (pt_index virt) in
            if is_present existing then Inr (Inl AlreadyMapped, c, a)
            else
              let c = write_entry c pt_ptr (pt_index virt) (new_leaf phys flags);
                  c = invlpg c (virt_as_u64 virt)
              in Inr (Inr (), c, a)))))"

definition vmm_unmap :: "vmm \<Rightarrow> cpu \<Rightarrow> virt_addr \<Rightarrow> (unmap_error + phys_addr) \<times> cpu" where
  "vmm_unmap v c virt =
     (if \<not> is_page_aligned virt then (Inl UnmapNotPageAligned, c)
      else case checked_table_ptr (pml4_phys v) of
        Inl _ \<Rightarrow> (Inl UnmapPageTableUnreachable, c)
      | Inr pml4_ptr \<Rightarrow>
        let pml4e = read_entry c pml4_ptr (pml4_index virt) in
        if \<not> is_present pml4e then (Inl NotMapped, c)
        else (case checked_table_ptr (entry_addr pml4e) of
          Inl _ \<Rightarrow> (Inl UnmapPageTableUnreachable, c)
        | Inr pdpt_ptr \<Rightarrow>
          let pdpte = read_entry c pdpt_ptr (pdpt_index virt) in
          if \<not> is_present pdpte then (Inl NotMapped, c)
          else if raw_has_flag pdpte FLAG_PAGE_SIZE then (Inl IsHugePage, c)
          else (case checked_table_ptr (entry_addr pdpte) of
            Inl _ \<Rightarrow> (Inl UnmapPageTableUnreachable, c)
          | Inr pd_ptr \<Rightarrow>
            let pde = read_entry c pd_ptr (pd_index virt) in
            if \<not> is_present pde then (Inl NotMapped, c)
            else if raw_has_flag pde FLAG_PAGE_SIZE then (Inl IsHugePage, c)
            else (case checked_table_ptr (entry_addr pde) of
              Inl _ \<Rightarrow> (Inl UnmapPageTableUnreachable, c)
            | Inr pt_ptr \<Rightarrow>
              let pte = read_entry c pt_ptr (pt_index virt) in
              if \<not> is_present pte then (Inl NotMapped, c)
              else
                let mapped_phys = entry_addr pte;
                    c = write_entry c pt_ptr (pt_index virt) cleared;
                    c = invlpg c (virt_as_u64 virt)
                in (Inr mapped_phys, c)))))"

definition translate :: "vmm \<Rightarrow> cpu \<Rightarrow> virt_addr \<Rightarrow> phys_addr option" where
  "translate v c virt =
     (case checked_table_ptr (pml4_phys v) of
        Inl _ \<Rightarrow> None
      | Inr pml4_ptr \<Rightarrow>
        let pml4e = read_entry c pml4_ptr (pml4_index virt) in
        if \<not> is_present pml4e then None
        else (case checked_table_ptr (entry_addr pml4e) of
          Inl _ \<Rightarrow> None
        | Inr pdpt_ptr \<Rightarrow>
          let pdpte = read_entry c pdpt_ptr (pdpt_index virt) in
          if \<not> is_present pdpte then None
          else if raw_has_flag pdpte FLAG_PAGE_SIZE then
            let base = phys_as_u64 (entry_addr pdpte) AND NOT 0x3FFFFFFF
            in Some (PhysAddr (base OR (virt_as_u64 virt AND 0x3FFFFFFF)))
          else (case checked_table_ptr (entry_addr pdpte) of
            Inl _ \<Rightarrow> None
          | Inr pd_ptr \<Rightarrow>
            let pde = read_entry c pd_ptr (pd_index virt) in
            if \<not> is_present pde then None
            else if raw_has_flag pde FLAG_PAGE_SIZE then
              let base = phys_as_u64 (entry_addr pde) AND NOT 0x1FFFFF
              in Some (PhysAddr (base OR (virt_as_u64 virt AND 0x1FFFFF)))
            else (case checked_table_ptr (entry_addr pde) of
              Inl _ \<Rightarrow> None
            | Inr pt_ptr \<Rightarrow>
              let pte = read_entry c pt_ptr (pt_index virt) in
              if \<not> is_present pte then None
              else Some (PhysAddr (phys_as_u64 (entry_addr pte) OR page_offset virt))))))"

definition flags_at :: "vmm \<Rightarrow> cpu \<Rightarrow> virt_addr \<Rightarrow> page_flags option" where
  "flags_at v c virt =
     (case checked_table_ptr (pml4_phys v) of
        Inl _ \<Rightarrow> None
      | Inr pml4_ptr \<Rightarrow>
        let pml4e = read_entry c pml4_ptr (pml4_index virt) in
        if \<not> is_present pml4e then None
        else (case checked_table_ptr (entry_addr pml4e) of
          Inl _ \<Rightarrow> None
        | Inr pdpt_ptr \<Rightarrow>
          let pdpte = read_entry c pdpt_ptr (pdpt_index virt) in
          if \<not> is_present pdpte \<or> raw_has_flag pdpte FLAG_PAGE_SIZE then None
          else (case checked_table_ptr (entry_addr pdpte) of
            Inl _ \<Rightarrow> None
          | Inr pd_ptr \<Rightarrow>
            let pde = read_entry c pd_ptr (pd_index virt) in
            if \<not> is_present pde \<or> raw_has_flag pde FLAG_PAGE_SIZE then None
            else (case checked_table_ptr (entry_addr pde) of
              Inl _ \<Rightarrow> None
            | Inr pt_ptr \<Rightarrow>
              let pte = read_entry c pt_ptr (pt_index virt) in
              if \<not> is_present pte then None
              else Some \<lparr>writable = is_writable pte, no_execute = is_no_execute pte\<rparr>))))"


section \<open>The walk through the tables\<close>

text \<open>
  The four operations walk the same tree. \<open>walk\<close> gives the entry a path of indices ends at:
  a leaf, a huge page (with the number of indices left below it), a missing entry, or a table
  outside the identity map. \<open>table_at\<close> is the table a path leads to.
\<close>

definition low_table :: "phys_addr \<Rightarrow> bool" where
  "low_table t \<longleftrightarrow> phys_as_u64 t < IDENTITY_MAP_LIMIT"

definition entry_at :: "qmem \<Rightarrow> phys_addr \<Rightarrow> usize \<Rightarrow> page_table_entry" where
  "entry_at m t i = PageTableEntry (m (ptr_add (phys_as_u64 t) i))"

abbreviation is_huge :: "page_table_entry \<Rightarrow> bool" where
  "is_huge e \<equiv> raw_has_flag e FLAG_PAGE_SIZE"

datatype walk_end =
    Unreachable
  | Missing
  | Huge nat page_table_entry
  | Leaf page_table_entry

fun walk :: "qmem \<Rightarrow> phys_addr \<Rightarrow> usize list \<Rightarrow> walk_end" where
  "walk m t [] = Missing"
| "walk m t (i # is) =
     (if \<not> low_table t then Unreachable
      else if \<not> is_present (entry_at m t i) then Missing
      else if is = [] then Leaf (entry_at m t i)
      else if is_huge (entry_at m t i) then Huge (length is) (entry_at m t i)
      else walk m (entry_addr (entry_at m t i)) is)"

fun table_at :: "qmem \<Rightarrow> phys_addr \<Rightarrow> usize list \<Rightarrow> phys_addr option" where
  "table_at m t [] = Some t"
| "table_at m t (i # is) =
     (if low_table t \<and> is_present (entry_at m t i) \<and> \<not> is_huge (entry_at m t i)
      then table_at m (entry_addr (entry_at m t i)) is else None)"

fun tables_missing :: "qmem \<Rightarrow> phys_addr \<Rightarrow> usize list \<Rightarrow> nat" where
  "tables_missing m t [] = 0"
| "tables_missing m t (i # is) =
     (if \<not> low_table t then 0
      else if \<not> is_present (entry_at m t i) then Suc (length is)
      else if is_huge (entry_at m t i) then 0
      else tables_missing m (entry_addr (entry_at m t i)) is)"

definition indices :: "virt_addr \<Rightarrow> usize list" where
  "indices v = [pml4_index v, pdpt_index v, pd_index v, pt_index v]"

definition valid_path :: "usize list \<Rightarrow> bool" where
  "valid_path p \<longleftrightarrow> (\<forall>i \<in> set p. unat i < 512)"

lemma valid_path_simps [simp]:
  "valid_path []" "valid_path (i # p) \<longleftrightarrow> unat i < 512 \<and> valid_path p"
  "valid_path (p @ q) \<longleftrightarrow> valid_path p \<and> valid_path q"
  by (auto simp: valid_path_def)

lemma valid_path_take [simp]: "valid_path p \<Longrightarrow> valid_path (take k p)"
  by (auto simp: valid_path_def dest: in_set_takeD)

lemma indices_simps [simp]: "valid_path (indices v)" "length (indices v) = 4"
  by (simp_all add: indices_def)

lemma indices_eq_iff: "indices v = indices w \<longleftrightarrow> page_path v = page_path w"
  by (simp add: indices_def page_path_def)

lemma walk_append:
  "table_at m t p = Some u \<Longrightarrow> q \<noteq> [] \<Longrightarrow> walk m t (p @ q) = walk m u q"
  by (induction p arbitrary: t) (auto split: if_splits)

lemma table_at_append:
  "table_at m t (p @ q) = (case table_at m t p of None \<Rightarrow> None | Some u \<Rightarrow> table_at m u q)"
  by (induction p arbitrary: t) auto

lemma table_at_aligned:
  "table_at m t p = Some u \<Longrightarrow> is_frame_aligned t \<Longrightarrow> is_frame_aligned u"
  using entry_addr_holds
  by (induction p arbitrary: t) (auto simp: entry_holds_def split: if_splits)

text \<open>A walk depends only on the slots it reads.\<close>

lemma walk_cong:
  assumes "\<And>k u. k < length q \<Longrightarrow> table_at m t (take k q) = Some u \<Longrightarrow> low_table u \<Longrightarrow>
      entry_at m' u (q ! k) = entry_at m u (q ! k)"
  shows "walk m' t q = walk m t q" and "table_at m' t q = table_at m t q"
  using assms
proof (induction q arbitrary: t)
  case (Cons i q)
  {
    case 1
    have e: "entry_at m' t i = entry_at m t i" if "low_table t" using 1 [of 0 t] that by simp
    have "walk m' (entry_addr (entry_at m t i)) q = walk m (entry_addr (entry_at m t i)) q"
      if "low_table t" "is_present (entry_at m t i)" "\<not> is_huge (entry_at m t i)"
      using 1 [of "Suc k" for k] that by (intro Cons.IH(1)) simp
    with e show ?case by auto
  next
    case 2
    have e: "entry_at m' t i = entry_at m t i" if "low_table t" using 2 [of 0 t] that by simp
    have "table_at m' (entry_addr (entry_at m t i)) q = table_at m (entry_addr (entry_at m t i)) q"
      if "low_table t" "is_present (entry_at m t i)" "\<not> is_huge (entry_at m t i)"
      using 2 [of "Suc k" for k] that by (intro Cons.IH(2)) simp
    with e show ?case by auto
  }
qed simp_all

text \<open>Slots of distinct tables, or distinct indices of one, are distinct addresses.\<close>

lemma low_table_unat: "low_table t \<longleftrightarrow> unat (phys_as_u64 t) < 2 ^ 32"
  by (simp add: low_table_def IDENTITY_MAP_LIMIT_def word_less_nat_alt)

lemma unat_slot:
  assumes "low_table t" and "unat i < 512"
  shows "unat (ptr_add (phys_as_u64 t) i) = unat (phys_as_u64 t) + 8 * unat i"
proof -
  have "unat (8 * i) = 8 * unat i" using assms(2) by (simp add: unat_mult_no_wrap)
  then show ?thesis using assms by (simp add: ptr_add_def low_table_unat unat_add_no_wrap)
qed

lemma slot_eq_iff:
  assumes "low_table t" "is_frame_aligned t" "unat i < 512"
    and "low_table u" "is_frame_aligned u" "unat j < 512"
  shows "ptr_add (phys_as_u64 t) i = ptr_add (phys_as_u64 u) j \<longleftrightarrow> t = u \<and> i = j"
proof
  assume "ptr_add (phys_as_u64 t) i = ptr_add (phys_as_u64 u) j"
  then have eq: "unat (phys_as_u64 t) + 8 * unat i = unat (phys_as_u64 u) + 8 * unat j"
    using unat_slot assms by metis
  obtain k l where kl: "unat (phys_as_u64 t) = 4096 * k" "unat (phys_as_u64 u) = 4096 * l"
    using assms(2,5) by (auto simp: is_frame_aligned_iff elim!: dvdE)
  then have "k = l" using eq assms(3,6) by simp
  then show "t = u \<and> i = j"
    using eq kl by (auto simp: word_unat_eq_iff intro: phys_addr.expand)
qed simp

section \<open>The table tree\<close>

text \<open>
  The tables form a tree: no two paths of at most three indices lead to the same reachable
  table, and no entry of the root has the page-size bit, which the architecture reserves there.
\<close>

definition tables_ok :: "qmem \<Rightarrow> phys_addr \<Rightarrow> bool" where
  "tables_ok m root \<longleftrightarrow> is_frame_aligned root
     \<and> (\<forall>p q u. valid_path p \<and> valid_path q \<and> length p \<le> 3 \<and> length q \<le> 3 \<and> low_table u
          \<and> table_at m root p = Some u \<and> table_at m root q = Some u \<longrightarrow> p = q)
     \<and> (\<forall>i. unat i < 512 \<longrightarrow> \<not> is_huge (entry_at m root i))"

lemma tables_okD:
  assumes "tables_ok m root"
  shows "is_frame_aligned root"
    and "valid_path p \<Longrightarrow> valid_path q \<Longrightarrow> length p \<le> 3 \<Longrightarrow> length q \<le> 3 \<Longrightarrow> low_table u \<Longrightarrow>
      table_at m root p = Some u \<Longrightarrow> table_at m root q = Some u \<Longrightarrow> p = q"
    and "unat i < 512 \<Longrightarrow> \<not> is_huge (entry_at m root i)"
  using assms unfolding tables_ok_def by blast+

definition set_slot :: "qmem \<Rightarrow> phys_addr \<Rightarrow> usize \<Rightarrow> page_table_entry \<Rightarrow> qmem" where
  "set_slot m t i e = m(ptr_add (phys_as_u64 t) i := entry_bits e)"

lemma entry_at_set_slot:
  assumes "low_table t" "is_frame_aligned t" "unat i < 512"
    and "low_table u" "is_frame_aligned u" "unat j < 512"
  shows "entry_at (set_slot m t i e) u j = (if u = t \<and> j = i then e else entry_at m u j)"
  using slot_eq_iff [OF assms(4,5,6,1,2,3)] by (auto simp: entry_at_def set_slot_def)

text \<open>Writing a slot of the table at \<open>p\<close> changes only the paths through that slot.\<close>

lemma walk_set_slot_other:
  assumes ok: "tables_ok m root" and t: "table_at m root p = Some t" "low_table t"
    and p: "valid_path p" "length p \<le> 3" "unat i < 512"
    and q: "valid_path q" "length q \<le> 4" and other: "\<And>r. q \<noteq> p @ i # r"
  shows "walk (set_slot m t i e) root q = walk m root q"
    and "table_at (set_slot m t i e) root q = table_at m root q"
proof -
  have root: "is_frame_aligned root" by (rule tables_okD(1) [OF ok])
  have "entry_at (set_slot m t i e) u (q ! k) = entry_at m u (q ! k)"
    if k: "k < length q" and u: "table_at m root (take k q) = Some u" "low_table u" for k u
  proof -
    have "unat (q ! k) < 512" using k q(1) by (auto simp: valid_path_def)
    moreover have "\<not> (u = t \<and> q ! k = i)"
    proof
      assume *: "u = t \<and> q ! k = i"
      then have "take k q = p"
        using tables_okD(2) [OF ok _ p(1) _ p(2) t(2)] t(1) u k q by simp
      then have "q = p @ i # drop (Suc k) q"
        using * k by (metis append_take_drop_id Cons_nth_drop_Suc)
      then show False using other by blast
    qed
    ultimately show ?thesis
      using entry_at_set_slot [OF t(2) table_at_aligned [OF t(1) root] p(3) u(2)
          table_at_aligned [OF u(1) root]] by auto
  qed
  then show "walk (set_slot m t i e) root q = walk m root q"
    and "table_at (set_slot m t i e) root q = table_at m root q"
    by (intro walk_cong; simp)+
qed

lemma table_at_set_slot_self:
  assumes ok: "tables_ok m root" and t: "table_at m root p = Some t" "low_table t"
    and p: "valid_path p" "length p \<le> 3" "unat i < 512"
  shows "table_at (set_slot m t i e) root p = Some t"
    and "entry_at (set_slot m t i e) t i = e"
proof -
  show "table_at (set_slot m t i e) root p = Some t"
    by (rule trans [OF walk_set_slot_other(2) [OF ok t p p(1)] t(1)]) (use p(2) in auto)
  have "is_frame_aligned t" using table_at_aligned [OF t(1) tables_okD(1) [OF ok]] .
  then show "entry_at (set_slot m t i e) t i = e"
    using entry_at_set_slot [OF t(2) _ p(3) t(2) _ p(3)] by simp
qed
section \<open>Writing a leaf\<close>

lemma table_at_low: "table_at m t p = Some u \<Longrightarrow> p \<noteq> [] \<Longrightarrow> low_table t"
  by (cases p) (auto split: if_splits)

lemma tables_okI:
  assumes "is_frame_aligned root"
    and "\<And>p q u. valid_path p \<Longrightarrow> valid_path q \<Longrightarrow> length p \<le> 3 \<Longrightarrow> length q \<le> 3 \<Longrightarrow> low_table u \<Longrightarrow>
      table_at m root p = Some u \<Longrightarrow> table_at m root q = Some u \<Longrightarrow> p = q"
    and "\<And>i. unat i < 512 \<Longrightarrow> \<not> is_huge (entry_at m root i)"
  shows "tables_ok m root"
  unfolding tables_ok_def using assms by blast

lemma tables_ok_set_leaf:
  assumes ok: "tables_ok m root" and t: "table_at m root p = Some t" "low_table t"
    and p: "valid_path p" "length p = 3" "unat i < 512"
  shows "tables_ok (set_slot m t i e) root"
    and "\<And>q. valid_path q \<Longrightarrow> length q \<le> 3 \<Longrightarrow> table_at (set_slot m t i e) root q = table_at m root q"
proof -
  have p3: "length p \<le> 3" "p \<noteq> []" using p(2) by auto
  show same: "table_at (set_slot m t i e) root q = table_at m root q"
    if "valid_path q" "length q \<le> 3" for q
    using that p(2) by (intro walk_set_slot_other(2) [OF ok t p(1) p3(1) p(3)]) auto
  have root: "is_frame_aligned root" "low_table root"
    using tables_okD(1) [OF ok] table_at_low [OF t(1) p3(2)] by simp_all
  have "t \<noteq> root"
    using tables_okD(2) [OF ok p(1) _ p3(1), of "[]" root] t p3(2) by auto
  then have "\<not> is_huge (entry_at (set_slot m t i e) root j)" if "unat j < 512" for j
    using tables_okD(3) [OF ok that]
      entry_at_set_slot [OF t(2) table_at_aligned [OF t(1) root(1)] p(3) root(2,1) that] by simp
  then show "tables_ok (set_slot m t i e) root"
    using root(1) same tables_okD(2) [OF ok] by (intro tables_okI) simp_all
qed

lemma walk_set_leaf:
  assumes ok: "tables_ok m root" and t: "table_at m root p = Some t" "low_table t"
    and p: "valid_path p" "length p = 3" "unat i < 512" and q: "valid_path q" "length q = 4"
  shows "walk (set_slot m t i e) root q =
    (if q = p @ [i] then if is_present e then Leaf e else Missing else walk m root q)"
proof (cases "q = p @ [i]")
  case True
  have "table_at (set_slot m t i e) root p = Some t" "entry_at (set_slot m t i e) t i = e"
    using table_at_set_slot_self [OF ok t p(1) _ p(3)] p(2) by simp_all
  then show ?thesis using True t(2) walk_append [of "set_slot m t i e" root p t "[i]"] by simp
next
  case False
  then have "q \<noteq> p @ i # r" for r using p(2) q(2) by (cases r) auto
  then show ?thesis
    using walk_set_slot_other(1) [OF ok t p(1) _ p(3) q(1)] p(2) q(2) False by simp
qed

section \<open>Creating a table\<close>

definition zero_page :: "qmem \<Rightarrow> u64 \<Rightarrow> qmem" where
  "zero_page m ptr = (\<lambda>x. if \<exists>i < 512. x = ptr_add ptr (of_nat i) then 0 else m x)"

lemma mem_zero_table: "zero_table c ptr = c\<lparr>mem := zero_page (mem c) ptr\<rparr>"
proof -
  define f :: "usize \<Rightarrow> cpu \<Rightarrow> cpu" where "f = (\<lambda>i c. c\<lparr>mem := (mem c)(ptr_add ptr i := 0)\<rparr>)"
  define z where "z n = (\<lambda>x. if \<exists>i < n. x = ptr_add ptr (of_nat i) then 0 else mem c x)" for n
  have z: "z (Suc n) = (z n)(ptr_add ptr (of_nat n) := 0)" for n
    by (auto simp: z_def fun_eq_iff less_Suc_eq)
  have "fold f (map of_nat [0..<n]) c = c\<lparr>mem := z n\<rparr>" for n
  proof (induction n)
    case (Suc n)
    have "fold f (map of_nat [0..<Suc n]) c = f (of_nat n) (fold f (map of_nat [0..<n]) c)" by simp
    also have "\<dots> = c\<lparr>mem := z (Suc n)\<rparr>" unfolding Suc.IH z by (simp add: f_def)
    finally show ?case .
  qed (simp add: z_def)
  then have "zero_table c ptr = c\<lparr>mem := z 512\<rparr>" by (simp only: zero_table_def f_def)
  then show ?thesis by (simp only: z_def zero_page_def)
qed

lemma entry_at_zero_page:
  assumes "low_table n" "is_frame_aligned n" "low_table u" "is_frame_aligned u" "unat j < 512"
  shows "entry_at (zero_page m (phys_as_u64 n)) u j = (if u = n then PageTableEntry 0 else entry_at m u j)"
proof -
  have "ptr_add (phys_as_u64 u) j = ptr_add (phys_as_u64 n) (of_nat i) \<longleftrightarrow> u = n \<and> j = of_nat i"
    if "i < 512" for i :: nat
    using slot_eq_iff [OF assms(3,4,5,1,2)] that by simp
  moreover have "\<exists>i < 512. j = of_nat i" using assms(5) by (intro exI [of _ "unat j"]) simp
  ultimately show ?thesis by (auto simp: entry_at_def zero_page_def)
qed

definition with_table :: "qmem \<Rightarrow> phys_addr \<Rightarrow> usize \<Rightarrow> phys_addr \<Rightarrow> qmem" where
  "with_table m t i n = set_slot (zero_page m (phys_as_u64 n)) t i (new_table_pointer n)"

lemma new_table_pointer_not_huge [simp]: "\<not> is_huge (new_table_pointer p)"
  by (simp only: raw_has_flag_def FLAG_PAGE_SIZE_def and_one_bit bit_new_table_pointer) simp

definition fresh_table :: "qmem \<Rightarrow> phys_addr \<Rightarrow> phys_addr \<Rightarrow> bool" where
  "fresh_table m root n \<longleftrightarrow> entry_holds n \<and> low_table n
     \<and> (\<forall>p. valid_path p \<and> length p \<le> 3 \<longrightarrow> table_at m root p \<noteq> Some n)"

lemma zero_page_fresh:
  assumes ok: "tables_ok m root" and n: "fresh_table m root n" and q: "valid_path q" "length q \<le> 4"
  shows "walk (zero_page m (phys_as_u64 n)) root q = walk m root q"
    and "table_at (zero_page m (phys_as_u64 n)) root q = table_at m root q"
proof -
  have "entry_at (zero_page m (phys_as_u64 n)) u (q ! k) = entry_at m u (q ! k)"
    if k: "k < length q" and u: "table_at m root (take k q) = Some u" "low_table u" for k u
  proof -
    have "u \<noteq> n"
      using u(1) k q n valid_path_take [OF q(1), of k] by (auto simp: fresh_table_def)
    moreover have "unat (q ! k) < 512" using k q(1) by (auto simp: valid_path_def)
    ultimately show ?thesis
      using entry_at_zero_page [OF _ _ u(2) table_at_aligned [OF u(1) tables_okD(1) [OF ok]]] n
      by (simp add: fresh_table_def entry_holds_def)
  qed
  then show "walk (zero_page m (phys_as_u64 n)) root q = walk m root q"
    and "table_at (zero_page m (phys_as_u64 n)) root q = table_at m root q"
    by (intro walk_cong; simp)+
qed

lemma tables_ok_zero_page:
  assumes ok: "tables_ok m root" and low: "low_table root" and n: "fresh_table m root n"
  shows "tables_ok (zero_page m (phys_as_u64 n)) root"
proof (rule tables_okI)
  show root: "is_frame_aligned root" by (rule tables_okD(1) [OF ok])
  have "table_at m root [] \<noteq> Some n"
    using n unfolding fresh_table_def by (metis valid_path_simps(1) list.size(3) zero_le)
  then show "\<not> is_huge (entry_at (zero_page m (phys_as_u64 n)) root i)" if "unat i < 512" for i
    using entry_at_zero_page [OF _ _ low root that] tables_okD(3) [OF ok that] n
    by (simp add: fresh_table_def entry_holds_def)
qed (use zero_page_fresh(2) [OF ok n] tables_okD(2) [OF ok] in simp)

lemma with_table:
  assumes ok: "tables_ok m root" and t: "table_at m root p = Some t" "low_table t"
    and p: "valid_path p" "length p \<le> 2" "unat i < 512"
    and missing: "\<not> is_present (entry_at m t i)" and n: "fresh_table m root n"
  shows "\<And>q. valid_path q \<Longrightarrow> length q \<le> 3 \<Longrightarrow>
      table_at (with_table m t i n) root q = (if q = p @ [i] then Some n else table_at m root q)"
    and "\<And>q. valid_path q \<Longrightarrow> length q = 4 \<Longrightarrow>
      walk (with_table m t i n) root q = walk m root q"
    and "tables_ok (with_table m t i n) root"
    and "\<And>j. unat j < 512 \<Longrightarrow> \<not> is_present (entry_at (with_table m t i n) n j)"
proof -
  let ?m1 = "zero_page m (phys_as_u64 n)" and ?m2 = "with_table m t i n"
  have m2: "?m2 = set_slot ?m1 t i (new_table_pointer n)" by (simp add: with_table_def)
  have nh: "entry_holds n" "low_table n" "is_frame_aligned n"
    using n by (simp_all add: fresh_table_def entry_holds_def)
  have root: "is_frame_aligned root" by (rule tables_okD(1) [OF ok])
  have low: "low_table root" using t by (cases p) (auto split: if_splits)
  have ta: "is_frame_aligned t" by (rule table_at_aligned [OF t(1) root])
  have "t \<noteq> n" using t(1) p n by (auto simp: fresh_table_def)
  have ok1: "tables_ok ?m1 root" by (rule tables_ok_zero_page [OF ok low n])
  have t1: "table_at ?m1 root p = Some t" using zero_page_fresh(2) [OF ok n p(1)] p(2) t(1) by simp
  have p3: "length p \<le> 3" using p(2) by simp
  note self = table_at_set_slot_self [OF ok1 t1 t(2) p(1) p3 p(3), of "new_table_pointer n", folded m2]
  show entries: "\<not> is_present (entry_at ?m2 n j)" if "unat j < 512" for j
    using entry_at_set_slot [OF t(2) ta p(3) nh(2,3) that] \<open>t \<noteq> n\<close>
      entry_at_zero_page [OF nh(2,3) nh(2,3) that] by (simp add: m2)
  have other: "walk ?m2 root q = walk m root q" "table_at ?m2 root q = table_at m root q"
    if "valid_path q" "length q \<le> 4" "\<And>r. q \<noteq> p @ i # r" for q
    using walk_set_slot_other [OF ok1 t1 t(2) p(1) p3 p(3) that] zero_page_fresh [OF ok n that(1,2)]
    by (simp_all add: m2)
  have through: "table_at ?m2 root (p @ i # r) = (if r = [] then Some n else None)"
    "r \<noteq> [] \<Longrightarrow> walk ?m2 root (p @ i # r) = Missing" if "valid_path r" for r
    using that self t(2) nh entries walk_append [OF self(1), of "i # r"]
    by (cases r; simp add: table_at_append entry_addr_of_new)+
  have before: "table_at m root (p @ i # r) = None" "walk m root (p @ i # r) = Missing" for r
    using missing t walk_append [OF t(1), of "i # r"] by (simp_all add: table_at_append)
  show tabs: "table_at ?m2 root q = (if q = p @ [i] then Some n else table_at m root q)"
    if q: "valid_path q" "length q \<le> 3" for q
  proof (cases "\<exists>r. q = p @ i # r")
    case True
    then obtain r where "q = p @ i # r" by blast
    then show ?thesis using through(1) [of r] before(1) [of r] q(1) by simp
  qed (use other(2) q in auto)
  show "walk ?m2 root q = walk m root q" if q: "valid_path q" "length q = 4" for q
  proof (cases "\<exists>r. q = p @ i # r")
    case True
    then obtain r where "q = p @ i # r" by blast
    then show ?thesis using through(2) [of r] before(2) [of r] q p(2) by (cases r) auto
  qed (use other(1) q in auto)
  show "tables_ok ?m2 root"
  proof (rule tables_okI [OF root])
    show "\<not> is_huge (entry_at ?m2 root j)" if "unat j < 512" for j
      using entry_at_set_slot [OF t(2) ta p(3) low root that] tables_okD(3) [OF ok1 that]
      by (simp add: m2)
    fix q q' u
    assume "valid_path q" "valid_path q'" "length q \<le> 3" "length q' \<le> 3" "low_table u"
      "table_at ?m2 root q = Some u" "table_at ?m2 root q' = Some u"
    then show "q = q'"
      using n tables_okD(2) [OF ok, of q q' u] tabs [of q] tabs [of q']
      by (auto simp: fresh_table_def split: if_splits)
  qed
qed

section \<open>The invariant and the descent of \<open>map\<close>\<close>

definition vm_inv :: "phys_addr \<Rightarrow> qmem \<Rightarrow> frame_allocator \<Rightarrow> bool" where
  "vm_inv root m a \<longleftrightarrow> fa_inv a \<and> tables_ok m root
     \<and> (\<forall>p u. valid_path p \<and> length p \<le> 3 \<and> low_table u \<and> table_at m root p = Some u \<longrightarrow>
          unat (frame_number u) \<notin> free_frames a)"

lemma vm_invD:
  assumes "vm_inv root m a"
  shows "fa_inv a" and "tables_ok m root"
    and "valid_path p \<Longrightarrow> length p \<le> 3 \<Longrightarrow> low_table u \<Longrightarrow> table_at m root p = Some u \<Longrightarrow>
      unat (frame_number u) \<notin> free_frames a"
  using assms unfolding vm_inv_def by blast+

text \<open>The free frames a new table can come from.\<close>

definition low_free :: "frame_allocator \<Rightarrow> nat set" where
  "low_free a = {f \<in> free_frames a. f < unat (frame_number (PhysAddr IDENTITY_MAP_LIMIT))}"

lemma finite_low_free [simp]: "finite (low_free a)"
  by (simp add: low_free_def)

lemma checked_table_ptr_low:
  "checked_table_ptr t = (if low_table t then Inr (phys_as_u64 t) else Inl ())"
  by (auto simp: checked_table_ptr_def low_table_def)

lemma read_entry_at: "read_entry c (phys_as_u64 t) i = entry_at (mem c) t i"
  by (simp add: read_entry_def entry_at_def)

lemma write_entry_slot: "write_entry c (phys_as_u64 t) i e = c\<lparr>mem := set_slot (mem c) t i e\<rparr>"
  by (simp add: write_entry_def set_slot_def)

lemmas table_access = checked_table_ptr_low read_entry_at write_entry_slot entry_is_huge_page_def

lemma allocated_table:
  assumes "is_frame_aligned n"
    and "unat (frame_number n) < unat (frame_number (PhysAddr IDENTITY_MAP_LIMIT))"
  shows "low_table n" and "entry_holds n"
proof -
  have "unat (phys_as_u64 n) div 4096 < 2 ^ 20"
    using assms(2) by (simp add: unat_frame_number IDENTITY_MAP_LIMIT_def)
  then have "unat (phys_as_u64 n) < 2 ^ 32" by (simp add: div_less_iff_less_mult)
  with assms(1) show "low_table n" "entry_holds n"
    by (simp_all add: low_table_unat entry_holds_def)
qed

lemma vm_inv_fresh:
  assumes "vm_inv root m a" and "is_frame_aligned n" and "unat (frame_number n) \<in> low_free a"
  shows "fresh_table m root n"
  using assms allocated_table [OF assms(2)] vm_invD(3) [OF assms(1)]
  by (fastforce simp: fresh_table_def low_free_def)

lemma get_or_create_cases:
  assumes inv: "vm_inv root (mem c) a" and t: "table_at (mem c) root p = Some t"
    and p: "valid_path p" "length p \<le> 2" "unat i < 512"
  obtains (unreachable) "\<not> low_table t"
      "get_or_create_table c a t i = Inr (Inl PageTableUnreachable, c, a)"
  | (huge) "low_table t" "is_present (entry_at (mem c) t i)" "is_huge (entry_at (mem c) t i)"
      "get_or_create_table c a t i = Inr (Inl WouldOverlapHugePage, c, a)"
  | (existing) "low_table t" "is_present (entry_at (mem c) t i)" "\<not> is_huge (entry_at (mem c) t i)"
      "get_or_create_table c a t i = Inr (Inr (entry_addr (entry_at (mem c) t i)), c, a)"
  | (full) a' where "low_table t" "\<not> is_present (entry_at (mem c) t i)" "low_free a = {}"
      "get_or_create_table c a t i = Inr (Inl OutOfFrames, c, a')"
      "fa_inv a'" "same_pool a a'" "free_frames a' = free_frames a"
  | (created) n a' where "low_table t" "\<not> is_present (entry_at (mem c) t i)"
      "get_or_create_table c a t i = Inr (Inr n, c\<lparr>mem := with_table (mem c) t i n\<rparr>, a')"
      "fresh_table (mem c) root n" "fa_inv a'" "same_pool a a'"
      "unat (frame_number n) \<in> low_free a"
      "free_frames a' = free_frames a - {unat (frame_number n)}"
proof -
  let ?e = "entry_at (mem c) t i" and ?lim = "PhysAddr IDENTITY_MAP_LIMIT"
  note fa = vm_invD(1) [OF inv]
  consider "\<not> low_table t" | "low_table t" "is_present ?e" | "low_table t" "\<not> is_present ?e" by blast
  then show thesis
  proof cases
    case 3
    show thesis
    proof (rule fa_below.alloc_cases [OF fa, of ?lim], goal_cases none some)
      case (none a')
      then show thesis
        using full [of a'] 3 allocate_below_returns(3) [OF fa none(1)]
        by (simp add: get_or_create_table_def table_access low_free_def)
    next
      case (some n a')
      then have n: "low_table n" "unat (frame_number n) \<in> low_free a"
        using allocated_table [of n] by (simp_all add: low_free_def)
      have "get_or_create_table c a t i = Inr (Inr n, c\<lparr>mem := with_table (mem c) t i n\<rparr>, a')"
        using 3 some(1) n by (simp add: get_or_create_table_def table_access Let_def
            mem_zero_table with_table_def)
      then show thesis
        using created [of n a'] 3 some n vm_inv_fresh [OF inv some(3) n(2)]
          allocate_below_returns(3) [OF fa some(1)] by simp
    qed
  qed (use unreachable huge existing in \<open>auto simp: get_or_create_table_def table_access\<close>)
qed

text \<open>What a call that only creates tables keeps: every walk, and every table already there.\<close>

definition same_walks :: "phys_addr \<Rightarrow> qmem \<Rightarrow> qmem \<Rightarrow> bool" where
  "same_walks root m m' \<longleftrightarrow> (\<forall>q. valid_path q \<and> length q = 4 \<longrightarrow> walk m' root q = walk m root q)"

text \<open>Where the tables come from: they were there before, or lie in one of the frames \<open>R\<close>.\<close>

definition tables_from :: "phys_addr \<Rightarrow> qmem \<Rightarrow> nat set \<Rightarrow> qmem \<Rightarrow> bool" where
  "tables_from root m R m' \<longleftrightarrow> (\<forall>p u. valid_path p \<and> length p \<le> 3 \<and> table_at m' root p = Some u \<longrightarrow>
     table_at m root p = Some u \<or> unat (frame_number u) \<in> R)"

lemma tables_from_refl [simp]: "tables_from root m R m"
  by (simp add: tables_from_def)

lemma tables_from_trans:
  "tables_from root m R m' \<Longrightarrow> tables_from root m' S m'' \<Longrightarrow> R \<union> S \<subseteq> T \<Longrightarrow> tables_from root m T m''"
  unfolding tables_from_def by blast

definition grown :: "phys_addr \<Rightarrow> cpu \<times> frame_allocator \<Rightarrow> cpu \<times> frame_allocator \<Rightarrow> bool" where
  "grown root s s' \<longleftrightarrow> vm_inv root (mem (fst s')) (snd s') \<and> fst s' = fst s\<lparr>mem := mem (fst s')\<rparr>
     \<and> same_walks root (mem (fst s)) (mem (fst s')) \<and> same_pool (snd s) (snd s')
     \<and> free_frames (snd s') \<subseteq> free_frames (snd s)
     \<and> free_frames (snd s) - free_frames (snd s') \<subseteq> low_free (snd s)
     \<and> tables_from root (mem (fst s)) (free_frames (snd s) - free_frames (snd s')) (mem (fst s'))"

lemma grown_refl: "vm_inv root (mem c) a \<Longrightarrow> grown root (c, a) (c, a)"
  by (simp add: grown_def same_walks_def)

lemma grown_trans:
  assumes "grown root s s'" and "grown root s' s''"
  shows "grown root s s''"
proof -
  have "low_free (snd s') \<subseteq> low_free (snd s)" using assms(1) by (auto simp: grown_def low_free_def)
  then have "free_frames (snd s) - free_frames (snd s'') \<subseteq> low_free (snd s)"
    using assms by (auto simp: grown_def)
  moreover have "fst s'' = fst s\<lparr>mem := mem (fst s'')\<rparr>"
    using assms unfolding grown_def by (metis cpu.update_convs(1) cpu.surjective)
  moreover have "tables_from root (mem (fst s)) (free_frames (snd s) - free_frames (snd s'')) (mem (fst s''))"
  proof (rule tables_from_trans)
    show "tables_from root (mem (fst s)) (free_frames (snd s) - free_frames (snd s')) (mem (fst s'))"
      "tables_from root (mem (fst s')) (free_frames (snd s') - free_frames (snd s'')) (mem (fst s''))"
      using assms by (simp_all add: grown_def)
    show "(free_frames (snd s) - free_frames (snd s')) \<union> (free_frames (snd s') - free_frames (snd s''))
        \<subseteq> free_frames (snd s) - free_frames (snd s'')"
      using assms by (auto simp: grown_def)
  qed
  ultimately show ?thesis
    using assms by (auto simp: grown_def same_walks_def intro: same_pool_trans)
qed

lemma grown_created:
  assumes inv: "vm_inv root (mem c) a" and t: "table_at (mem c) root p = Some t" "low_table t"
    and p: "valid_path p" "length p \<le> 2" "unat i < 512"
    and missing: "\<not> is_present (entry_at (mem c) t i)" and n: "fresh_table (mem c) root n"
    and a': "fa_inv a'" "same_pool a a'" "unat (frame_number n) \<in> low_free a"
      "free_frames a' = free_frames a - {unat (frame_number n)}"
  shows "grown root (c, a) (c\<lparr>mem := with_table (mem c) t i n\<rparr>, a')"
proof -
  note w = with_table [OF vm_invD(2) [OF inv] t p missing n]
  have "unat (frame_number u) \<notin> free_frames a'"
    if u: "valid_path q" "length q \<le> 3" "low_table u" "table_at (with_table (mem c) t i n) root q = Some u"
    for q u
  proof (cases "q = p @ [i]")
    case True
    then show ?thesis using u w(1) [OF u(1,2)] a'(4) by simp
  next
    case False
    then have "table_at (mem c) root q = Some u" using u(4) w(1) [OF u(1,2)] by simp
    then show ?thesis using vm_invD(3) [OF inv u(1,2,3)] a'(4) by simp
  qed
  then have "vm_inv root (with_table (mem c) t i n) a'"
    unfolding vm_inv_def using a'(1) w(3) by blast
  moreover have "tables_from root (mem c) (free_frames a - free_frames a') (with_table (mem c) t i n)"
    using w(1) a'(3,4) by (auto simp: tables_from_def low_free_def split: if_splits)
  ultimately show ?thesis using a' w(2) by (auto simp: grown_def same_walks_def)
qed

text \<open>The three calls of \<open>map\<close> that descend to the table of leaves, as one recursion.\<close>

fun descend :: "cpu \<Rightarrow> frame_allocator \<Rightarrow> phys_addr \<Rightarrow> usize list \<Rightarrow> (map_error, phys_addr) vm_result" where
  "descend c a t [] = Inr (Inr t, c, a)"
| "descend c a t (i # is) = bindS (get_or_create_table c a t i) (\<lambda>u c a. descend c a u is)"

lemma bindS_simps [simp]:
  "bindS (Inr (Inl e, c, a)) f = Inr (Inl e, c, a)"
  "bindS (Inr (Inr x, c, a)) f = f x c a"
  by (simp_all add: bindS_def)

definition descend_error :: "qmem \<Rightarrow> phys_addr \<Rightarrow> usize list \<Rightarrow> nat \<Rightarrow> map_error \<Rightarrow> bool" where
  "descend_error m t is frames e \<longleftrightarrow> (\<forall>j. unat j < 512 \<longrightarrow> (case e of
       PageTableUnreachable \<Rightarrow> walk m t (is @ [j]) = Unreachable
     | WouldOverlapHugePage \<Rightarrow> (\<exists>n x. walk m t (is @ [j]) = Huge n x)
     | OutOfFrames \<Rightarrow> walk m t (is @ [j]) = Missing \<and> frames < tables_missing m t is
     | _ \<Rightarrow> False))"

lemma descend_error_step:
  assumes "low_table t" and "is_present (entry_at m t i)" and "\<not> is_huge (entry_at m t i)"
  shows "descend_error m t (i # is) k e \<longleftrightarrow> descend_error m (entry_addr (entry_at m t i)) is k e"
  using assms by (cases e) (simp_all add: descend_error_def)

lemma descend_error_empty:
  assumes "low_table t" and "\<not> is_present (entry_at m t i)"
    and "\<And>j. unat j < 512 \<Longrightarrow> walk m' u (is @ [j]) = Missing" and "tables_missing m' u is = length is"
    and "descend_error m' u is k e"
  shows "descend_error m t (i # is) (Suc k) e"
  using assms by (auto simp: descend_error_def split: map_error.splits)

lemma descend_spec:
  assumes "vm_inv root (mem c) a" and "table_at (mem c) root p = Some t"
    and "valid_path (p @ is)" and "length p + length is = 3"
  shows "\<exists>r c' a'. descend c a t is = Inr (r, c', a') \<and> grown root (c, a) (c', a')
    \<and> (case r of
         Inr u \<Rightarrow> table_at (mem c') root (p @ is) = Some u
           \<and> card (low_free a') + tables_missing (mem c) t is = card (low_free a)
       | Inl e \<Rightarrow> descend_error (mem c) t is (card (low_free a)) e)"
  using assms
proof (induction "is" arbitrary: c a t p)
  case Nil
  then show ?case by (simp add: grown_refl)
next
  case (Cons i "is")
  note inv = Cons.prems(1) and t = Cons.prems(2)
  have p: "valid_path p" "length p \<le> 2" "unat i < 512" "valid_path is" using Cons.prems(3,4) by simp_all
  show ?case
  proof (rule get_or_create_cases [OF inv t p(1-3)], goal_cases unreachable huge existing full created)
    case unreachable
    then show ?case using grown_refl [OF inv] by (simp add: descend_error_def)
  next
    case huge
    then show ?case using grown_refl [OF inv] by (simp add: descend_error_def)
  next
    case existing
    let ?u = "entry_addr (entry_at (mem c) t i)"
    have "table_at (mem c) root (p @ [i]) = Some ?u" using existing t by (simp add: table_at_append)
    from Cons.IH [OF inv this] Cons.prems(3,4)
    obtain r c' a' where IH: "descend c a ?u is = Inr (r, c', a')" "grown root (c, a) (c', a')"
      "case r of Inr x \<Rightarrow> table_at (mem c') root ((p @ [i]) @ is) = Some x
           \<and> card (low_free a') + tables_missing (mem c) ?u is = card (low_free a)
       | Inl e \<Rightarrow> descend_error (mem c) ?u is (card (low_free a)) e" by auto
    then show ?case
      using existing by (cases r) (simp_all add: descend_error_step)
  next
    case (full a')
    have "grown root (c, a) (c, a')"
      using full inv by (auto simp: grown_def same_walks_def vm_inv_def)
    then show ?case using full by (simp add: descend_error_def)
  next
    case (created n a')
    let ?c = "c\<lparr>mem := with_table (mem c) t i n\<rparr>"
    note w = with_table [OF vm_invD(2) [OF inv] t created(1) p(1-3) created(2,4)]
    have g: "grown root (c, a) (?c, a')"
      by (rule grown_created [OF inv t created(1) p(1-3) created(2,4-8)])
    then have inv': "vm_inv root (mem ?c) a'" by (simp add: grown_def)
    have low: "low_table n" using created(4) by (simp add: fresh_table_def)
    have n: "table_at (mem ?c) root (p @ [i]) = Some n"
      using w(1) [of "p @ [i]"] p by simp
    have empty: "tables_missing (mem ?c) n is = length is"
      "\<And>j. unat j < 512 \<Longrightarrow> walk (mem ?c) n (is @ [j]) = Missing"
      using w(4) low p(4) by (cases "is"; simp)+
    have "low_free a' = low_free a - {unat (frame_number n)}"
      using created(8) by (auto simp: low_free_def)
    then have card: "card (low_free a) = Suc (card (low_free a'))"
      using created(7) by (metis card.remove finite_low_free)
    obtain r c' a'' where IH: "descend ?c a' n is = Inr (r, c', a'')" "grown root (?c, a') (c', a'')"
      "case r of Inr u \<Rightarrow> table_at (mem c') root ((p @ [i]) @ is) = Some u
           \<and> card (low_free a'') + length is = card (low_free a')
       | Inl e \<Rightarrow> descend_error (mem ?c) n is (card (low_free a')) e"
      using Cons.IH [OF inv' n, unfolded empty(1)] Cons.prems(3,4) by auto
    show ?case
    proof (intro exI conjI)
      show "descend c a t (i # is) = Inr (r, c', a'')" using IH(1) created(3) by simp
      show "grown root (c, a) (c', a'')" by (rule grown_trans [OF g IH(2)])
      show "case r of Inr u \<Rightarrow> table_at (mem c') root (p @ i # is) = Some u
           \<and> card (low_free a'') + tables_missing (mem c) t (i # is) = card (low_free a)
         | Inl e \<Rightarrow> descend_error (mem c) t (i # is) (card (low_free a)) e"
        using IH(3) created(1,2) card descend_error_empty [OF created(1,2) empty(2,1)]
        by (auto split: sum.splits)
    qed
  qed
qed

section \<open>The operations in terms of the walk\<close>

lemma case_checked_table_ptr [simp]:
  "(case checked_table_ptr t of Inl _ \<Rightarrow> x | Inr ptr \<Rightarrow> f ptr) = (if low_table t then f (phys_as_u64 t) else x)"
  by (simp add: checked_table_ptr_low)

definition resolve :: "walk_end \<Rightarrow> virt_addr \<Rightarrow> phys_addr option" where
  "resolve w virt = (case w of
       Leaf e \<Rightarrow> Some (PhysAddr (phys_as_u64 (entry_addr e) OR page_offset virt))
     | Huge n e \<Rightarrow>
         (if n = 2 then Some (PhysAddr ((phys_as_u64 (entry_addr e) AND NOT 0x3FFFFFFF)
            OR (virt_as_u64 virt AND 0x3FFFFFFF)))
          else Some (PhysAddr ((phys_as_u64 (entry_addr e) AND NOT 0x1FFFFF)
            OR (virt_as_u64 virt AND 0x1FFFFF))))
     | _ \<Rightarrow> None)"

lemma resolve_simps [simp]:
  "resolve Unreachable virt = None" "resolve Missing virt = None"
  by (simp_all add: resolve_def)

lemma translate_walk:
  assumes "tables_ok (mem c) (pml4_phys v)"
  shows "translate v c virt = resolve (walk (mem c) (pml4_phys v) (indices virt)) virt"
  using tables_okD(3) [OF assms, of "pml4_index virt"]
  by (simp add: translate_def indices_def read_entry_at Let_def if_distrib [of "\<lambda>w. resolve w virt"])
    (simp add: resolve_def)

lemma flags_at_walk:
  assumes "tables_ok (mem c) (pml4_phys v)"
  shows "flags_at v c virt = (case walk (mem c) (pml4_phys v) (indices virt) of
      Leaf e \<Rightarrow> Some \<lparr>writable = is_writable e, no_execute = is_no_execute e\<rparr> | _ \<Rightarrow> None)"
  using tables_okD(3) [OF assms, of "pml4_index virt"]
  by (simp add: flags_at_def indices_def read_entry_at Let_def split: if_split)

lemma walk_Leaf:
  "walk m t (p @ [i]) = Leaf e \<Longrightarrow>
    \<exists>u. table_at m t p = Some u \<and> low_table u \<and> entry_at m u i = e \<and> is_present e"
  by (induction p arbitrary: t) (auto split: if_splits)

definition table_path :: "virt_addr \<Rightarrow> usize list" where
  "table_path v = [pml4_index v, pdpt_index v, pd_index v]"

lemma table_path_simps [simp]:
  "valid_path (table_path v)" "length (table_path v) = 3" "table_path v @ [pt_index v] = indices v"
  by (simp_all add: table_path_def indices_def)

lemma unmap_walk:
  assumes "tables_ok (mem c) (pml4_phys v)"
  shows "vmm_unmap v c virt =
    (if \<not> is_page_aligned virt then (Inl UnmapNotPageAligned, c)
     else case walk (mem c) (pml4_phys v) (indices virt) of
       Unreachable \<Rightarrow> (Inl UnmapPageTableUnreachable, c)
     | Missing \<Rightarrow> (Inl NotMapped, c)
     | Huge n e \<Rightarrow> (Inl IsHugePage, c)
     | Leaf e \<Rightarrow> (Inr (entry_addr e), invlpg (c\<lparr>mem := set_slot (mem c)
         (the (table_at (mem c) (pml4_phys v) (table_path virt))) (pt_index virt) cleared\<rparr>) (virt_as_u64 virt)))"
  using tables_okD(3) [OF assms, of "pml4_index virt"]
  by (simp add: vmm_unmap_def indices_def table_path_def read_entry_at write_entry_slot Let_def)

lemma map_descend:
  "vmm_map v c a virt phys flags =
    (if \<not> is_page_aligned virt \<or> \<not> is_frame_aligned phys then Inr (Inl NotPageAligned, c, a)
     else bindS (descend c a (pml4_phys v) (table_path virt)) (\<lambda>pt c a.
       if low_table pt then
         if is_present (entry_at (mem c) pt (pt_index virt)) then Inr (Inl AlreadyMapped, c, a)
         else Inr (Inr (), invlpg (c\<lparr>mem := set_slot (mem c) pt (pt_index virt) (new_leaf phys flags)\<rparr>)
           (virt_as_u64 virt), a)
       else Inr (Inl PageTableUnreachable, c, a)))"
proof -
  have assoc: "bindS (bindS m f) g = bindS m (\<lambda>x c a. bindS (f x c a) g)"
    for m :: "(map_error, phys_addr) vm_result"
      and f :: "phys_addr \<Rightarrow> cpu \<Rightarrow> frame_allocator \<Rightarrow> (map_error, phys_addr) vm_result"
      and g :: "phys_addr \<Rightarrow> cpu \<Rightarrow> frame_allocator \<Rightarrow> (map_error, unit) vm_result"
    by (auto simp: bindS_def bindE_def split: sum.splits)
  show ?thesis
    by (simp add: vmm_map_def table_path_def assoc read_entry_at write_entry_slot Let_def cong: if_cong)
qed

section \<open>\<open>map\<close> and \<open>unmap\<close>\<close>

definition walks_updated :: "phys_addr \<Rightarrow> qmem \<Rightarrow> qmem \<Rightarrow> usize list \<Rightarrow> walk_end \<Rightarrow> bool" where
  "walks_updated root m m' p w \<longleftrightarrow>
     (\<forall>q. valid_path q \<and> length q = 4 \<longrightarrow> walk m' root q = (if q = p then w else walk m root q))"

lemma vm_inv_set_leaf:
  assumes inv: "vm_inv root m a" and t: "table_at m root (table_path virt) = Some t" "low_table t"
  shows "vm_inv root (set_slot m t (pt_index virt) e) a"
    and "walks_updated root m (set_slot m t (pt_index virt) e) (indices virt)
      (if is_present e then Leaf e else Missing)"
    and "tables_from root m R (set_slot m t (pt_index virt) e)"
proof -
  note ok = vm_invD(2) [OF inv]
  have p: "valid_path (table_path virt)" "length (table_path virt) = 3" "unat (pt_index virt) < 512"
    by simp_all
  show "vm_inv root (set_slot m t (pt_index virt) e) a"
    unfolding vm_inv_def using vm_invD [OF inv] tables_ok_set_leaf [OF ok t p] by metis
  show "walks_updated root m (set_slot m t (pt_index virt) e) (indices virt)
      (if is_present e then Leaf e else Missing)"
    using walk_set_leaf [OF ok t p] by (simp add: walks_updated_def)
  show "tables_from root m R (set_slot m t (pt_index virt) e)"
    by (auto simp: tables_from_def tables_ok_set_leaf(2) [OF ok t p])
qed

lemma invlpg_simps [simp]:
  "mem (invlpg c x) = mem c" "cr3 (invlpg c x) = cr3 c" "efer (invlpg c x) = efer c"
  by (simp_all add: invlpg_def)

text \<open>Why \<open>map\<close> refuses a request, in terms of the walk before the call.\<close>

definition map_refused :: "phys_addr \<Rightarrow> qmem \<Rightarrow> frame_allocator \<Rightarrow> virt_addr \<Rightarrow> phys_addr \<Rightarrow> map_error \<Rightarrow> bool"
where
  "map_refused root m a virt phys e \<longleftrightarrow> (case e of
       NotPageAligned \<Rightarrow> \<not> (is_page_aligned virt \<and> is_frame_aligned phys)
     | AlreadyMapped \<Rightarrow> is_page_aligned virt \<and> is_frame_aligned phys
         \<and> (\<exists>x. walk m root (indices virt) = Leaf x)
     | WouldOverlapHugePage \<Rightarrow> is_page_aligned virt \<and> is_frame_aligned phys
         \<and> (\<exists>n x. walk m root (indices virt) = Huge n x)
     | PageTableUnreachable \<Rightarrow> is_page_aligned virt \<and> is_frame_aligned phys
         \<and> walk m root (indices virt) = Unreachable
     | OutOfFrames \<Rightarrow> is_page_aligned virt \<and> is_frame_aligned phys
         \<and> walk m root (indices virt) = Missing
         \<and> card (low_free a) < tables_missing m root (table_path virt))"

lemma descend_error_refused:
  assumes "descend_error m root (table_path virt) (card (low_free a)) e"
    and "is_page_aligned virt" and "is_frame_aligned phys"
  shows "map_refused root m a virt phys e"
proof -
  have "unat (pt_index virt) < 512" by simp
  with assms show ?thesis
    unfolding descend_error_def map_refused_def
    by (auto split: map_error.splits simp del: index_bounds dest!: spec [of _ "pt_index virt"])
qed

lemma map_spec:
  assumes inv: "vm_inv (pml4_phys v) (mem c) a"
  obtains (refused) e c' a' where
      "vmm_map v c a virt phys flags = Inr (Inl e, c', a')" "grown (pml4_phys v) (c, a) (c', a')"
      "map_refused (pml4_phys v) (mem c) a virt phys e" "e = NotPageAligned \<Longrightarrow> c' = c \<and> a' = a"
  | (mapped) c1 c' a' where
      "vmm_map v c a virt phys flags = Inr (Inr (), c', a')" "grown (pml4_phys v) (c, a) (c1, a')"
      "vm_inv (pml4_phys v) (mem c') a'"
      "c' = invlpg (c\<lparr>mem := mem c'\<rparr>) (virt_as_u64 virt)"
      "is_page_aligned virt" "is_frame_aligned phys"
      "walk (mem c) (pml4_phys v) (indices virt) = Missing"
      "walks_updated (pml4_phys v) (mem c) (mem c') (indices virt) (Leaf (new_leaf phys flags))"
      "card (low_free a') + tables_missing (mem c) (pml4_phys v) (table_path virt) = card (low_free a)"
      "tables_from (pml4_phys v) (mem c) (free_frames a - free_frames a') (mem c')"
proof (cases "is_page_aligned virt \<and> is_frame_aligned phys")
  case False
  then show thesis
    using refused [of NotPageAligned c a] grown_refl [OF inv]
    by (simp add: map_descend map_refused_def)
next
  case True
  let ?root = "pml4_phys v" and ?p = "table_path virt" and ?i = "pt_index virt"
  obtain r c1 a' where d: "descend c a ?root ?p = Inr (r, c1, a')" "grown ?root (c, a) (c1, a')"
    "case r of Inr u \<Rightarrow> table_at (mem c1) ?root ([] @ ?p) = Some u
        \<and> card (low_free a') + tables_missing (mem c) ?root ?p = card (low_free a)
     | Inl e \<Rightarrow> descend_error (mem c) ?root ?p (card (low_free a)) e"
    using descend_spec [OF inv, of "[]" ?root ?p] by auto
  have inv1: "vm_inv ?root (mem c1) a'" and c1: "c1 = c\<lparr>mem := mem c1\<rparr>"
    and same: "walk (mem c1) ?root (indices virt) = walk (mem c) ?root (indices virt)"
    using d(2) by (simp_all add: grown_def same_walks_def)
  show thesis
  proof (cases r)
    case (Inl e)
    then have "map_refused ?root (mem c) a virt phys e"
      using d(3) True by (simp add: descend_error_refused)
    moreover have "e \<noteq> NotPageAligned" using calculation True by (auto simp: map_refused_def)
    ultimately show thesis
      using refused [of e c1 a'] True Inl d(1,2) by (simp add: map_descend)
  next
    case (Inr pt)
    have pt: "table_at (mem c1) ?root ?p = Some pt" using Inr d(3) by simp
    have w: "walk (mem c) ?root (indices virt) = walk (mem c1) pt [?i]"
      using same walk_append [OF pt, of "[?i]"] by simp
    consider "\<not> low_table pt" | "low_table pt" "is_present (entry_at (mem c1) pt ?i)"
      | "low_table pt" "\<not> is_present (entry_at (mem c1) pt ?i)" by blast
    then show thesis
    proof cases
      case 3
      let ?c' = "invlpg (c1\<lparr>mem := set_slot (mem c1) pt ?i (new_leaf phys flags)\<rparr>) (virt_as_u64 virt)"
      note leaf = vm_inv_set_leaf [OF inv1 pt 3(1), where e = "new_leaf phys flags"]
      have "walks_updated ?root (mem c) (mem ?c') (indices virt) (Leaf (new_leaf phys flags))"
        using leaf(2) d(2) by (simp add: walks_updated_def grown_def same_walks_def)
      moreover have "?c' = invlpg (c\<lparr>mem := mem ?c'\<rparr>) (virt_as_u64 virt)"
        by (subst c1) simp
      moreover have "tables_from ?root (mem c) (free_frames a - free_frames a')
          (set_slot (mem c1) pt ?i (new_leaf phys flags))"
      proof -
        have "tables_from ?root (mem c) (free_frames a - free_frames a') (mem c1)"
          using d(2) by (simp add: grown_def)
        then show ?thesis by (rule tables_from_trans [OF _ leaf(3) [where R = "{}"]]) simp
      qed
      ultimately show thesis
        using mapped [of ?c' a' c1] 3 True Inr d leaf(1) w by (simp add: map_descend)
    qed (use refused [of _ c1 a'] True Inr d(1,2) w in \<open>simp_all add: map_descend map_refused_def\<close>)
  qed
qed

end
