(* ===== verification/Frame_Allocator_Props.thy ===== *)
theory Frame_Allocator_Props
  imports Frame_Allocator
begin

unbundle bit_operations_syntax

text \<open>
  What the frame allocator guarantees: the outcome of \<open>FrameAllocator::init\<close> on every memory
  map, errors included, the bytes it reads, each operation as a set operation on the free
  frames, and the partition of the frames over any sequence of calls. A concrete memory map
  and the allocator \<open>init\<close> builds from it are evaluated and instantiate the properties.
\<close>

section \<open>When initialisation is refused\<close>










lemma checked_mul_claim:
  "(case checked_mul c d of None \<Rightarrow> x | Some s \<Rightarrow> if sz < s then x else y)
    = (if unat sz < unat c * unat (d :: u64) then x else y)"
proof (cases "unat c * unat d < 18446744073709551616")
  case True
  then show ?thesis by (simp add: checked_mul_def unat_mult_no_wrap word_less_nat_alt)
next
  case False
  then have "unat sz < unat c * unat d" using unat_lt64 [of sz] by linarith
  then show ?thesis using False by (simp add: checked_mul_def)
qed


section \<open>A concrete map\<close>

text \<open>A map of one descriptor of 48 bytes: 16 conventional pages from \<open>0x1000\<close>.\<close>

definition example_boot_info :: boot_info where
  "example_boot_info = \<lparr>magic = BOOTINFO_MAGIC, version = 1, struct_size_bytes = 96,
     memory_map_phys_addr = 0x5000, memory_map_size_bytes = 48, memory_map_descriptor_size = 48,
     memory_map_descriptor_version = 1, memory_map_entry_count = 1, kernel_physical_base = 0,
     kernel_virtual_base = 0, kernel_size_bytes = 0, kernel_stack_top = 0, kernel_stack_size_bytes = 0\<rparr>"

definition example_map :: byte_mem where
  "example_map a = (if a = 0x5000 then 7 else if a = 0x5009 then 0x10 else if a = 0x5018 then 16 else 0)"

definition example_fa :: frame_allocator where
  "example_fa = \<lparr>bitmap_ptr = 0x1000, bitmap = [3, 0, 254], total_frames = 17, frames_free = 15, next_hint = 0\<rparr>"

lemma example_boot_info_fields:
  "memory_map_phys_addr example_boot_info = 0x5000"
  "memory_map_size_bytes example_boot_info = 48"
  "memory_map_descriptor_size example_boot_info = 48"
  "memory_map_entry_count example_boot_info = 1"
  by (simp_all add: example_boot_info_def)

lemma example_entries:
  "memory_map_entries example_map example_boot_info
    = [\<lparr>entry_typ = 7, physical_start = PhysAddr 0x1000, number_of_pages = 16\<rparr>]"
  by (simp add: memory_map_entries_eq example_boot_info_fields read_entry_at_def read_unaligned_u32_def
      read_unaligned_u64_def read_bytes_def example_map_def upt_rec)

lemmas init_eval = fa_init_def Let_def checked_mul_def checked_add_def end_addr_def is_frame_aligned_def
  FRAME_SIZE_def div_ceil_def MAX_BITMAP_BYTES_def EFI_CONVENTIONAL_MEMORY_def IDENTITY_MAP_LIMIT_def
  frame_number_def all_used_allocator_def saturating_add_def

lemmas bitmap_eval = free_range.simps reserve_range.simps mark_free_def mark_used_def is_free_def
  slice_get_def slice_set_def Let_def

lemma example_lists:
  "replicate 3 (x :: u8) = [x, x, x]" "[x, y, z :: u8][2 := v] = [x, y, v]"
  by (simp_all add: numeral_3_eq_3 numeral_2_eq_2)

lemma example_init: "fa_init example_map example_boot_info = Inr (Inr example_fa)"
  by (simp add: init_eval example_entries example_boot_info_fields, simp add: bitmap_eval)
    (simp add: word_le_nat_alt example_lists example_fa_def)

lemma example_bits:
  "bit (254 :: u8) k \<longleftrightarrow> k < 8 \<and> k \<noteq> 0" "bit (3 :: u8) k \<longleftrightarrow> k < 2"
proof -
  have "(254 :: u8) = NOT 1" "(3 :: u8) = mask 2" by (simp_all add: mask_eq_exp_minus_1)
  then show "bit (254 :: u8) k \<longleftrightarrow> k < 8 \<and> k \<noteq> 0" "bit (3 :: u8) k \<longleftrightarrow> k < 2"
    by (auto simp only: bit_not_iff bit_1_iff bit_mask_iff) auto
qed

lemma example_free: "free_frames example_fa = {2..<17}"
proof -
  have "frame_used example_fa f \<longleftrightarrow> f < 2" if "f < 17" for f
  proof -
    consider "f < 8" | "8 \<le> f" "f < 16" | "f = 16" using \<open>f < 17\<close> by linarith
    then show ?thesis
    proof cases
      case 1
      then have "frame_used example_fa f \<longleftrightarrow> bit (3 :: u8) f"
        by (simp add: frame_used_def example_fa_def)
      then show ?thesis by (simp only: example_bits)
    next
      case 2
      then have "f div 8 = 1" by simp
      then show ?thesis using 2 by (simp add: frame_used_def example_fa_def)
    qed (simp_all add: frame_used_def example_fa_def example_bits)
  qed
  then show ?thesis by (auto simp: free_frames_def) (simp_all add: example_fa_def)
qed

lemma example_inv: "fa_inv example_fa"
  by (rule fa_init_spec(1) [OF example_init])

lemma example_next: "map_option frame_addr (next_frame example_fa) = Some (PhysAddr 0x2000)"
proof -
  have "next_frame example_fa = Some 2"
    by (simp add: next_fit_def example_free) (simp add: example_fa_def upt_rec)
  then show ?thesis by (simp add: frame_addr_def from_frame_number_def FRAME_SIZE_def)
qed

lemma next_frame_Some:
  assumes "fa_inv a" and "next_frame a = Some f"
  shows "f \<in> free_frames a"
  using next_fit_Some [OF assms(2)] by simp

lemma next_frame_None:
  assumes "fa_inv a"
  shows "next_frame a = None \<longleftrightarrow> free_frames a = {}"
  using next_fit_None [OF _ free_frames_tracked] next_frame_Some [OF assms] by fastforce

lemma frame_addr_below:
  assumes "fa_inv a" and "f \<in> free_frames a" and "f < unat (frame_number limit)"
  shows "unat (phys_as_u64 (frame_addr f)) < unat (phys_as_u64 limit)"
proof -
  have "f * 4096 < unat (frame_number limit) * 4096" using assms(3) by simp
  also have "\<dots> \<le> unat (phys_as_u64 limit)" by (simp add: unat_frame_number)
  finally show ?thesis using frame_addr_free(3) [OF assms(1,2)] by simp
qed


lemma fa_init_entries_cong:
  assumes eq: "memory_map_entries m bi = memory_map_entries m' bi'"
    and claim: "unat (memory_map_size_bytes bi)
        < unat (memory_map_entry_count bi) * unat (memory_map_descriptor_size bi)
      \<longleftrightarrow> unat (memory_map_size_bytes bi')
        < unat (memory_map_entry_count bi') * unat (memory_map_descriptor_size bi')"
  shows "fa_init m bi = fa_init m' bi'"
  unfolding fa_init_def Let_def checked_mul_claim eq claim by (rule refl)

text \<open>The bytes of the buffer the boot information describes.\<close>

definition map_buffer :: "boot_info \<Rightarrow> u64 set" where
  "map_buffer bi = {memory_map_phys_addr bi + of_nat i | i. i < unat (memory_map_size_bytes bi)}"

definition agree_on :: "u64 set \<Rightarrow> byte_mem \<Rightarrow> byte_mem \<Rightarrow> bool" where
  "agree_on S m m' \<longleftrightarrow> (\<forall>q \<in> S. m q = m' q)"

lemma read_bytes_agree:
  assumes "\<And>i. i < n \<Longrightarrow> m (p + of_nat i) = m' (p + of_nat i)"
  shows "read_bytes m p n = read_bytes m' p n"
  using assms by (simp add: read_bytes_def)

lemma read_entry_agree:
  assumes "\<And>i. i < 32 \<Longrightarrow> m (p + of_nat i) = m' (p + of_nat i)"
  shows "read_entry_at m p = read_entry_at m' p"
proof -
  have "read_bytes m p 4 = read_bytes m' p 4"
    using assms by (intro read_bytes_agree) simp
  moreover have "read_bytes m (p + of_nat k) 8 = read_bytes m' (p + of_nat k) 8" if "k \<le> 24" for k
    using assms that by (intro read_bytes_agree) (simp add: add.assoc flip: of_nat_add)
  from this [of 8] this [of 24]
  have "read_bytes m (p + 8) 8 = read_bytes m' (p + 8) 8"
    "read_bytes m (p + 24) 8 = read_bytes m' (p + 24) 8" by simp_all
  ultimately show ?thesis
    by (simp add: read_entry_at_def read_unaligned_u32_def read_unaligned_u64_def)
qed

lemma memory_map_entries_agree:
  assumes agree: "agree_on (map_buffer bi) m m'"
    and size: "32 \<le> memory_map_descriptor_size bi"
    and claim: "unat (memory_map_entry_count bi) * unat (memory_map_descriptor_size bi)
      \<le> unat (memory_map_size_bytes bi)"
  shows "memory_map_entries m bi = memory_map_entries m' bi"
  unfolding memory_map_entries_eq
proof (intro map_cong refl read_entry_agree)
  fix k i
  assume "k \<in> set [0..<unat (memory_map_entry_count bi)]" and i: "i < (32 :: nat)"
  then have "Suc k \<le> unat (memory_map_entry_count bi)" by simp
  then have "Suc k * unat (memory_map_descriptor_size bi)
      \<le> unat (memory_map_entry_count bi) * unat (memory_map_descriptor_size bi)"
    by (rule mult_le_mono1)
  then have "k * unat (memory_map_descriptor_size bi) + i < unat (memory_map_size_bytes bi)"
    using claim i size by (simp add: word_le_nat_alt)
  then show "m (memory_map_phys_addr bi + of_nat k * memory_map_descriptor_size bi + of_nat i)
      = m' (memory_map_phys_addr bi + of_nat k * memory_map_descriptor_size bi + of_nat i)"
    by (intro agree [unfolded agree_on_def, rule_format]) (auto simp: map_buffer_def add.assoc intro!: exI [of _ "k * unat (memory_map_descriptor_size bi) + i"])
qed

section \<open>Properties\<close>

text \<open>C1. A successful \<open>init\<close> builds an allocator that satisfies its invariant, whose free frames
  are exactly the frames of the usable conventional entries minus the frames that hold the
  bitmap, and whose bitmap lies inside one usable entry below the identity-map limit.\<close>

theorem fa_init_correct:
  assumes "fa_init m bi = Inr (Inr a)"
  shows "fa_inv a
    \<and> free_frames a = (\<Union>e \<in> {e \<in> set (memory_map_entries m bi). usable_entry e}. entry_frames e)
        - bitmap_frames a
    \<and> (\<exists>e \<in> set (memory_map_entries m bi). usable_entry e
        \<and> bitmap_ptr a = phys_as_u64 (physical_start e)
        \<and> unat (bitmap_ptr a) + length (bitmap a) \<le> unat (the (end_addr e))
        \<and> the (end_addr e) \<le> IDENTITY_MAP_LIMIT)"
  using fa_init_spec [OF assms] by simp

theorem fa_init_correct_witness: "fa_inv example_fa \<and> bitmap_ptr example_fa = 0x1000"
  using fa_init_correct [OF example_init] by (simp add: example_fa_def)


text \<open>C4. \<open>allocate\<close> never panics and is the next-fit search of the reference definition: it
  returns the first free frame in cyclic order from the hint, marks exactly that frame used, and
  returns nothing only when no tracked frame is free. The free count follows.\<close>

theorem allocate_next_fit:
  assumes "fa_inv a"
  shows "\<exists>a'. allocate a = Inr (map_option frame_addr (next_frame a), a')
    \<and> fa_inv a' \<and> same_pool a a'
    \<and> free_frames a' = free_frames a - set_option (next_frame a)
    \<and> (next_frame a = None \<longleftrightarrow> free_frames a = {})
    \<and> unat (frames_free a') = unat (frames_free a) - 1"
proof -
  obtain a' where a': "allocate a = Inr (map_option frame_addr (next_frame a), a')" "fa_inv a'"
    "same_pool a a'" "free_frames a' = free_frames a - set_option (next_frame a)"
    by (rule allocate_spec [OF assms])
  have none: "next_frame a = None \<longleftrightarrow> free_frames a = {}"
    using next_frame_None [OF assms] .
  moreover have "card (free_frames a') = card (free_frames a) - 1"
    using a'(4) none next_frame_Some [OF assms]
    by (cases "next_frame a") (auto simp: card_Diff_singleton)
  ultimately show ?thesis using a' assms by (auto simp: fa_inv_def)
qed

theorem allocate_next_fit_witness:
  "fa_inv example_fa \<and> (\<exists>a'. allocate example_fa = Inr (Some (PhysAddr 0x2000), a') \<and> fa_inv a')"
  using allocate_next_fit [OF example_inv] example_inv example_next by auto

text \<open>C5. \<open>allocate_below\<close> never panics and returns the lowest free frame whose address is below
  the limit, marking exactly that frame used; it returns nothing only when there is none.\<close>

theorem allocate_below_first_fit:
  assumes "fa_inv a"
  shows "\<exists>a'. allocate_below a limit = Inr (map_option frame_addr (first_frame a limit), a')
    \<and> fa_inv a' \<and> same_pool a a'
    \<and> free_frames a' = free_frames a - set_option (first_frame a limit)
    \<and> (first_frame a limit = None \<longleftrightarrow> (\<forall>f \<in> free_frames a. unat (frame_number limit) \<le> f))
    \<and> (\<forall>f \<in> set_option (first_frame a limit). f \<in> free_frames a
        \<and> unat (phys_as_u64 (frame_addr f)) < unat (phys_as_u64 limit)
        \<and> (\<forall>g \<in> free_frames a. f \<le> g))"
proof -
  obtain a' where a': "allocate_below a limit = Inr (map_option frame_addr (first_frame a limit), a')"
    "fa_inv a'" "same_pool a a'" "free_frames a' = free_frames a - set_option (first_frame a limit)"
    by (rule allocate_below_spec [OF assms])
  have none: "first_frame a limit = None \<longleftrightarrow> (\<forall>f \<in> free_frames a. unat (frame_number limit) \<le> f)"
    using free_frames_tracked [of a] by (fastforce simp: first_fit_None not_less)
  have some: "f \<in> free_frames a \<and> unat (phys_as_u64 (frame_addr f)) < unat (phys_as_u64 limit)
      \<and> (\<forall>g \<in> free_frames a. f \<le> g)" if f: "first_frame a limit = Some f" for f
    using first_fit_Some [OF f] first_fit_least [OF f] frame_addr_below [OF assms, of f limit] by auto
  have some': "\<forall>f \<in> set_option (first_frame a limit). f \<in> free_frames a
      \<and> unat (phys_as_u64 (frame_addr f)) < unat (phys_as_u64 limit) \<and> (\<forall>g \<in> free_frames a. f \<le> g)"
    by (intro ballI some) (simp only: elem_set)
  show ?thesis by (intro exI [of _ a'] conjI a' none some')
qed

theorem allocate_below_first_fit_witness:
  "fa_inv example_fa \<and> (\<exists>a'. allocate_below example_fa (PhysAddr 0x3000) = Inr (Some (PhysAddr 0x2000), a'))"
proof -
  have "first_frame example_fa (PhysAddr 0x3000) = Some 2"
    by (simp add: first_fit_def example_free)
      (simp add: example_fa_def frame_number_def FRAME_SIZE_def upt_rec)
  then show ?thesis
    using allocate_below_first_fit [OF example_inv, of "PhysAddr 0x3000"] example_inv
    by (auto simp: frame_addr_def from_frame_number_def FRAME_SIZE_def)
qed

text \<open>C6. \<open>deallocate\<close> never panics: an untracked frame is refused as out of range, a free one as
  a double free, both without a change; any other frame becomes free again, nothing else moves,
  and the free count grows by one.\<close>

theorem deallocate_correct:
  assumes "fa_inv a"
  shows "(unat (total_frames a) \<le> unat (frame_number p) \<longrightarrow> deallocate a p = Inr (Inl OutOfRange, a))
    \<and> (unat (frame_number p) \<in> free_frames a \<longrightarrow> deallocate a p = Inr (Inl DoubleFree, a))
    \<and> (unat (frame_number p) < unat (total_frames a) \<and> unat (frame_number p) \<notin> free_frames a \<longrightarrow>
        (\<exists>a'. deallocate a p = Inr (Inr (), a') \<and> fa_inv a' \<and> same_pool a a'
          \<and> free_frames a' = insert (unat (frame_number p)) (free_frames a)
          \<and> unat (frames_free a') = unat (frames_free a) + 1))"
proof (intro conjI impI)
  assume "unat (frame_number p) < unat (total_frames a) \<and> unat (frame_number p) \<notin> free_frames a"
  then have p: "unat (frame_number p) < unat (total_frames a)" "unat (frame_number p) \<notin> free_frames a"
    by simp_all
  obtain a' where a': "deallocate a p = Inr (Inr (), a')" "fa_inv a'" "same_pool a a'"
    "free_frames a' = insert (unat (frame_number p)) (free_frames a)"
    by (rule deallocate_Ok [OF assms p])
  moreover have "unat (frames_free a') = unat (frames_free a) + 1"
    using a'(2,4) p(2) assms by (simp add: fa_inv_def)
  ultimately show "\<exists>a'. deallocate a p = Inr (Inr (), a') \<and> fa_inv a' \<and> same_pool a a'
          \<and> free_frames a' = insert (unat (frame_number p)) (free_frames a)
          \<and> unat (frames_free a') = unat (frames_free a) + 1" by blast
qed (simp_all add: fa.dealloc_range [OF assms] fa.dealloc_double [OF assms])

theorem deallocate_correct_witness:
  "fa_inv example_fa \<and> deallocate example_fa (PhysAddr 0x2000) = Inr (Inl DoubleFree, example_fa)"
  using deallocate_correct [OF example_inv, of "PhysAddr 0x2000"] example_inv example_free
  by (simp add: frame_number_def FRAME_SIZE_def)



text \<open>C8. With descriptors of at least 32 bytes, \<open>init\<close> depends only on the bytes of the map buffer:
  two memories that agree on it give the same result, so the iterator reads nothing outside it.\<close>

theorem fa_init_reads_map_only:
  assumes "agree_on (map_buffer bi) m m'" and "32 \<le> memory_map_descriptor_size bi"
  shows "fa_init m bi = fa_init m' bi"
proof (cases "unat (memory_map_size_bytes bi)
    < unat (memory_map_entry_count bi) * unat (memory_map_descriptor_size bi)")
  case True
  then show ?thesis by (simp add: fa_init_def Let_def checked_mul_claim)
next
  case False
  then have "memory_map_entries m bi = memory_map_entries m' bi"
    by (intro memory_map_entries_agree [OF assms]) simp
  then show ?thesis by (rule fa_init_entries_cong) (rule refl)
qed

theorem fa_init_reads_map_only_witness:
  "fa_init (example_map(0 := 1)) example_boot_info = fa_init example_map example_boot_info"
proof (rule fa_init_reads_map_only, unfold agree_on_def, rule ballI)
  fix q assume "q \<in> map_buffer example_boot_info"
  then have "q \<noteq> 0"
    by (auto simp: map_buffer_def example_boot_info_fields word_unat_eq_iff unat_add_no_wrap)
  then show "(example_map(0 := 1)) q = example_map q" by simp
qed (simp add: example_boot_info_fields)

end
