(* ===== verification/Vmm_Props.thy ===== *)
theory Vmm_Props
  imports Vmm Frame_Allocator_Props
begin

unbundle bit_operations_syntax

text \<open>
  What the virtual memory manager guarantees: the outcome of \<open>map\<close> and \<open>unmap\<close> in every case
  and their effect on all translations, the interface \<open>address_space\<close> with its interpretation
  on them, cached translations, huge pages and the registers set by \<open>init\<close>. The concrete
  machines at the end of the library part instantiate the properties.
\<close>

section \<open>Translations\<close>

lemma resolve_new_leaf:
  assumes "entry_holds phys"
  shows "resolve (Leaf (new_leaf phys flags)) w = Some (PhysAddr (phys_as_u64 phys + page_offset w))"
proof -
  have "phys_as_u64 phys OR page_offset w = phys_as_u64 phys + page_offset w"
    using assms by (intro or_offset_add [of _ 12]) (simp_all add: entry_holds_def is_frame_aligned_iff)
  then show ?thesis by (simp add: resolve_def entry_addr_of_new [OF assms])
qed

lemma translate_updated:
  assumes "vm_inv (pml4_phys v) (mem c) a" and "vm_inv (pml4_phys v) (mem c') a'"
    and "walks_updated (pml4_phys v) (mem c) (mem c') (indices virt) x"
  shows "translate v c' w = (if page_path w = page_path virt then resolve x w else translate v c w)"
  using assms(3) translate_walk [OF vm_invD(2) [OF assms(1)]] translate_walk [OF vm_invD(2) [OF assms(2)]]
  by (simp add: walks_updated_def indices_eq_iff)

lemma translate_same:
  assumes "vm_inv (pml4_phys v) (mem c) a" and "grown (pml4_phys v) (c, a) (c', a')"
  shows "translate v c' w = translate v c w"
proof -
  have "vm_inv (pml4_phys v) (mem c') a'" "same_walks (pml4_phys v) (mem c) (mem c')"
    using assms(2) by (simp_all add: grown_def)
  then show ?thesis
    using translate_walk [OF vm_invD(2) [OF assms(1)]] translate_walk [OF vm_invD(2), of v c' a']
    by (simp add: same_walks_def)
qed

text \<open>Why \<open>unmap\<close> refuses a request.\<close>

definition unmap_refused :: "phys_addr \<Rightarrow> qmem \<Rightarrow> virt_addr \<Rightarrow> unmap_error \<Rightarrow> bool" where
  "unmap_refused root m virt e \<longleftrightarrow> (case e of
       UnmapNotPageAligned \<Rightarrow> \<not> is_page_aligned virt
     | NotMapped \<Rightarrow> is_page_aligned virt \<and> walk m root (indices virt) = Missing
     | UnmapPageTableUnreachable \<Rightarrow> is_page_aligned virt \<and> walk m root (indices virt) = Unreachable
     | IsHugePage \<Rightarrow> is_page_aligned virt \<and> (\<exists>n x. walk m root (indices virt) = Huge n x))"

lemma unmap_spec:
  assumes inv: "vm_inv (pml4_phys v) (mem c) a"
  obtains (refused) e where "vmm_unmap v c virt = (Inl e, c)" "unmap_refused (pml4_phys v) (mem c) virt e"
  | (unmapped) e c' where "vmm_unmap v c virt = (Inr (entry_addr e), c')" "is_page_aligned virt"
      "walk (mem c) (pml4_phys v) (indices virt) = Leaf e"
      "c' = invlpg (c\<lparr>mem := mem c'\<rparr>) (virt_as_u64 virt)" "vm_inv (pml4_phys v) (mem c') a"
      "walks_updated (pml4_phys v) (mem c) (mem c') (indices virt) Missing"
      "tables_from (pml4_phys v) (mem c) {} (mem c')"
proof (cases "\<exists>e. is_page_aligned virt \<and> walk (mem c) (pml4_phys v) (indices virt) = Leaf e")
  case True
  then obtain e where e: "is_page_aligned virt" "walk (mem c) (pml4_phys v) (indices virt) = Leaf e"
    by blast
  obtain t where t: "table_at (mem c) (pml4_phys v) (table_path virt) = Some t" "low_table t"
    using walk_Leaf [of "mem c" "pml4_phys v" "table_path virt" "pt_index virt"] e(2) by auto
  show thesis
    using unmapped [of e] e t vm_inv_set_leaf [OF inv t, where e = cleared]
    by (simp add: unmap_walk [OF vm_invD(2) [OF inv]])
next
  case False
  then show thesis
    using refused unmap_walk [OF vm_invD(2) [OF inv], of virt]
    by (cases "walk (mem c) (pml4_phys v) (indices virt)")
      (fastforce simp: unmap_refused_def split: if_splits)+
qed

section \<open>Cached translations\<close>

definition tlb_coherent :: "vmm \<Rightarrow> cpu \<Rightarrow> bool" where
  "tlb_coherent v c \<longleftrightarrow> (\<forall>x p. canonical x \<longrightarrow> tlb c (x div FRAME_SIZE) = Some p \<longrightarrow>
     translate v c (VirtAddr (x div FRAME_SIZE * FRAME_SIZE)) = Some p)"

lemma canonical_pages:
  assumes "canonical x" and "canonical y"
    and "unat x div 4096 mod 2 ^ 36 = unat y div 4096 mod 2 ^ 36"
  shows "x div FRAME_SIZE = y div FRAME_SIZE"
proof -
  have split: "(unat z div 4096 < 2 ^ 35 \<and> unat z div 4096 mod 2 ^ 36 = unat z div 4096)
      \<or> (2 ^ 35 \<le> unat z div 4096 mod 2 ^ 36 \<and> unat z div 4096 = unat z div 4096 mod 2 ^ 36 + (2 ^ 52 - 2 ^ 36))"
    if "canonical z" for z
  proof (cases "unat z < 2 ^ 47")
    case True
    then have "unat z div 4096 < 2 ^ 35" by (simp add: div_less_iff_less_mult)
    then show ?thesis by simp
  next
    case False
    then have "18446603336221196288 \<le> unat z" using that by (simp add: canonical_def)
    then obtain k where k0: "unat z = 18446603336221196288 + k" using le_Suc_ex by blast
    moreover have "k < 140737488355328"
      using k0 unat_lt64 [of z] by linarith
    ultimately have k: "unat z = 2 ^ 64 - 2 ^ 47 + k" "k < 2 ^ 47" by simp_all
    then have "unat z div 4096 = k div 4096 + 2 ^ 35 + (2 ^ 16 - 1) * 2 ^ 36" by simp
    moreover have "k div 4096 < 2 ^ 35" using k(2) by (simp add: div_less_iff_less_mult)
    moreover have "(k div 4096 + 2 ^ 35 + (2 ^ 16 - 1) * 2 ^ 36) mod 2 ^ 36 = (k div 4096 + 2 ^ 35) mod 2 ^ 36"
      by (rule mod_mult_self1)
    ultimately show ?thesis by simp
  qed
  have "unat x div 4096 = unat y div 4096"
    using split [OF assms(1)] split [OF assms(2)] assms(3) by linarith
  then show ?thesis by (simp add: word_unat_eq_iff unat_div FRAME_SIZE_def)
qed

lemma page_base: "unat (x div FRAME_SIZE * FRAME_SIZE) = unat x div 4096 * 4096"
proof -
  have "unat x div 4096 * 4096 \<le> unat x" by simp
  also have "unat x < 18446744073709551616" by (rule unat_lt64)
  finally show ?thesis by (simp add: unat_mult_no_wrap unat_div FRAME_SIZE_def)
qed

lemma tlb_coherent_update:
  assumes coh: "tlb_coherent v c" and inv: "vm_inv (pml4_phys v) (mem c) a" "vm_inv (pml4_phys v) (mem c') a'"
    and upd: "walks_updated (pml4_phys v) (mem c) (mem c') (indices virt) w"
    and c': "c' = invlpg (c\<lparr>mem := mem c'\<rparr>) (virt_as_u64 virt)" and can: "canonical (virt_as_u64 virt)"
  shows "tlb_coherent v c'"
  unfolding tlb_coherent_def
proof (intro allI impI)
  fix x p assume x: "canonical x" "tlb c' (x div FRAME_SIZE) = Some p"
  have tlb: "tlb c' = (tlb c)(virt_as_u64 virt div FRAME_SIZE := None)"
    using can by (subst c') (simp add: invlpg_def)
  then have ne: "x div FRAME_SIZE \<noteq> virt_as_u64 virt div FRAME_SIZE"
    and old: "tlb c (x div FRAME_SIZE) = Some p"
    using x(2) by (auto split: if_splits)
  have "page_path (VirtAddr (x div FRAME_SIZE * FRAME_SIZE)) \<noteq> page_path virt"
    using canonical_pages [OF x(1) can] ne by (auto simp: page_path_eq_iff page_base)
  then show "translate v c' (VirtAddr (x div FRAME_SIZE * FRAME_SIZE)) = Some p"
    using coh x(1) old translate_updated [OF inv upd] by (simp add: tlb_coherent_def)
qed

section \<open>The interface its clients use\<close>

text \<open>
  An address space: \<open>view\<close> gives the translation of every address, \<open>leaf\<close> the frame behind the
  4 KiB mapping of its page, if there is one. A failed call changes no translation, a
  successful one exactly those of one page.
\<close>

locale address_space =
  fixes inv :: "'s \<Rightarrow> bool"
    and view :: "'s \<Rightarrow> virt_addr \<Rightarrow> phys_addr option"
    and leaf :: "'s \<Rightarrow> virt_addr \<Rightarrow> phys_addr option"
    and map_page :: "'s \<Rightarrow> virt_addr \<Rightarrow> phys_addr \<Rightarrow> page_flags \<Rightarrow> ((map_error + unit) \<times> 's) exec"
    and unmap_page :: "'s \<Rightarrow> virt_addr \<Rightarrow> (unmap_error + phys_addr) \<times> 's"
  assumes map_total: "inv s \<Longrightarrow> \<exists>r s'. map_page s virt phys flags = Inr (r, s') \<and> inv s'"
    and map_error: "inv s \<Longrightarrow> map_page s virt phys flags = Inr (Inl e, s') \<Longrightarrow>
      view s' = view s \<and> leaf s' = leaf s"
    and map_ok: "inv s \<Longrightarrow> entry_holds phys \<Longrightarrow> map_page s virt phys flags = Inr (Inr (), s') \<Longrightarrow>
      is_page_aligned virt \<and> view s virt = None
      \<and> leaf s' = (\<lambda>w. if page_path w = page_path virt then Some phys else leaf s w)
      \<and> view s' = (\<lambda>w. if page_path w = page_path virt
          then Some (PhysAddr (phys_as_u64 phys + page_offset w)) else view s w)"
    and unmap_ok: "inv s \<Longrightarrow> is_page_aligned virt \<Longrightarrow> leaf s virt = Some phys \<Longrightarrow>
      \<exists>s'. unmap_page s virt = (Inr phys, s') \<and> inv s'
        \<and> leaf s' = (\<lambda>w. if page_path w = page_path virt then None else leaf s w)
        \<and> view s' = (\<lambda>w. if page_path w = page_path virt then None else view s w)"
    and unmap_error: "inv s \<Longrightarrow> \<not> is_page_aligned virt \<or> leaf s virt = None \<Longrightarrow>
      \<exists>e. unmap_page s virt = (Inl e, s)"
    and view_page: "inv s \<Longrightarrow> page_path w = page_path virt \<Longrightarrow> view s virt = None \<Longrightarrow>
      view s w = None \<and> leaf s w = None"
begin

lemma unmap_inv: "inv s \<Longrightarrow> inv (snd (unmap_page s virt))"
  using unmap_ok [of s virt] unmap_error [of s virt] by (cases "leaf s virt") force+

lemma map_unmap_restores:
  assumes s: "inv s" and phys: "entry_holds phys" and m: "map_page s virt phys flags = Inr (Inr (), s')"
  shows "\<exists>s''. unmap_page s' virt = (Inr phys, s'') \<and> inv s'' \<and> view s'' = view s \<and> leaf s'' = leaf s"
proof -
  note ok = map_ok [OF s phys m]
  have "inv s'" using map_total [OF s, of virt phys flags] m by auto
  then obtain s'' where s'': "unmap_page s' virt = (Inr phys, s'')" "inv s''"
    "leaf s'' = (\<lambda>w. if page_path w = page_path virt then None else leaf s' w)"
    "view s'' = (\<lambda>w. if page_path w = page_path virt then None else view s' w)"
    using unmap_ok [of s' virt phys] ok by auto
  have "view s'' = view s \<and> leaf s'' = leaf s"
    using s''(3,4) ok view_page [OF s, of _ virt] by (auto simp: fun_eq_iff)
  with s'' show ?thesis by blast
qed

end

definition leaf_frame :: "vmm \<Rightarrow> cpu \<Rightarrow> virt_addr \<Rightarrow> phys_addr option" where
  "leaf_frame v c w = (case walk (mem c) (pml4_phys v) (indices w) of
     Leaf e \<Rightarrow> Some (entry_addr e) | _ \<Rightarrow> None)"

definition vm_unmap :: "vmm \<Rightarrow> cpu \<times> frame_allocator \<Rightarrow> virt_addr \<Rightarrow>
    (unmap_error + phys_addr) \<times> cpu \<times> frame_allocator" where
  "vm_unmap v s virt = (case vmm_unmap v (fst s) virt of (r, c) \<Rightarrow> (r, c, snd s))"

abbreviation vm_state_inv :: "vmm \<Rightarrow> cpu \<times> frame_allocator \<Rightarrow> bool" where
  "vm_state_inv v s \<equiv> vm_inv (pml4_phys v) (mem (fst s)) (snd s)"

lemma leaf_frame_updated:
  "walks_updated (pml4_phys v) (mem c) (mem c') (indices virt) x \<Longrightarrow>
    leaf_frame v c' w = (if page_path w = page_path virt
      then case x of Leaf e \<Rightarrow> Some (entry_addr e) | _ \<Rightarrow> None else leaf_frame v c w)"
  by (simp add: leaf_frame_def walks_updated_def indices_eq_iff)

lemma map_grown:
  assumes "vm_state_inv v s" and "vmm_map v (fst s) (snd s) virt phys flags = Inr (Inl e, s')"
  shows "grown (pml4_phys v) s s'"
  using assms(2) by (cases rule: map_spec [OF assms(1), of virt phys flags]) auto

interpretation vm: address_space "vm_state_inv v" "\<lambda>s. translate v (fst s)" "\<lambda>s. leaf_frame v (fst s)"
    "\<lambda>s. vmm_map v (fst s) (snd s)" "vm_unmap v" for v
proof (unfold_locales, goal_cases)
  case (1 s virt phys flags)
  show ?case
    by (cases rule: map_spec [OF 1, of virt phys flags]) (auto simp: grown_def)
next
  case (2 s virt phys flags e s')
  have "grown (pml4_phys v) s s'" by (rule map_grown [OF 2])
  then show ?case
    using translate_same [OF 2(1), of "fst s'" "snd s'"]
    by (auto simp: fun_eq_iff grown_def same_walks_def leaf_frame_def)
next
  case (3 s phys virt flags s')
  then obtain c' a' where s': "s' = (c', a')" "vmm_map v (fst s) (snd s) virt phys flags = Inr (Inr (), c', a')"
    by (cases s') auto
  then show ?case
  proof (cases rule: map_spec [OF 3(1), of virt phys flags])
    case (2 c1 c'' a'')
    then show ?thesis
      using s' translate_updated [OF 3(1), of c' a'] leaf_frame_updated [of v "fst s" c' virt]
        translate_walk [OF vm_invD(2) [OF 3(1)], of virt] resolve_new_leaf [OF 3(2), of flags]
      by (auto simp: fun_eq_iff entry_addr_of_new [OF 3(2)])
  qed auto
next
  case (4 s virt phys)
  then obtain e where e: "walk (mem (fst s)) (pml4_phys v) (indices virt) = Leaf e" "entry_addr e = phys"
    by (auto simp: leaf_frame_def split: walk_end.splits)
  show ?case
  proof (cases rule: unmap_spec [OF 4(1), of virt])
    case (1 e')
    then show ?thesis using e 4(2) by (auto simp: unmap_refused_def split: unmap_error.splits)
  next
    case (2 e' c')
    then show ?thesis
      using e translate_updated [OF 4(1), of c' "snd s"] leaf_frame_updated [of v "fst s" c' virt]
      by (auto simp: vm_unmap_def fun_eq_iff)
  qed
next
  case (5 s virt)
  show ?case
  proof (cases rule: unmap_spec [OF 5(1), of virt])
    case (1 e)
    then show ?thesis by (simp add: vm_unmap_def)
  next
    case (2 e c')
    then show ?thesis using 5(2) by (simp add: leaf_frame_def)
  qed
next
  case (6 s w virt)
  then show ?case
    using translate_walk [OF vm_invD(2) [OF 6(1)]] indices_eq_iff [of w virt]
    by (auto simp: leaf_frame_def resolve_def split: walk_end.splits if_splits)
qed

section \<open>A concrete address space\<close>

text \<open>An empty root table at \<open>0x20000\<close>, and the example allocator, which does not track that frame.\<close>

definition example_vmm :: vmm where
  "example_vmm = \<lparr>pml4_phys = PhysAddr 0x20000\<rparr>"

definition example_cpu :: cpu where
  "example_cpu = \<lparr>mem = (\<lambda>_. 0), tlb = Map.empty, cr3 = 0x20000, efer = 0x500\<rparr>"

definition example_virt :: virt_addr where
  "example_virt = VirtAddr 0xFFFF880000000000"

lemma empty_entry [simp]: "entry_at (\<lambda>_. 0) t i = PageTableEntry 0"
  by (simp add: entry_at_def)

lemma zero_entry_not_huge [simp]: "\<not> is_huge (PageTableEntry 0)"
  by (simp add: raw_has_flag_def)

lemma empty_table_at: "table_at (\<lambda>_. 0) t p = Some u \<longleftrightarrow> p = [] \<and> u = t"
  by (cases p) auto

lemma example_vm_inv: "vm_inv (pml4_phys example_vmm) (mem example_cpu) example_fa"
proof -
  have "tables_ok (\<lambda>_. 0) (PhysAddr 0x20000)"
    by (rule tables_okI) (auto simp: empty_table_at is_frame_aligned_def FRAME_SIZE_def)
  moreover have "unat (frame_number (PhysAddr 0x20000)) \<notin> free_frames example_fa"
    by (simp add: example_free frame_number_def FRAME_SIZE_def)
  ultimately show ?thesis
    using example_inv by (simp add: vm_inv_def example_vmm_def example_cpu_def empty_table_at)
qed

lemma example_low_table: "low_table (PhysAddr 0x20000)"
  by (simp add: low_table_def IDENTITY_MAP_LIMIT_def)

lemma example_walk: "walk (mem example_cpu) (pml4_phys example_vmm) (indices w) = Missing"
  by (simp add: example_cpu_def example_vmm_def indices_def example_low_table)

lemma example_frames:
  "card (low_free example_fa) = 15"
  "tables_missing (mem example_cpu) (pml4_phys example_vmm) (table_path w) = 3"
proof -
  have "low_free example_fa = {2..<17}"
    by (auto simp: low_free_def example_free frame_number_def FRAME_SIZE_def IDENTITY_MAP_LIMIT_def)
  then show "card (low_free example_fa) = 15" by simp
qed (simp add: example_cpu_def example_vmm_def table_path_def example_low_table)

lemma example_aligned:
  "is_page_aligned example_virt" "is_frame_aligned (PhysAddr 0x300000)" "entry_holds (PhysAddr 0x300000)"
  by (simp_all add: is_page_aligned_def is_frame_aligned_def entry_holds_def example_virt_def FRAME_SIZE_def)

lemma example_map:
  obtains c' a' where
    "vmm_map example_vmm example_cpu example_fa example_virt (PhysAddr 0x300000) flags = Inr (Inr (), c', a')"
proof (cases rule: map_spec [OF example_vm_inv, of example_virt "PhysAddr 0x300000" flags])
  case (1 e c' a')
  then show thesis
    using example_aligned example_walk [of example_virt] example_frames(1) example_frames(2) [of example_virt]
    by (simp add: map_refused_def split: map_error.splits)
qed (rule that)

section \<open>Properties\<close>

text \<open>C13. A successful \<open>map\<close> makes exactly one page translate differently: every address of the page
  of \<open>virt\<close> now translates to the frame plus its offset, and the translation of every other
  address, huge pages included, is the one before; the page had no translation before and now has
  the requested flags, and the invariant of the tables is kept.\<close>

theorem map_correct:
  assumes "vm_inv (pml4_phys v) (mem c) a" and "entry_holds phys"
    and "vmm_map v c a virt phys flags = Inr (Inr (), c', a')"
  shows "vm_inv (pml4_phys v) (mem c') a' \<and> translate v c virt = None
    \<and> flags_at v c' virt = Some \<lparr>writable = writable flags, no_execute = no_execute flags\<rparr>
    \<and> translate v c' w = (if page_path w = page_path virt
        then Some (PhysAddr (phys_as_u64 phys + page_offset w)) else translate v c w)"
proof (cases rule: map_spec [OF assms(1), of virt phys flags])
  case (2 c1 c'' a'')
  have "vm_inv (pml4_phys v) (mem c') a'" using 2 assms(3) by simp
  moreover have "flags_at v c' virt = Some \<lparr>writable = writable flags, no_execute = no_execute flags\<rparr>"
    using 2 assms(3) flags_at_walk [OF vm_invD(2) [OF calculation], of virt] by (simp add: walks_updated_def)
  ultimately show ?thesis
    using vm.map_ok [of v "(c, a)" phys virt flags "(c', a')"] assms by simp
qed (use assms(3) in auto)

theorem map_correct_witness:
  "\<exists>c' a'. vmm_map example_vmm example_cpu example_fa example_virt (PhysAddr 0x300000) read_write = Inr (Inr (), c', a')
    \<and> translate example_vmm c' (VirtAddr 0xFFFF880000000123) = Some (PhysAddr 0x300123)"
proof -
  obtain c' a' where
    m: "vmm_map example_vmm example_cpu example_fa example_virt (PhysAddr 0x300000) read_write = Inr (Inr (), c', a')"
    by (rule example_map)
  have "page_path (VirtAddr 0xFFFF880000000123) = page_path example_virt"
    by (simp add: page_path_eq_iff example_virt_def)
  moreover have "page_offset (VirtAddr 0xFFFF880000000123) = 0x123" by (simp add: page_offset_def)
  ultimately show ?thesis
    using m map_correct [OF example_vm_inv example_aligned(3) m, of "VirtAddr 0xFFFF880000000123"] by auto
qed

text \<open>C15. \<open>map\<close> never panics and keeps the invariant. It returns each error exactly in its case: a
  misaligned argument, a page already mapped, a huge page or an unreachable table on the way, or
  fewer free frames below the identity-map limit than tables to create; on an error no
  translation changes, and in every case only frames below the limit are taken.\<close>

theorem map_outcome:
  assumes "vm_inv (pml4_phys v) (mem c) a"
  shows "\<exists>r c' a'. vmm_map v c a virt phys flags = Inr (r, c', a') \<and> vm_inv (pml4_phys v) (mem c') a'
    \<and> (\<forall>e. r = Inl e \<longleftrightarrow> map_refused (pml4_phys v) (mem c) a virt phys e)
    \<and> (isl r \<longrightarrow> translate v c' = translate v c)
    \<and> free_frames a' \<subseteq> free_frames a \<and> free_frames a - free_frames a' \<subseteq> low_free a"
proof (cases rule: map_spec [OF assms, of virt phys flags])
  case (1 e c' a')
  have "Inl e = (Inl e' :: map_error + unit) \<longleftrightarrow> map_refused (pml4_phys v) (mem c) a virt phys e'" for e'
    using 1(3) by (cases e; cases e') (auto simp: map_refused_def)
  moreover have "translate v c' = translate v c" using translate_same [OF assms 1(2)] by (rule ext)
  ultimately show ?thesis
    using 1(1,2) by (intro exI [of _ "Inl e"] exI [of _ c'] exI [of _ a']) (simp add: grown_def)
next
  case (2 c1 c' a')
  have "\<not> map_refused (pml4_phys v) (mem c) a virt phys e" for e
    using 2(5,6,7,9) by (auto simp: map_refused_def split: map_error.splits)
  then show ?thesis
    using 2(1-3) by (intro exI [of _ "Inr ()"] exI [of _ c'] exI [of _ a']) (simp add: grown_def)
qed

theorem map_outcome_witness:
  "\<exists>c' a'. vmm_map example_vmm example_cpu example_fa (VirtAddr 1) (PhysAddr 0x300000) read_write
    = Inr (Inl NotPageAligned, c', a')"
proof -
  have "map_refused (pml4_phys example_vmm) (mem example_cpu) example_fa (VirtAddr 1) (PhysAddr 0x300000) NotPageAligned"
    by (simp add: map_refused_def is_page_aligned_def FRAME_SIZE_def)
  moreover obtain r c' a' where
    "vmm_map example_vmm example_cpu example_fa (VirtAddr 1) (PhysAddr 0x300000) read_write = Inr (r, c', a')"
    "r = Inl NotPageAligned \<longleftrightarrow> map_refused (pml4_phys example_vmm) (mem example_cpu) example_fa
      (VirtAddr 1) (PhysAddr 0x300000) NotPageAligned"
    using map_outcome [OF example_vm_inv, of "VirtAddr 1" "PhysAddr 0x300000" read_write] by blast
  ultimately show ?thesis by simp
qed

text \<open>C14. \<open>unmap\<close> either refuses, exactly in the case its error names and without any change, or
  returns the frame of the 4 KiB mapping of the page and removes the translations of that page
  and of no other address; the invariant of the tables is kept.\<close>

theorem unmap_correct:
  assumes "vm_inv (pml4_phys v) (mem c) a"
  shows "\<exists>r c'. vmm_unmap v c virt = (r, c') \<and> vm_inv (pml4_phys v) (mem c') a
    \<and> (\<forall>e. r = Inl e \<longleftrightarrow> unmap_refused (pml4_phys v) (mem c) virt e) \<and> (isl r \<longrightarrow> c' = c)
    \<and> (\<forall>p. r = Inr p \<longrightarrow> leaf_frame v c virt = Some p
        \<and> (\<forall>w. translate v c' w = (if page_path w = page_path virt then None else translate v c w)))"
proof (cases rule: unmap_spec [OF assms, of virt])
  case (1 e)
  have "Inl e = (Inl e' :: unmap_error + phys_addr) \<longleftrightarrow> unmap_refused (pml4_phys v) (mem c) virt e'" for e'
    using 1(2) by (cases e; cases e') (auto simp: unmap_refused_def)
  then show ?thesis
    using 1(1) assms by (intro exI [of _ "Inl e"] exI [of _ c]) simp
next
  case (2 e c')
  have "\<not> unmap_refused (pml4_phys v) (mem c) virt e'" for e'
    using 2(2,3) by (cases e') (auto simp: unmap_refused_def)
  moreover have "leaf_frame v c virt = Some (entry_addr e)" using 2(3) by (simp add: leaf_frame_def)
  moreover have "translate v c' w = (if page_path w = page_path virt then None else translate v c w)" for w
    using translate_updated [OF assms 2(5,6)] by simp
  ultimately show ?thesis
    using 2(1,5) by (intro exI [of _ "Inr (entry_addr e)"] exI [of _ c']) simp
qed

theorem unmap_correct_witness: "fst (vmm_unmap example_vmm example_cpu example_virt) = Inl NotMapped"
proof -
  have "unmap_refused (pml4_phys example_vmm) (mem example_cpu) example_virt NotMapped"
    by (simp add: unmap_refused_def example_walk example_aligned)
  moreover obtain r c' where "vmm_unmap example_vmm example_cpu example_virt = (r, c')"
    "r = Inl NotMapped \<longleftrightarrow> unmap_refused (pml4_phys example_vmm) (mem example_cpu) example_virt NotMapped"
    using unmap_correct [OF example_vm_inv, of example_virt] by blast
  ultimately show ?thesis by simp
qed

text \<open>C16. Mapping a page and unmapping it again returns the frame that was mapped and leaves every
  translation as it was before the two calls.\<close>

theorem map_unmap_roundtrip:
  assumes "vm_inv (pml4_phys v) (mem c) a" and "entry_holds phys"
    and "vmm_map v c a virt phys flags = Inr (Inr (), c', a')"
  shows "\<exists>c''. vmm_unmap v c' virt = (Inr phys, c'') \<and> vm_inv (pml4_phys v) (mem c'') a'
    \<and> translate v c'' = translate v c"
  using vm.map_unmap_restores [of v "(c, a)" phys virt flags "(c', a')"] assms
  by (auto simp: vm_unmap_def split: prod.splits)

theorem map_unmap_roundtrip_witness:
  "\<exists>c' a' c''. vmm_map example_vmm example_cpu example_fa example_virt (PhysAddr 0x300000) read_write
      = Inr (Inr (), c', a') \<and> vmm_unmap example_vmm c' example_virt = (Inr (PhysAddr 0x300000), c'')"
proof -
  obtain c' a' where
    m: "vmm_map example_vmm example_cpu example_fa example_virt (PhysAddr 0x300000) read_write = Inr (Inr (), c', a')"
    by (rule example_map)
  show ?thesis using m map_unmap_roundtrip [OF example_vm_inv example_aligned(3) m] by blast
qed

text \<open>C17. Cached translations stay true: if every cached translation of a canonical page agrees with
  the tables, the same holds after \<open>map\<close> and after \<open>unmap\<close> of a canonical address, since each
  invalidates the one page whose entry it writes.\<close>

theorem tlb_coherent_kept:
  assumes "vm_inv (pml4_phys v) (mem c) a" and "tlb_coherent v c" and "canonical (virt_as_u64 virt)"
  shows "tlb_coherent v (snd (vmm_unmap v c virt))
    \<and> (\<forall>r c' a'. vmm_map v c a virt phys flags = Inr (r, c', a') \<longrightarrow> tlb_coherent v c')"
proof
  show "tlb_coherent v (snd (vmm_unmap v c virt))"
  proof (cases rule: unmap_spec [OF assms(1), of virt])
    case (2 e c')
    then show ?thesis using tlb_coherent_update [OF assms(2,1) 2(5,6,4) assms(3)] by simp
  qed (use assms(2) in simp)
  show "\<forall>r c' a'. vmm_map v c a virt phys flags = Inr (r, c', a') \<longrightarrow> tlb_coherent v c'"
  proof (cases rule: map_spec [OF assms(1), of virt phys flags])
    case (1 e c' a')
    have "c' = c\<lparr>mem := mem c'\<rparr>" using 1(2) by (simp add: grown_def)
    then have "tlb c' = tlb (c\<lparr>mem := mem c'\<rparr>)" by (rule arg_cong)
    then have "tlb c' = tlb c" by simp
    then have "tlb_coherent v c'"
      using assms(2) translate_same [OF assms(1) 1(2)] by (simp add: tlb_coherent_def)
    then show ?thesis using 1(1) by simp
  next
    case (2 c1 c' a')
    then show ?thesis using tlb_coherent_update [OF assms(2,1) 2(3,8,4) assms(3)] by simp
  qed
qed

theorem tlb_coherent_kept_witness:
  "tlb_coherent example_vmm example_cpu \<and> canonical (virt_as_u64 example_virt)
    \<and> tlb_coherent example_vmm (snd (vmm_unmap example_vmm example_cpu example_virt))"
proof -
  have "tlb_coherent example_vmm example_cpu" by (simp add: tlb_coherent_def example_cpu_def)
  moreover have "canonical (virt_as_u64 example_virt)" by (simp add: canonical_def example_virt_def)
  ultimately show ?thesis using tlb_coherent_kept [OF example_vm_inv] by blast
qed

text \<open>Both halves of \<open>EFER\<close> together are the register.\<close>

lemma halves: "push_bit 32 (ucast (ucast (drop_bit 32 x) :: u32)) OR ucast (ucast x :: u32) = (x :: u64)"
  by (rule bit_eqI) (auto simp: bit_simps)

lemma efer_all: "read_efer c = efer c" "write_efer c x = c\<lparr>efer := x\<rparr>"
  by (simp_all add: read_efer_def write_efer_def Let_def halves)

lemma huge_base:
  fixes x y :: u64
  shows "unat ((x AND NOT (mask k)) OR (y AND mask k)) = unat x div 2 ^ k * 2 ^ k + unat y mod 2 ^ k"
  using or_offset [of "x AND NOT (mask k)" k "y AND mask k"]
  by (simp add: unat_and_not_mask unat_and_mask)

lemma huge_base_numerals:
  fixes x y :: u64
  shows "unat ((x AND NOT 0x3FFFFFFF) OR (y AND 0x3FFFFFFF)) = unat x div 2 ^ 30 * 2 ^ 30 + unat y mod 2 ^ 30"
    and "unat ((x AND NOT 0x1FFFFF) OR (y AND 0x1FFFFF)) = unat x div 2 ^ 21 * 2 ^ 21 + unat y mod 2 ^ 21"
  using huge_base [of x 30 y] huge_base [of x 21 y] by (simp_all add: mask_eq_exp_minus_1)

text \<open>A root whose first entry leads to a table whose first entry is a 1 GiB page at \<open>0x40000000\<close>.\<close>

definition huge_cpu :: cpu where
  "huge_cpu = example_cpu\<lparr>mem := (\<lambda>_. 0)(0x20000 := 0x21003, 0x21000 := 0x40000083)\<rparr>"

lemma huge_entries:
  assumes "unat i < 512"
  shows "entry_at (mem huge_cpu) (PhysAddr 0x20000) i = PageTableEntry (if i = 0 then 0x21003 else 0)"
    and "entry_at (mem huge_cpu) (PhysAddr 0x21000) i = PageTableEntry (if i = 0 then 0x40000083 else 0)"
proof -
  have slots: "low_table (PhysAddr 0x20000)" "is_frame_aligned (PhysAddr 0x20000)"
    "low_table (PhysAddr 0x21000)" "is_frame_aligned (PhysAddr 0x21000)"
    by (simp_all add: low_table_def IDENTITY_MAP_LIMIT_def is_frame_aligned_def FRAME_SIZE_def)
  have z: "unat (0 :: usize) < 512" by simp
  show "entry_at (mem huge_cpu) (PhysAddr 0x20000) i = PageTableEntry (if i = 0 then 0x21003 else 0)"
    using slot_eq_iff [OF slots(1,2) assms slots(1,2) z] slot_eq_iff [OF slots(1,2) assms slots(3,4) z]
    by (simp add: entry_at_def huge_cpu_def ptr_add_def)
  show "entry_at (mem huge_cpu) (PhysAddr 0x21000) i = PageTableEntry (if i = 0 then 0x40000083 else 0)"
    using slot_eq_iff [OF slots(3,4) assms slots(1,2) z] slot_eq_iff [OF slots(3,4) assms slots(3,4) z]
    by (simp add: entry_at_def huge_cpu_def ptr_add_def)
qed

lemma huge_bits:
  "is_present (PageTableEntry 0x21003)" "\<not> is_huge (PageTableEntry 0x21003)"
  "entry_addr (PageTableEntry 0x21003) = PhysAddr 0x21000"
  "is_present (PageTableEntry 0x40000083)" "is_huge (PageTableEntry 0x40000083)"
  by (simp_all add: is_present_def raw_has_flag_def FLAG_PRESENT_def FLAG_PAGE_SIZE_def entry_addr_def ADDR_MASK_def)

lemma huge_table_at:
  assumes "valid_path p" and "table_at (mem huge_cpu) (PhysAddr 0x20000) p = Some u"
  shows "p = [] \<and> u = PhysAddr 0x20000 \<or> p = [0] \<and> u = PhysAddr 0x21000"
  using assms
  by (cases p; cases "tl p") (auto simp: huge_entries huge_bits split: if_splits)

lemma huge_tables: "tables_ok (mem huge_cpu) (pml4_phys example_vmm)"
  unfolding example_vmm_def vmm.simps
proof (rule tables_okI)
  fix p q u
  assume "valid_path p" "valid_path q" "table_at (mem huge_cpu) (PhysAddr 0x20000) p = Some u"
    "table_at (mem huge_cpu) (PhysAddr 0x20000) q = Some u"
  then show "p = q" using huge_table_at [of p u] huge_table_at [of q u] by auto
qed (auto simp: huge_entries huge_bits is_frame_aligned_def FRAME_SIZE_def)

lemma huge_walk:
  "walk (mem huge_cpu) (pml4_phys example_vmm) (indices (VirtAddr 0x12345678)) = Huge 2 (PageTableEntry 0x40000083)"
proof -
  have i: "pml4_index (VirtAddr 0x12345678) = 0" "pdpt_index (VirtAddr 0x12345678) = 0"
    by (simp_all add: pml4_index_def pdpt_index_def drop_bit_eq_div)
  have "low_table (PhysAddr 0x20000)" "low_table (PhysAddr 0x21000)"
    by (simp_all add: low_table_def IDENTITY_MAP_LIMIT_def)
  then show ?thesis
    by (simp add: indices_def i huge_entries huge_bits example_vmm_def)
qed

text \<open>C21. Inside a 2 MiB or a 1 GiB page, \<open>translate\<close> gives the base of the page plus the low 21 or 30
  bits of the address.\<close>

theorem translate_huge:
  assumes "tables_ok (mem c) (pml4_phys v)" and "walk (mem c) (pml4_phys v) (indices virt) = Huge n e"
  shows "\<exists>p. translate v c virt = Some p
    \<and> unat (phys_as_u64 p) = unat (phys_as_u64 (entry_addr e)) div 2 ^ (if n = 2 then 30 else 21)
        * 2 ^ (if n = 2 then 30 else 21) + unat (virt_as_u64 virt) mod 2 ^ (if n = 2 then 30 else 21)"
  using translate_walk [OF assms(1), of virt] assms(2)
    huge_base_numerals [of "phys_as_u64 (entry_addr e)" "virt_as_u64 virt"]
  by (cases "n = 2") (simp_all add: resolve_def)

theorem translate_huge_witness:
  "translate example_vmm huge_cpu (VirtAddr 0x12345678) = Some (PhysAddr 0x52345678)"
proof -
  obtain p where "translate example_vmm huge_cpu (VirtAddr 0x12345678) = Some p"
    "unat (phys_as_u64 p) = unat (phys_as_u64 (entry_addr (PageTableEntry 0x40000083))) div 2 ^ 30 * 2 ^ 30
      + 0x12345678 mod 2 ^ 30"
    using translate_huge [OF huge_tables huge_walk] by auto
  moreover have "entry_addr (PageTableEntry 0x40000083) = PhysAddr 0x40000000"
    by (simp add: entry_addr_def ADDR_MASK_def)
  ultimately show ?thesis by (auto simp: word_unat_eq_iff intro: phys_addr.expand)
qed

text \<open>\<open>init\<close> takes the root from \<open>CR3\<close> and sets the no-execute enable bit of \<open>EFER\<close>.\<close>

lemma vmm_init_correct:
  "vmm_init c = (\<lparr>pml4_phys = PhysAddr (cr3 c)\<rparr>, c\<lparr>efer := efer c OR EFER_NXE_BIT\<rparr>)"
proof -
  have "x OR EFER_NXE_BIT = x" if "x AND EFER_NXE_BIT \<noteq> 0" for x :: u64
  proof -
    have b: "bit EFER_NXE_BIT n \<longleftrightarrow> n = 11" for n
      unfolding EFER_NXE_BIT_def by (rule bit_single) simp
    have "bit x 11" using that unfolding EFER_NXE_BIT_def by (subst (asm) and_one_bit) simp_all
    then show ?thesis by (intro bit_eqI) (auto simp: bit_or_iff b)
  qed
  then show ?thesis
    by (auto simp: vmm_init_def enable_nxe_def Let_def efer_all read_cr3_def)
qed

end
