(* ===== verification/Cpu_Access.thy ===== *)
theory Cpu_Access
  imports Vmm_Props
begin

unbundle bit_operations_syntax

text \<open>
  Memory accesses of the processor through the page tables, as the volatile reads and writes of the
  kernel make them: the cached translation if there is one, the tables otherwise, and the
  translation is cached. An access that is not allowed gives the error code of its page fault.
\<close>

section \<open>Accesses\<close>

definition hw_vmm :: "cpu \<Rightarrow> vmm" where
  "hw_vmm c = \<lparr>pml4_phys = PhysAddr (cr3 c)\<rparr>"

definition hw_translate :: "cpu \<Rightarrow> u64 \<Rightarrow> phys_addr option" where
  "hw_translate c addr = (case tlb c (addr div FRAME_SIZE) of
     Some p \<Rightarrow> Some (PhysAddr (phys_as_u64 p + addr mod FRAME_SIZE))
   | None \<Rightarrow> translate (hw_vmm c) c (VirtAddr addr))"

definition fill_tlb :: "cpu \<Rightarrow> u64 \<Rightarrow> cpu" where
  "fill_tlb c addr = (if tlb c (addr div FRAME_SIZE) = None
     then c\<lparr>tlb := (tlb c)(addr div FRAME_SIZE := translate (hw_vmm c) c (VirtAddr (addr div FRAME_SIZE * FRAME_SIZE)))\<rparr>
     else c)"

definition read_only :: "cpu \<Rightarrow> u64 \<Rightarrow> bool" where
  "read_only c addr = (case flags_at (hw_vmm c) c (VirtAddr addr) of Some f \<Rightarrow> \<not> writable f | None \<Rightarrow> False)"

text \<open>The error codes: bit 0 is set if the page is present, bit 1 for a write.\<close>

definition read_volatile :: "cpu \<Rightarrow> u64 \<Rightarrow> u64 + u64 \<times> cpu" where
  "read_volatile c addr = (case hw_translate c addr of
     None \<Rightarrow> Inl 0 | Some p \<Rightarrow> Inr (mem c (phys_as_u64 p), fill_tlb c addr))"

text \<open>\<open>wp\<close> is the write-protect bit of \<open>CR0\<close>, which decides whether the kernel itself is bound by read-only pages.\<close>

definition write_volatile :: "bool \<Rightarrow> cpu \<Rightarrow> u64 \<Rightarrow> u64 \<Rightarrow> u64 + cpu" where
  "write_volatile wp c addr x = (case hw_translate c addr of
     None \<Rightarrow> Inl 0b10
   | Some p \<Rightarrow> if wp \<and> read_only c addr then Inl 0b11
       else Inr (let c = fill_tlb c addr in c\<lparr>mem := (mem c)(phys_as_u64 p := x)\<rparr>))"

section \<open>Writes outside the page tables\<close>

lemma entry_at_other_frame:
  assumes "low_table u" "is_frame_aligned u" "unat j < 512" and "unat x div 4096 \<noteq> unat (frame_number u)"
  shows "entry_at (m(x := w)) u j = entry_at m u j"
proof -
  have "unat (ptr_add (phys_as_u64 u) j) div 4096 = unat (frame_number u)"
    using assms(1-3) unat_slot [of u j] by (auto simp: is_frame_aligned_iff unat_frame_number elim!: dvdE)
  then have "ptr_add (phys_as_u64 u) j \<noteq> x" using assms(4) by auto
  then show ?thesis by (simp add: entry_at_def)
qed

lemma data_write:
  assumes inv: "vm_inv root m a" and low: "low_table root"
    and x: "\<And>p u. valid_path p \<Longrightarrow> length p \<le> 3 \<Longrightarrow> low_table u \<Longrightarrow> table_at m root p = Some u \<Longrightarrow>
      unat (frame_number u) \<noteq> unat x div 4096"
  shows "vm_inv root (m(x := w)) a" and "same_walks root m (m(x := w))" and "tables_from root m {} (m(x := w))"
proof -
  let ?m = "m(x := w)"
  note ok = vm_invD(2) [OF inv]
  have e: "entry_at ?m u (q ! k) = entry_at m u (q ! k)"
    if "valid_path q" "length q \<le> 4" "k < length q" "table_at m root (take k q) = Some u" "low_table u" for q k u
  proof (rule entry_at_other_frame [OF that(5) table_at_aligned [OF that(4) tables_okD(1) [OF ok]]])
    show "unat (q ! k) < 512" using that(1,3) by (simp add: valid_path_def)
    show "unat x div 4096 \<noteq> unat (frame_number u)"
      using x [OF valid_path_take [OF that(1)] _ that(5,4)] that(2,3) by simp
  qed
  have walks: "walk ?m root q = walk m root q" "table_at ?m root q = table_at m root q"
    if "valid_path q" "length q \<le> 4" for q
    using e [OF that] by (intro walk_cong; simp)+
  then show "same_walks root m ?m" by (simp add: same_walks_def)
  show "tables_from root m {} ?m" using walks(2) by (auto simp: tables_from_def)
  have "entry_at ?m root i = entry_at m root i" if "unat i < 512" for i
    using x [of "[]" root] low that tables_okD(1) [OF ok] by (intro entry_at_other_frame) auto
  then have "tables_ok ?m root"
    using walks(2) tables_okD [OF ok] by (intro tables_okI) simp_all
  then show "vm_inv root ?m a"
    using inv walks(2) unfolding vm_inv_def by auto
qed

section \<open>Accesses with true cached translations\<close>

lemma hw_translate_coherent:
  assumes "tlb_coherent v c" and "v = hw_vmm c" and "canonical addr" and "addr mod FRAME_SIZE = 0"
  shows "hw_translate c addr = translate v c (VirtAddr addr)"
proof -
  have base: "addr div FRAME_SIZE * FRAME_SIZE = addr" using assms(4) by (metis add.right_neutral div_mult_mod_eq)
  show ?thesis
  proof (cases "tlb c (addr div FRAME_SIZE)")
    case None
    then show ?thesis using assms(2) by (simp add: hw_translate_def)
  next
    case (Some p)
    then have "translate v c (VirtAddr addr) = Some p" using assms(1,3) base unfolding tlb_coherent_def by metis
    then show ?thesis using Some assms(4) by (simp add: hw_translate_def)
  qed
qed

lemma translate_tlb [simp]: "translate v (c\<lparr>tlb := x\<rparr>) w = translate v c w"
  by (simp add: translate_def read_entry_def cong: if_cong option.case_cong sum.case_cong)

lemma fill_tlb_simps [simp]:
  "mem (fill_tlb c addr) = mem c" "cr3 (fill_tlb c addr) = cr3 c" "translate v (fill_tlb c addr) w = translate v c w"
  "hw_vmm (fill_tlb c addr) = hw_vmm c" "efer (fill_tlb c addr) = efer c"
  by (simp_all add: fill_tlb_def hw_vmm_def)

lemma fill_tlb_coherent:
  assumes "tlb_coherent v c" and "v = hw_vmm c"
  shows "tlb_coherent v (fill_tlb c addr)"
  using assms unfolding tlb_coherent_def by (auto simp: fill_tlb_def)

text \<open>The tables determine the translation.\<close>

lemma translate_mem_cong:
  assumes "vm_inv (pml4_phys v) (mem c) a" and "vm_inv (pml4_phys v) (mem c') a'"
    and "same_walks (pml4_phys v) (mem c) (mem c')"
  shows "translate v c' w = translate v c w" and "flags_at v c' w = flags_at v c w" and "leaf_frame v c' w = leaf_frame v c w"
  using assms translate_walk [OF vm_invD(2)] flags_at_walk [OF vm_invD(2)]
  by (simp_all add: same_walks_def leaf_frame_def)

end
