(* ===== verification/Linked_List_Allocator.thy ===== *)
theory Linked_List_Allocator
  imports Addresses
begin

unbundle bit_operations_syntax

text \<open>
  The free-list allocator of \<open>mm/linked_list_allocator.rs\<close>: nodes stored inside the free memory
  they describe, kept sorted by address and coalesced. Its operations are functions on the
  sentinel and an explicit store; the loops that follow links may run forever on a corrupt list
  and are partial functions whose result \<open>None\<close> means just that. \<open>heap_rep\<close> relates a store to
  a list of blocks; under it every operation returns, and acts on the set of free bytes.
\<close>

section \<open>Layouts\<close>

text \<open>
  \<open>core::alloc::Layout\<close>: a size and a power-of-two alignment, where the size rounded up to the
  alignment fits in \<open>isize\<close>. \<open>align_to\<close> and \<open>pad_to_align\<close> are the two operations the allocator
  calls.
\<close>

record layout =
  layout_size :: usize
  layout_align :: usize

definition is_power_of_two :: "usize \<Rightarrow> bool" where
  "is_power_of_two x \<longleftrightarrow> x \<noteq> 0 \<and> x AND (x - 1) = 0"

definition from_size_align :: "usize \<Rightarrow> usize \<Rightarrow> layout option" where
  "from_size_align sz al =
     (if \<not> is_power_of_two al then None
      else if sz > 0x8000000000000000 - al then None
      else Some \<lparr>layout_size = sz, layout_align = al\<rparr>)"

definition align_to :: "layout \<Rightarrow> usize \<Rightarrow> layout option" where
  "align_to l al = from_size_align (layout_size l) (max (layout_align l) al)"

definition pad_to_align :: "layout \<Rightarrow> layout" where
  "pad_to_align l =
     l\<lparr>layout_size := (layout_size l + layout_align l - 1) AND NOT (layout_align l - 1)\<rparr>"

section \<open>Nodes\<close>

record free_list_node =
  node_size :: usize
  node_next :: u64

text \<open>\<open>size_of\<close> and \<open>align_of\<close> of \<open>FreeListNode\<close>, two 64-bit fields.\<close>

definition NODE_SIZE :: usize where "NODE_SIZE = 16"

definition NODE_ALIGN :: usize where "NODE_ALIGN = 8"

definition align_up :: "usize \<Rightarrow> usize \<Rightarrow> usize" where
  "align_up addr align = (addr + align - 1) AND NOT (align - 1)"

definition adjusted_size_align :: "layout \<Rightarrow> (usize \<times> usize) exec" where
  "adjusted_size_align l =
     (case align_to l NODE_ALIGN of
        None \<Rightarrow> Inl ExpectFailed
      | Some l \<Rightarrow> let l = pad_to_align l; sz = max (layout_size l) NODE_SIZE in Inr (sz, layout_align l))"

record linked_list_allocator =
  head :: free_list_node

definition lla_new :: linked_list_allocator where
  "lla_new = \<lparr>head = \<lparr>node_size = 0, node_next = 0\<rparr>\<rparr>"

text \<open>
  A pointer to a node is the sentinel inside the allocator or the address of a node in free
  memory: its size is stored at that address, its link 8 bytes on.
\<close>

datatype node_ptr = HeadPtr | NodePtr u64

fun get_next :: "linked_list_allocator \<Rightarrow> qmem \<Rightarrow> node_ptr \<Rightarrow> u64" where
  "get_next s m HeadPtr = node_next (head s)"
| "get_next s m (NodePtr p) = m (p + 8)"

fun set_next :: "linked_list_allocator \<Rightarrow> qmem \<Rightarrow> node_ptr \<Rightarrow> u64 \<Rightarrow> linked_list_allocator \<times> qmem" where
  "set_next s m HeadPtr q = (s\<lparr>head := (head s)\<lparr>node_next := q\<rparr>\<rparr>, m)"
| "set_next s m (NodePtr p) q = (s, m(p + 8 := q))"

fun get_size :: "linked_list_allocator \<Rightarrow> qmem \<Rightarrow> node_ptr \<Rightarrow> usize" where
  "get_size s m HeadPtr = node_size (head s)"
| "get_size s m (NodePtr p) = m p"

fun set_size :: "linked_list_allocator \<Rightarrow> qmem \<Rightarrow> node_ptr \<Rightarrow> usize \<Rightarrow> linked_list_allocator \<times> qmem" where
  "set_size s m HeadPtr n = (s\<lparr>head := (head s)\<lparr>node_size := n\<rparr>\<rparr>, m)"
| "set_size s m (NodePtr p) n = (s, m(p := n))"

section \<open>Operations\<close>

text \<open>
  A call that may run forever on a corrupt list: \<open>None\<close> if it does, \<open>Some\<close> of what it returns
  or panics with otherwise.
\<close>

type_synonym 'a run = "'a exec option"

definition bindR :: "'a run \<Rightarrow> ('a \<Rightarrow> 'b run) \<Rightarrow> 'b run" where
  "bindR r f = (case r of None \<Rightarrow> None | Some (Inl e) \<Rightarrow> Some (Inl e) | Some (Inr x) \<Rightarrow> f x)"

text \<open>The loop of \<open>add_free_region\<close>: the last node before \<open>addr\<close>.\<close>

partial_function (option) find_prev ::
    "linked_list_allocator \<Rightarrow> qmem \<Rightarrow> usize \<Rightarrow> node_ptr \<Rightarrow> node_ptr option" where
  "find_prev s m addr prev =
     (if get_next s m prev \<noteq> 0 \<and> get_next s m prev < addr
      then find_prev s m addr (NodePtr (get_next s m prev)) else Some prev)"

definition add_free_region ::
    "linked_list_allocator \<Rightarrow> qmem \<Rightarrow> usize \<Rightarrow> usize \<Rightarrow> (linked_list_allocator \<times> qmem) run" where
  "add_free_region s m addr sz =
     (if addr mod NODE_ALIGN \<noteq> 0 then Some (Inl AssertFailed)
      else if sz < NODE_SIZE then Some (Inl AssertFailed)
      else case find_prev s m addr HeadPtr of None \<Rightarrow> None | Some prev \<Rightarrow>
        let nxt = get_next s m prev;
            merge_backward = (case prev of HeadPtr \<Rightarrow> False | NodePtr p \<Rightarrow> p + get_size s m prev = addr);
            merge_forward = (nxt \<noteq> 0 \<and> addr + sz = nxt)
        in Some (Inr (
          if merge_backward then
            if merge_forward then
              let (s, m) = set_size s m prev (get_size s m prev + (sz + get_size s m (NodePtr nxt)))
              in set_next s m prev (get_next s m (NodePtr nxt))
            else set_size s m prev (get_size s m prev + sz)
          else
            if merge_forward then
              let (s, m) = set_size s m (NodePtr addr) (sz + get_size s m (NodePtr nxt));
                  (s, m) = set_next s m (NodePtr addr) (get_next s m (NodePtr nxt))
              in set_next s m prev addr
            else
              let (s, m) = set_size s m (NodePtr addr) sz;
                  (s, m) = set_next s m (NodePtr addr) nxt
              in set_next s m prev addr)))"

text \<open>The loop of \<open>alloc\<close>.\<close>

partial_function (option) alloc_scan ::
    "linked_list_allocator \<Rightarrow> qmem \<Rightarrow> usize \<Rightarrow> usize \<Rightarrow> node_ptr \<Rightarrow> u64
      \<Rightarrow> (u64 \<times> linked_list_allocator \<times> qmem) run" where
  "alloc_scan s m sz align prev current =
     (if current = 0 then Some (Inr (0, s, m))
      else
        let region_start = current;
            region_size = get_size s m (NodePtr current);
            region_end = region_start + region_size;
            alloc_start = align_up region_start align
        in case checked_add alloc_start sz of
             None \<Rightarrow> alloc_scan s m sz align (NodePtr current) (get_next s m (NodePtr current))
           | Some alloc_end \<Rightarrow>
             if alloc_end \<le> region_end then
               let (s, m) = set_next s m prev (get_next s m (NodePtr current));
                   front_gap = alloc_start - region_start;
                   back_gap = region_end - alloc_end
               in bindR (if front_gap \<ge> NODE_SIZE then add_free_region s m region_start front_gap
                         else Some (Inr (s, m))) (\<lambda>(s, m).
                  bindR (if back_gap \<ge> NODE_SIZE then add_free_region s m alloc_end back_gap
                         else Some (Inr (s, m))) (\<lambda>(s, m).
                    Some (Inr (alloc_start, s, m))))
             else alloc_scan s m sz align (NodePtr current) (get_next s m (NodePtr current)))"

definition lla_alloc ::
    "linked_list_allocator \<Rightarrow> qmem \<Rightarrow> layout \<Rightarrow> (u64 \<times> linked_list_allocator \<times> qmem) run" where
  "lla_alloc s m l =
     bindR (Some (adjusted_size_align l)) (\<lambda>(sz, align).
       alloc_scan s m sz align HeadPtr (get_next s m HeadPtr))"

definition lla_dealloc ::
    "linked_list_allocator \<Rightarrow> qmem \<Rightarrow> u64 \<Rightarrow> layout \<Rightarrow> (linked_list_allocator \<times> qmem) run" where
  "lla_dealloc s m ptr l =
     bindR (Some (adjusted_size_align l)) (\<lambda>(sz, _). add_free_region s m ptr sz)"


section \<open>The free list in memory\<close>

text \<open>
  A block is an address and a size. \<open>lseg m p bs q\<close>: following the links from \<open>p\<close> visits exactly
  the nodes of \<open>bs\<close>, with their sizes, and ends at \<open>q\<close>.
\<close>

type_synonym block = "u64 \<times> u64"

definition span :: "block \<Rightarrow> nat set" where
  "span b = {unat (fst b)..<unat (fst b) + unat (snd b)}"

definition block_end :: "block \<Rightarrow> nat" where
  "block_end b = unat (fst b) + unat (snd b)"

definition block_ok :: "block \<Rightarrow> bool" where
  "block_ok b \<longleftrightarrow> fst b \<noteq> 0 \<and> unat (fst b) mod 8 = 0 \<and> 16 \<le> unat (snd b) \<and> block_end b < 2 ^ 64"

definition free_bytes :: "block list \<Rightarrow> nat set" where
  "free_bytes bs = (\<Union>b \<in> set bs. span b)"

text \<open>Sorted by address, with a gap between neighbours: nothing is left to coalesce.\<close>

definition blocks_ok :: "block list \<Rightarrow> bool" where
  "blocks_ok bs \<longleftrightarrow> (\<forall>b \<in> set bs. block_ok b) \<and> sorted_wrt (\<lambda>b c. block_end b < unat (fst c)) bs"

fun lseg :: "qmem \<Rightarrow> u64 \<Rightarrow> block list \<Rightarrow> u64 \<Rightarrow> bool" where
  "lseg m p [] q \<longleftrightarrow> p = q"
| "lseg m p (b # bs) q \<longleftrightarrow> p = fst b \<and> fst b \<noteq> 0 \<and> m (fst b) = snd b \<and> lseg m (m (fst b + 8)) bs q"

definition heap_rep :: "linked_list_allocator \<Rightarrow> qmem \<Rightarrow> block list \<Rightarrow> bool" where
  "heap_rep s m bs \<longleftrightarrow> blocks_ok bs \<and> lseg m (node_next (head s)) bs 0"

definition last_ptr :: "block list \<Rightarrow> node_ptr" where
  "last_ptr bs = (if bs = [] then HeadPtr else NodePtr (fst (last bs)))"

lemma lseg_append: "lseg m p (xs @ ys) q \<longleftrightarrow> (\<exists>r. lseg m p xs r \<and> lseg m r ys q)"
  by (induction xs arbitrary: p) auto

lemma lseg_snoc:
  "lseg m p (xs @ [b]) q \<longleftrightarrow> lseg m p xs (fst b) \<and> fst b \<noteq> 0 \<and> m (fst b) = snd b \<and> m (fst b + 8) = q"
  by (auto simp: lseg_append)

lemma blocks_ok_append:
  "blocks_ok (xs @ ys) \<longleftrightarrow> blocks_ok xs \<and> blocks_ok ys
    \<and> (\<forall>b \<in> set xs. \<forall>c \<in> set ys. block_end b < unat (fst c))"
  by (auto simp: blocks_ok_def sorted_wrt_append)

lemma blocks_ok_Cons:
  "blocks_ok (b # bs) \<longleftrightarrow> block_ok b \<and> blocks_ok bs \<and> (\<forall>c \<in> set bs. block_end b < unat (fst c))"
  by (auto simp: blocks_ok_def)

lemma blocks_ok_Nil [simp]: "blocks_ok []"
  by (simp add: blocks_ok_def)

lemma free_bytes_simps [simp]:
  "free_bytes [] = {}" "free_bytes (b # bs) = span b \<union> free_bytes bs"
  "free_bytes (xs @ ys) = free_bytes xs \<union> free_bytes ys"
  by (auto simp: free_bytes_def)

text \<open>The two words of a node lie in the block.\<close>

lemma unat_next_cell: "block_ok b \<Longrightarrow> unat (fst b + 8) = unat (fst b) + 8"
  by (simp add: block_ok_def block_end_def unat_add_no_wrap)

lemma cells_in_span:
  assumes "block_ok b"
  shows "unat (fst b) \<in> span b" and "unat (fst b + 8) \<in> span b"
  using assms unat_next_cell [OF assms] by (simp_all add: span_def block_ok_def)

lemma lseg_upd:
  assumes "\<And>b. b \<in> set xs \<Longrightarrow> block_ok b" and "unat x \<notin> free_bytes xs"
  shows "lseg (m(x := v)) p xs q \<longleftrightarrow> lseg m p xs q"
  using assms
proof (induction xs arbitrary: p)
  case (Cons b xs)
  have "unat x \<notin> span b" using Cons.prems(2) by simp
  then have "x \<noteq> fst b" "x \<noteq> fst b + 8"
    using cells_in_span [of b] Cons.prems(1) by auto
  then show ?case using Cons by auto
qed simp

lemma get_next_last_ptr:
  "lseg m (node_next (head s)) xs r \<Longrightarrow> get_next s m (last_ptr xs) = r"
  by (cases xs rule: rev_cases) (auto simp: last_ptr_def lseg_snoc)

lemma set_next_last_ptr:
  assumes "lseg m (node_next (head s)) xs r" and "blocks_ok xs"
    and "set_next s m (last_ptr xs) q = (s', m')"
  shows "lseg m' (node_next (head s')) xs q"
    and "\<And>x. unat x \<notin> free_bytes xs \<Longrightarrow> m' x = m x"
    and "\<And>x. x \<notin> (\<lambda>b. fst b + 8) ` set xs \<Longrightarrow> m' x = m x"
proof -
  have "lseg m' (node_next (head s')) xs q \<and> (\<forall>x. unat x \<notin> free_bytes xs \<longrightarrow> m' x = m x)
    \<and> (\<forall>x. x \<notin> (\<lambda>b. fst b + 8) ` set xs \<longrightarrow> m' x = m x)"
  proof (cases xs rule: rev_cases)
    case Nil
    then show ?thesis using assms by (auto simp: last_ptr_def)
  next
    case (snoc ys b)
    have ok: "block_ok b" "\<And>c. c \<in> set ys \<Longrightarrow> block_ok c" "\<And>c. c \<in> set ys \<Longrightarrow> block_end c < unat (fst b)"
      using assms(2) by (auto simp: snoc blocks_ok_append blocks_ok_Cons) (simp add: blocks_ok_def)
    have m': "s' = s" "m' = m(fst b + 8 := q)" using assms(3) by (auto simp: snoc last_ptr_def)
    have "unat (fst b + 8) \<notin> free_bytes ys"
      using ok(3) unat_next_cell [OF ok(1)] by (fastforce simp: free_bytes_def span_def block_end_def)
    then have "lseg m' (node_next (head s')) ys (fst b)"
      using assms(1) lseg_upd [of ys "fst b + 8" m q] ok(2) by (simp add: m' snoc lseg_snoc)
    moreover have "fst b + 8 \<noteq> fst b" by simp
    ultimately show ?thesis
      using assms(1) cells_in_span [OF ok(1)] by (auto simp: snoc lseg_snoc m')
  qed
  then show "lseg m' (node_next (head s')) xs q"
    and "\<And>x. unat x \<notin> free_bytes xs \<Longrightarrow> m' x = m x"
    and "\<And>x. x \<notin> (\<lambda>b. fst b + 8) ` set xs \<Longrightarrow> m' x = m x" by blast+
qed

section \<open>Termination of the search\<close>

lemma find_prev_lseg:
  assumes "lseg m (get_next s m prev) xs q" and "\<And>b. b \<in> set xs \<Longrightarrow> fst b < addr"
    and "q = 0 \<or> \<not> q < addr"
  shows "find_prev s m addr prev = Some (if xs = [] then prev else NodePtr (fst (last xs)))"
  using assms
proof (induction xs arbitrary: prev)
  case Nil
  then show ?case by (subst find_prev.simps) auto
next
  case (Cons b xs)
  have "find_prev s m addr (NodePtr (fst b)) = Some (if xs = [] then NodePtr (fst b) else NodePtr (fst (last xs)))"
    using Cons.prems by (intro Cons.IH) auto
  then show ?case
    using Cons.prems by (subst find_prev.simps) auto
qed

lemma find_prev_split:
  assumes "lseg m (node_next (head s)) xs r" and "lseg m r ys 0" and "blocks_ok (xs @ ys)"
    and "\<And>b. b \<in> set xs \<Longrightarrow> fst b < addr" and "\<And>c. c \<in> set ys \<Longrightarrow> \<not> fst c < addr"
  shows "find_prev s m addr HeadPtr = Some (last_ptr xs)" and "get_next s m (last_ptr xs) = r"
proof -
  have "r = 0 \<or> \<not> r < addr" using assms(2,5) by (cases ys) auto
  then show "find_prev s m addr HeadPtr = Some (last_ptr xs)"
    using find_prev_lseg [of m s HeadPtr xs r addr] assms(1,4) by (auto simp: last_ptr_def)
  show "get_next s m (last_ptr xs) = r" by (rule get_next_last_ptr [OF assms(1)])
qed
section \<open>Adding a region\<close>

lemma lseg_cong:
  assumes "\<And>b. b \<in> set xs \<Longrightarrow> block_ok b" and "\<And>x. unat x \<in> free_bytes xs \<Longrightarrow> m' x = m x"
  shows "lseg m' p xs q \<longleftrightarrow> lseg m p xs q"
  using assms
proof (induction xs arbitrary: p)
  case (Cons b xs)
  have "m' (fst b) = m (fst b)" "m' (fst b + 8) = m (fst b + 8)"
    using Cons.prems cells_in_span [of b] by auto
  then show ?case using Cons by auto
qed simp

lemma blocks_okD: "blocks_ok bs \<Longrightarrow> b \<in> set bs \<Longrightarrow> block_ok b"
  by (simp add: blocks_ok_def)

lemma free_bytes_disjoint:
  assumes "blocks_ok (xs @ b # ys)"
  shows "span b \<inter> free_bytes xs = {}" and "span b \<inter> free_bytes ys = {}"
    and "free_bytes xs \<inter> free_bytes ys = {}"
  using assms
  by (fastforce simp: blocks_ok_append blocks_ok_Cons free_bytes_def span_def block_end_def)+

text \<open>Writing a node at \<open>a\<close> in front of \<open>zs\<close> and linking it after \<open>xs\<close>.\<close>

lemma splice_node:
  assumes xs: "lseg m (node_next (head s)) xs r" and zs: "lseg m q zs 0"
    and ok: "blocks_ok (xs @ (a, k) # zs)"
    and set: "set_next s (m(a := k, a + 8 := q)) (last_ptr xs) a = (s', m')"
  shows "heap_rep s' m' (xs @ (a, k) # zs)"
    and "unat x \<notin> free_bytes (xs @ (a, k) # zs) \<Longrightarrow> m' x = m x"
proof -
  let ?m = "m(a := k, a + 8 := q)"
  have b: "block_ok (a, k)" "\<And>b. b \<in> set xs \<Longrightarrow> block_ok b" "\<And>b. b \<in> set zs \<Longrightarrow> block_ok b" "blocks_ok xs"
    using ok by (auto simp: blocks_ok_append blocks_ok_Cons dest: blocks_okD)
  have cells: "unat a \<in> span (a, k)" "unat (a + 8) \<in> span (a, k)" using cells_in_span [OF b(1)] by simp_all
  have out: "unat a \<notin> free_bytes xs" "unat (a + 8) \<notin> free_bytes xs"
    using cells free_bytes_disjoint(1) [OF ok] by auto
  have "lseg ?m (node_next (head s)) xs r"
    using xs lseg_upd [OF b(2)] out by simp
  note s' = set_next_last_ptr [OF this b(4) set]
  have "m' a = k" "m' (a + 8) = q" using s'(2) out by simp_all
  moreover have "lseg m' q zs 0"
  proof -
    have "m' x = m x" if "unat x \<in> free_bytes zs" for x
    proof -
      have "unat x \<notin> free_bytes xs" "unat x \<notin> span (a, k)"
        using that free_bytes_disjoint [OF ok] by auto
      then show ?thesis using s'(2) [of x] cells by auto
    qed
    then show ?thesis using zs lseg_cong [OF b(3), of zs m' m] by simp
  qed
  ultimately show "heap_rep s' m' (xs @ (a, k) # zs)"
    using s'(1) ok b(1) by (auto simp: heap_rep_def lseg_append block_ok_def)
  show "m' x = m x" if "unat x \<notin> free_bytes (xs @ (a, k) # zs)"
    using that s'(2) [of x] cells by auto
qed

text \<open>Rewriting the last node of \<open>xs\<close> and linking it to \<open>zs\<close>.\<close>

lemma extend_node:
  assumes xs: "lseg m (node_next (head s)) (xs @ [(p, k)]) r" and zs: "lseg m q zs 0"
    and ok: "blocks_ok (xs @ (p, k') # zs)"
  shows "heap_rep s (m(p := k', p + 8 := q)) (xs @ (p, k') # zs)"
    and "unat x \<notin> free_bytes (xs @ (p, k') # zs) \<Longrightarrow> (m(p := k', p + 8 := q)) x = m x"
proof -
  have b: "block_ok (p, k')" "\<And>b. b \<in> set xs \<Longrightarrow> block_ok b" "\<And>b. b \<in> set zs \<Longrightarrow> block_ok b"
    using ok by (auto simp: blocks_ok_append blocks_ok_Cons dest: blocks_okD)
  have cells: "unat p \<in> span (p, k')" "unat (p + 8) \<in> span (p, k')" using cells_in_span [OF b(1)] by simp_all
  have out: "unat p \<notin> free_bytes xs" "unat (p + 8) \<notin> free_bytes xs"
    "unat p \<notin> free_bytes zs" "unat (p + 8) \<notin> free_bytes zs"
    using cells free_bytes_disjoint(1,2) [OF ok] by auto
  have "lseg (m(p := k', p + 8 := q)) (node_next (head s)) xs p"
    "lseg (m(p := k', p + 8 := q)) q zs 0"
    using xs zs out lseg_upd [OF b(2)] lseg_upd [OF b(3)] by (simp_all add: lseg_snoc)
  then show "heap_rep s (m(p := k', p + 8 := q)) (xs @ (p, k') # zs)"
    using ok b(1) by (auto simp: heap_rep_def lseg_append block_ok_def)
  show "(m(p := k', p + 8 := q)) x = m x" if "unat x \<notin> free_bytes (xs @ (p, k') # zs)"
    using that cells by auto
qed

text \<open>Where a new block goes: after \<open>xs\<close> and before \<open>ys\<close>, touching neither inside.\<close>

definition room :: "block list \<Rightarrow> block \<Rightarrow> block list \<Rightarrow> bool" where
  "room xs b ys \<longleftrightarrow> blocks_ok (xs @ ys) \<and> block_ok b \<and> (\<forall>c \<in> set xs. block_end c \<le> unat (fst b))
     \<and> (\<forall>c \<in> set ys. block_end b \<le> unat (fst c))"

lemma room_split:
  assumes "blocks_ok bs" and "block_ok b" and "span b \<inter> free_bytes bs = {}"
  shows "room (takeWhile (\<lambda>c. fst c < fst b) bs) b (dropWhile (\<lambda>c. fst c < fst b) bs)"
proof -
  let ?xs = "takeWhile (\<lambda>c. fst c < fst b) bs" and ?ys = "dropWhile (\<lambda>c. fst c < fst b) bs"
  have ok: "blocks_ok (?xs @ ?ys)" using assms(1) by simp
  have dj: "span b \<inter> span c = {}" if "c \<in> set bs" for c
    using assms(3) that by (auto simp: free_bytes_def)
  have bok: "block_ok c" if "c \<in> set bs" for c using assms(1) that by (rule blocks_okD)
  have "block_end c \<le> unat (fst b)" if "c \<in> set ?xs" for c
  proof -
    have c: "c \<in> set bs" "fst c < fst b" using that by (auto dest: set_takeWhileD)
    have "unat (fst b) \<in> span b" using cells_in_span(1) [OF assms(2)] .
    then have "unat (fst b) \<notin> span c" using dj [OF c(1)] by auto
    then show ?thesis using c(2) by (auto simp: span_def block_end_def word_less_nat_alt)
  qed
  moreover have "block_end b \<le> unat (fst c)" if "c \<in> set ?ys" for c
  proof -
    have c: "c \<in> set bs" using that by (rule set_dropWhileD)
    have "\<not> fst c < fst b"
    proof -
      have "?ys \<noteq> []" using that by (metis empty_iff list.set(1))
      then obtain y ys where ys: "?ys = y # ys" by (meson neq_Nil_conv)
      have "\<not> fst y < fst b" using ys by (metis hd_dropWhile list.distinct(1) list.sel(1))
      moreover have "unat (fst y) \<le> unat (fst c)"
        using that ok by (auto simp: ys blocks_ok_append blocks_ok_Cons block_end_def)
      ultimately show ?thesis by (simp add: word_less_nat_alt)
    qed
    moreover have "unat (fst c) \<notin> span b"
      using dj [OF c] cells_in_span(1) [OF bok [OF c]] by auto
    ultimately show ?thesis by (auto simp: span_def block_end_def word_less_nat_alt)
  qed
  ultimately show ?thesis using ok assms(2) by (simp add: room_def)
qed

text \<open>Two blocks that touch are one block.\<close>

lemma merge_blocks:
  assumes "block_ok (a, n)" and "block_ok (c, j)" and "block_end (a, n) = unat c"
  shows "block_ok (a, n + j)" and "block_end (a, n + j) = block_end (c, j)"
    and "span (a, n + j) = span (a, n) \<union> span (c, j)"
proof -
  have "unat (n + j) = unat n + unat j"
    using assms by (intro unat_add_no_wrap) (simp add: block_ok_def block_end_def)
  then show "block_ok (a, n + j)" "block_end (a, n + j) = block_end (c, j)"
    "span (a, n + j) = span (a, n) \<union> span (c, j)"
    using assms by (auto simp: block_ok_def block_end_def span_def)
qed

lemma room_back_strict:
  assumes "room xs b ys" and "xs = [] \<or> block_end (last xs) \<noteq> unat (fst b)" and "c \<in> set xs"
  shows "block_end c < unat (fst b)"
proof (cases xs rule: rev_cases)
  case (snoc zs z)
  have "block_end z < unat (fst b)" using assms by (auto simp: room_def snoc le_less)
  moreover have "block_end c < unat (fst z)" if "c \<noteq> z"
    using assms(1,3) that by (auto simp: room_def snoc blocks_ok_append)
  ultimately show ?thesis by (cases "c = z") (auto simp: block_end_def)
qed (use assms in simp)

lemma room_front_strict:
  assumes "room xs b ys" and "ys = [] \<or> block_end b \<noteq> unat (fst (hd ys))" and "c \<in> set ys"
  shows "block_end b < unat (fst c)"
proof (cases ys)
  case (Cons z zs)
  have "block_end b < unat (fst z)" using assms by (auto simp: room_def Cons le_less)
  moreover have "unat (fst z) < unat (fst c)" if "c \<noteq> z"
    using assms(1,3) that by (auto simp: room_def Cons blocks_ok_append blocks_ok_Cons block_end_def)
  ultimately show ?thesis by (cases "c = z") auto
qed (use assms in simp)

lemma room_join_back:
  assumes "room (xs @ [(p, k)]) (a, n) ys" and "block_end (p, k) = unat a"
  shows "room xs (p, k + n) ys" and "span (p, k + n) = span (p, k) \<union> span (a, n)"
    and "\<And>c. c \<in> set xs \<Longrightarrow> block_end c < unat p"
  using assms merge_blocks [of p k a n]
  by (auto simp: room_def blocks_ok_append blocks_ok_Cons)

lemma room_join_front:
  assumes "room xs (a, n) ((c, j) # ys)" and "block_end (a, n) = unat c"
  shows "room xs (a, n + j) ys" and "span (a, n + j) = span (a, n) \<union> span (c, j)"
    and "\<And>d. d \<in> set ys \<Longrightarrow> block_end (a, n + j) < unat (fst d)"
  using assms merge_blocks [of a n c j]
  by (auto simp: room_def blocks_ok_append blocks_ok_Cons)

lemma room_insert:
  assumes "room xs b ys" and "\<And>c. c \<in> set xs \<Longrightarrow> block_end c < unat (fst b)"
    and "\<And>c. c \<in> set ys \<Longrightarrow> block_end b < unat (fst c)"
  shows "blocks_ok (xs @ b # ys)"
  using assms by (auto simp: room_def blocks_ok_append blocks_ok_Cons)

lemma word_end_eq: "block_ok (p, k) \<Longrightarrow> p + k = a \<longleftrightarrow> block_end (p, k) = unat a"
  by (simp add: word_unat_eq_iff block_ok_def block_end_def unat_add_no_wrap)

definition region_added ::
    "qmem \<Rightarrow> block list \<Rightarrow> block \<Rightarrow> linked_list_allocator \<Rightarrow> qmem \<Rightarrow> block list \<Rightarrow> bool" where
  "region_added m bs b s' m' bs' \<longleftrightarrow> heap_rep s' m' bs' \<and> free_bytes bs' = free_bytes bs \<union> span b
     \<and> (\<forall>x. unat x \<notin> free_bytes bs' \<longrightarrow> m' x = m x)"

lemma add_spliced:
  assumes rm: "room xs (a, n) ys" and xs: "lseg m (node_next (head s)) xs r" and ys: "lseg m r ys 0"
    and apart: "xs = [] \<or> block_end (last xs) \<noteq> unat a"
  obtains (alone) s' m' where "ys = [] \<or> block_end (a, n) \<noteq> unat (fst (hd ys))"
      "set_next s (m(a := n, a + 8 := r)) (last_ptr xs) a = (s', m')"
      "region_added m (xs @ ys) (a, n) s' m' (xs @ (a, n) # ys)"
  | (before) j zs s' m' where "ys = (r, j) # zs" "block_end (a, n) = unat r" "m r = j"
      "set_next s (m(a := n + j, a + 8 := m (r + 8))) (last_ptr xs) a = (s', m')"
      "region_added m (xs @ ys) (a, n) s' m' (xs @ (a, n + j) # zs)"
proof (cases "ys = [] \<or> block_end (a, n) \<noteq> unat (fst (hd ys))")
  case True
  obtain s' m' where set: "set_next s (m(a := n, a + 8 := r)) (last_ptr xs) a = (s', m')" by force
  have ok: "blocks_ok (xs @ (a, n) # ys)"
    using room_insert [OF rm] room_back_strict [OF rm] room_front_strict [OF rm True] apart by simp
  show thesis
    using alone [OF True set] splice_node [OF xs ys ok set] by (auto simp: region_added_def)
next
  case False
  then obtain j zs where y: "ys = (r, j) # zs" "block_end (a, n) = unat r" "m r = j" "lseg m (m (r + 8)) zs 0"
    using ys by (cases ys) auto
  note j = room_join_front [OF rm [unfolded y(1)] y(2)]
  obtain s' m' where set: "set_next s (m(a := n + j, a + 8 := m (r + 8))) (last_ptr xs) a = (s', m')" by force
  have ok: "blocks_ok (xs @ (a, n + j) # zs)"
    using room_insert [OF j(1)] room_back_strict [OF j(1)] j(3) apart by simp
  show thesis
    using before [OF y(1-3) set] splice_node [OF xs y(4) ok set] j(2) by (auto simp: region_added_def y(1))
qed

lemma add_extended:
  assumes rm: "room (xs @ [(p, k)]) (a, n) ys"
    and xs: "lseg m (node_next (head s)) (xs @ [(p, k)]) r" and ys: "lseg m r ys 0"
    and touch: "block_end (p, k) = unat a"
  obtains (alone) "ys = [] \<or> block_end (a, n) \<noteq> unat (fst (hd ys))"
      "region_added m (xs @ (p, k) # ys) (a, n) s (m(p := k + n)) (xs @ (p, k + n) # ys)"
  | (bridge) j zs where "ys = (r, j) # zs" "block_end (a, n) = unat r" "m r = j"
      "region_added m (xs @ (p, k) # ys) (a, n) s (m(p := k + (n + j), p + 8 := m (r + 8)))
        (xs @ (p, k + (n + j)) # zs)"
proof (cases "ys = [] \<or> block_end (a, n) \<noteq> unat (fst (hd ys))")
  case True
  note b = room_join_back [OF rm touch]
  have "block_end (p, k + n) = block_end (a, n)"
    using merge_blocks(2) [of p k a n] rm touch by (simp add: room_def blocks_ok_append blocks_ok_Cons)
  then have ok: "blocks_ok (xs @ (p, k + n) # ys)"
    using room_insert [OF b(1)] room_front_strict [OF b(1)] b(3) True by simp
  have m: "m(p := k + n) = m(p := k + n, p + 8 := r)" using xs by (auto simp: lseg_snoc fun_eq_iff)
  have "region_added m (xs @ (p, k) # ys) (a, n) s (m(p := k + n, p + 8 := r)) (xs @ (p, k + n) # ys)"
    using extend_node [OF xs ys ok] b(2) by (auto simp: region_added_def)
  then show thesis by (intro alone [OF True]) (simp only: m [symmetric])
next
  case False
  then obtain j zs where y: "ys = (r, j) # zs" "block_end (a, n) = unat r" "m r = j" "lseg m (m (r + 8)) zs 0"
    using ys by (cases ys) auto
  note f = room_join_front [OF rm [unfolded y(1)] y(2)]
  note b = room_join_back [OF f(1) touch]
  have "block_end (p, k + (n + j)) = block_end (a, n + j)"
    using merge_blocks(2) [of p k a "n + j"] f(1) touch by (simp add: room_def blocks_ok_append blocks_ok_Cons)
  then have ok: "blocks_ok (xs @ (p, k + (n + j)) # zs)"
    using room_insert [OF b(1)] f(3) b(3) by simp
  have "region_added m (xs @ (p, k) # ys) (a, n) s (m(p := k + (n + j), p + 8 := m (r + 8)))
      (xs @ (p, k + (n + j)) # zs)"
    using extend_node [OF xs y(4) ok] b(2) f(2) by (auto simp: region_added_def y(1))
  then show thesis by (rule bridge [OF y(1-3)])
qed

lemma merge_forward_iff:
  assumes "room xs (a, n) ys" and "lseg m r ys 0"
  shows "(r \<noteq> 0 \<and> a + n = r) \<longleftrightarrow> \<not> (ys = [] \<or> block_end (a, n) \<noteq> unat (fst (hd ys)))"
  using assms word_end_eq [of a n] by (cases ys) (auto simp: room_def)

lemma next_cell_above:
  assumes "room xs (a, n) ((r, j) # zs)"
  shows "r + 8 \<noteq> a" and "\<And>c. c \<in> set xs \<Longrightarrow> r + 8 \<noteq> fst c"
proof -
  have r: "block_ok (r, j)" using assms by (auto simp: room_def blocks_ok_append blocks_ok_Cons)
  have u: "unat (r + 8) = unat r + 8" using unat_next_cell [OF r] by simp
  have "unat a \<le> unat r" using assms by (simp add: room_def block_end_def)
  then show "r + 8 \<noteq> a" using u by auto
  show "r + 8 \<noteq> fst c" if "c \<in> set xs" for c
    using u assms that by (fastforce simp: room_def blocks_ok_append block_end_def)
qed

lemma add_free_region_spec:
  assumes rep: "heap_rep s m bs" and ok: "block_ok (a, n)" and dj: "span (a, n) \<inter> free_bytes bs = {}"
  obtains s' m' bs' where "add_free_region s m a n = Some (Inr (s', m'))"
    and "region_added m bs (a, n) s' m' bs'"
proof -
  define xs ys where "xs = takeWhile (\<lambda>c. fst c < a) bs" and "ys = dropWhile (\<lambda>c. fst c < a) bs"
  have bs: "bs = xs @ ys" by (simp add: xs_def ys_def)
  have rm: "room xs (a, n) ys"
    using room_split [OF _ ok dj] rep by (simp add: xs_def ys_def heap_rep_def)
  obtain r where seg: "lseg m (node_next (head s)) xs r" "lseg m r ys 0"
    using rep by (auto simp: heap_rep_def bs lseg_append)
  have "fst b < a" if "b \<in> set xs" for b using that by (auto simp: xs_def dest: set_takeWhileD)
  moreover have "\<not> fst c < a" if "c \<in> set ys" for c
    using that rm by (auto simp: room_def block_end_def word_less_nat_alt)
  ultimately have prev: "find_prev s m a HeadPtr = Some (last_ptr xs)" "get_next s m (last_ptr xs) = r"
    using find_prev_split(1) [OF seg] get_next_last_ptr [OF seg(1)] rm by (simp_all add: room_def)
  have guards: "a mod NODE_ALIGN = 0" "\<not> n < NODE_SIZE"
    using ok by (simp_all add: block_ok_def NODE_ALIGN_def NODE_SIZE_def word_less_nat_alt
        word_unat_eq_iff unat_mod)
  note fwd = merge_forward_iff [OF rm seg(2)]
  show thesis
  proof (cases "xs = [] \<or> block_end (last xs) \<noteq> unat a")
    case True
    have nomerge: "(case last_ptr xs of HeadPtr \<Rightarrow> False | NodePtr p \<Rightarrow> p + get_size s m (last_ptr xs) = a) = False"
    proof (cases xs rule: rev_cases)
      case (snoc zs b)
      then show ?thesis
        using True seg(1) rm word_end_eq [of "fst b" "snd b" a]
        by (auto simp: last_ptr_def lseg_snoc room_def blocks_ok_append blocks_ok_Cons)
    qed (simp add: last_ptr_def)
    show thesis
    proof (rule add_spliced [OF rm seg True], goal_cases alone before)
      case (alone s' m')
      then show ?case
        using that [of s' m'] fwd by (simp add: add_free_region_def guards prev nomerge Let_def bs)
    next
      case (before j zs s' m')
      have "r + 8 \<noteq> a" using next_cell_above(1) rm before(1) by simp
      then show ?case
        using that [of s' m'] fwd before by (simp add: add_free_region_def guards prev nomerge Let_def bs)
    qed
  next
    case False
    then obtain zs p k where xs: "xs = zs @ [(p, k)]" "block_end (p, k) = unat a"
      by (cases xs rule: rev_cases) auto
    have k: "m p = k" "p + k = a"
      using seg(1) xs rm word_end_eq [of p k a]
      by (auto simp: lseg_snoc room_def blocks_ok_append blocks_ok_Cons)
    have "last_ptr xs = NodePtr p" by (simp add: xs(1) last_ptr_def)
    then have f: "find_prev s m a HeadPtr = Some (NodePtr p)" "m (p + 8) = r" using prev by simp_all
    have bs': "bs = zs @ (p, k) # ys" by (simp add: bs xs(1))
    show thesis
    proof (rule add_extended [OF rm [unfolded xs(1)] seg(1) [unfolded xs(1)] seg(2) xs(2)], goal_cases alone bridge)
      case alone
      have "add_free_region s m a n = Some (Inr (s, m(p := k + n)))"
        using alone(1) fwd k by (auto simp: add_free_region_def guards f Let_def)
      then show ?case using that alone(2) by (simp add: bs')
    next
      case (bridge j ws)
      have "r + 8 \<noteq> p" using next_cell_above(2) [of xs a n r j ws "(p, k)"] rm bridge(1) xs(1) by simp
      then have "add_free_region s m a n = Some (Inr (s, m(p := k + (n + j), p + 8 := m (r + 8))))"
        using bridge(1-3) fwd k by (simp add: add_free_region_def guards f Let_def)
      then show ?case using that bridge(4) by (simp add: bs')
    qed
  qed
qed

section \<open>Alignment\<close>

lemma unat_pow2:
  assumes "k < 64"
  shows "unat (2 ^ k :: u64) = 2 ^ k"
proof -
  have "(2 :: nat) ^ k < 2 ^ LENGTH(64)" using power_strict_increasing [of k 64 "2 :: nat"] assms by simp
  then have "unat (of_nat (2 ^ k) :: u64) = 2 ^ k" by (rule unat_of_nat_small)
  then show ?thesis by simp
qed

lemma is_power_of_two_iff: "is_power_of_two x \<longleftrightarrow> (\<exists>k < 64. x = 2 ^ k)"
proof
  assume x: "is_power_of_two x"
  then have "1 \<le> unat x" by (simp add: is_power_of_two_def Suc_le_eq unat_gt_0)
  then obtain k where k: "2 ^ k \<le> unat x" "unat x < 2 ^ (k + 1)" using ex_power_ivl1 [of 2 "unat x"] by auto
  note k(1)
  also have "unat x < 2 ^ LENGTH(64)" by (rule unsigned_less)
  finally have "(2 :: nat) ^ k < 2 ^ LENGTH(64)" .
  then have "k < LENGTH(64)" by (rule power_less_imp_less_exp [rotated]) simp
  then have "k < 64" by simp
  have high: "bit n k" if "2 ^ k \<le> n" "n < 2 ^ (k + 1)" for n :: nat
  proof -
    have "n div 2 ^ k = 1" using that by (intro div_nat_eqI) auto
    then show ?thesis by (simp add: bit_iff_odd)
  qed
  have "unat x = 2 ^ k"
  proof (rule ccontr)
    assume "unat x \<noteq> 2 ^ k"
    then have "2 ^ k \<le> unat x - 1" using k(1) by simp
    moreover have "unat (x - 1) = unat x - 1" using x by (intro unat_minus_one) (simp add: is_power_of_two_def)
    ultimately have "bit (unat (x - 1)) k" using k(2) by (intro high) simp_all
    then have "bit (x - 1) k" by (simp only: bit_unsigned_iff)
    moreover have "bit x k" using high [OF k] by (simp add: bit_unsigned_iff)
    ultimately have "bit (x AND (x - 1)) k" by (simp add: bit_and_iff)
    then show False using x by (simp add: is_power_of_two_def)
  qed
  then have "x = 2 ^ k" using unat_pow2 [OF \<open>k < 64\<close>] by (simp add: word_unat_eq_iff)
  then show "\<exists>k < 64. x = 2 ^ k" using \<open>k < 64\<close> by blast
next
  assume "\<exists>k < 64. x = 2 ^ k"
  then obtain k where k: "k < 64" "x = 2 ^ k" by blast
  have "x - 1 = mask k" by (simp add: k mask_eq_exp_minus_1)
  moreover have "x AND mask k = 0"
    by (rule bit_eqI) (auto simp: k bit_simps)
  moreover have "x \<noteq> 0" using k by simp
  ultimately show "is_power_of_two x" by (simp add: is_power_of_two_def)
qed

definition round_up :: "nat \<Rightarrow> nat \<Rightarrow> nat" where
  "round_up n a = (n + a - 1) div a * a"

lemma round_up_bounds:
  assumes "0 < a"
  shows "n \<le> round_up n a" and "round_up n a < n + a" and "a dvd round_up n a"
proof -
  have "(n + a - 1) div a * a + (n + a - 1) mod a = n + a - 1" by (rule div_mult_mod_eq)
  moreover have "(n + a - 1) mod a < a" using assms by simp
  ultimately show "n \<le> round_up n a" "round_up n a < n + a"
    unfolding round_up_def using assms by linarith+
  show "a dvd round_up n a" by (simp add: round_up_def)
qed

lemma round_up_least: "n \<le> m \<Longrightarrow> a dvd m \<Longrightarrow> round_up n a \<le> m"
proof -
  assume "n \<le> m" "a dvd m"
  then obtain q where q: "m = a * q" by blast
  show ?thesis
  proof (cases "a = 0")
    case False
    have "(n + a - 1) div a \<le> (a * q + (a - 1)) div a" using \<open>n \<le> m\<close> False by (intro div_le_mono) (simp add: q)
    also have "\<dots> = q" using False by (intro div_nat_eqI) auto
    finally show ?thesis by (simp add: round_up_def q)
  qed (use \<open>n \<le> m\<close> in \<open>simp add: round_up_def\<close>)
qed

lemma unat_align_up:
  assumes "k < 64" and "unat a + 2 ^ k \<le> 2 ^ 64"
  shows "unat (align_up a (2 ^ k)) = round_up (unat a) (2 ^ k)"
proof -
  have mask: "2 ^ k - 1 = (mask k :: u64)" by (simp add: mask_eq_exp_minus_1)
  have "(2 ^ k :: u64) \<noteq> 0" using unat_pow2 [OF assms(1)] by (metis power_eq_0_iff unat_0 zero_neq_numeral)
  then have "unat (mask k :: u64) = 2 ^ k - 1"
    using unat_minus_one [of "2 ^ k :: u64"] unat_pow2 [OF assms(1)] by (simp add: mask)
  then have "unat (a + mask k) = unat a + 2 ^ k - 1"
    using assms by (subst unat_add_no_wrap) auto
  then show ?thesis
    by (simp add: align_up_def round_up_def unat_and_not_mask mask add_diff_eq [symmetric])
qed


section \<open>Adjusted requests\<close>

text \<open>What the layout type promises of its values.\<close>

definition valid_layout :: "layout \<Rightarrow> bool" where
  "valid_layout l \<longleftrightarrow> from_size_align (layout_size l) (layout_align l) = Some l"

lemma from_size_align_pow2:
  assumes "k < 64"
  shows "from_size_align sz (2 ^ k) =
    (if 2 ^ 63 < unat sz + 2 ^ k then None else Some \<lparr>layout_size = sz, layout_align = 2 ^ k\<rparr>)"
proof -
  have le: "(2 :: nat) ^ k \<le> 2 ^ 63" using assms by (intro power_increasing) auto
  then have "(2 ^ k :: u64) \<le> 0x8000000000000000"
    using unat_pow2 [OF assms] by (simp add: word_le_nat_alt)
  then have "unat (0x8000000000000000 - 2 ^ k :: u64) = 2 ^ 63 - 2 ^ k"
    using unat_pow2 [OF assms] by (simp add: unat_sub)
  then have "sz > 0x8000000000000000 - 2 ^ k \<longleftrightarrow> 2 ^ 63 < unat sz + 2 ^ k"
    using le by (auto simp: word_less_nat_alt)
  moreover have "is_power_of_two (2 ^ k)" using assms by (auto simp: is_power_of_two_iff)
  ultimately show ?thesis by (simp add: from_size_align_def)
qed

lemma valid_layout_iff:
  "valid_layout l \<longleftrightarrow> (\<exists>k < 64. layout_align l = 2 ^ k \<and> unat (layout_size l) + 2 ^ k \<le> 2 ^ 63)"
proof
  assume l: "valid_layout l"
  then have "is_power_of_two (layout_align l)"
    by (auto simp: valid_layout_def from_size_align_def split: if_splits)
  then obtain k where k: "k < 64" "layout_align l = 2 ^ k" by (auto simp: is_power_of_two_iff)
  then have "unat (layout_size l) + 2 ^ k \<le> 2 ^ 63"
    using l from_size_align_pow2 [OF k(1), of "layout_size l"]
    by (auto simp: valid_layout_def not_less split: if_splits)
  then show "\<exists>k < 64. layout_align l = 2 ^ k \<and> unat (layout_size l) + 2 ^ k \<le> 2 ^ 63" using k by blast
next
  assume "\<exists>k < 64. layout_align l = 2 ^ k \<and> unat (layout_size l) + 2 ^ k \<le> 2 ^ 63"
  then obtain k where k: "k < 64" "layout_align l = 2 ^ k" "unat (layout_size l) + 2 ^ k \<le> 2 ^ 63" by blast
  then show "valid_layout l"
    using from_size_align_pow2 [OF k(1), of "layout_size l"] by (cases l) (auto simp: valid_layout_def)
qed

text \<open>A request the scan works with: a power-of-two alignment of at least 8 that divides the size.\<close>

definition request_ok :: "usize \<Rightarrow> usize \<Rightarrow> bool" where
  "request_ok sz al \<longleftrightarrow> (\<exists>k. 3 \<le> k \<and> k < 64 \<and> al = 2 ^ k) \<and> 16 \<le> unat sz \<and> unat sz mod 8 = 0"

lemma adjusted_size_align_spec:
  assumes "valid_layout l"
  shows "adjusted_size_align l =
    (if 2 ^ 63 < unat (layout_size l) + unat (max (layout_align l) 8) then Inl ExpectFailed
     else Inr (of_nat (max 16 (round_up (unat (layout_size l)) (unat (max (layout_align l) 8)))),
       max (layout_align l) 8))"
proof -
  obtain k where k: "k < 64" "layout_align l = 2 ^ k" "unat (layout_size l) + 2 ^ k \<le> 2 ^ 63"
    using assms by (auto simp: valid_layout_iff)
  define j where "j = max k 3"
  have j: "j < 64" "max (layout_align l) 8 = 2 ^ j"
  proof -
    show "j < 64" using k(1) by (simp add: j_def)
    have "(2 ^ k :: u64) \<le> 8 \<longleftrightarrow> k \<le> 3"
      using unat_pow2 [OF k(1)] power_increasing_iff [of "2 :: nat" k 3] by (simp add: word_le_nat_alt)
    then show "max (layout_align l) 8 = 2 ^ j" by (auto simp: k(2) j_def max_def)
  qed
  show ?thesis
  proof (cases "2 ^ 63 < unat (layout_size l) + 2 ^ j")
    case True
    then show ?thesis
      using from_size_align_pow2 [OF j(1), of "layout_size l"] unat_pow2 [OF j(1)]
      by (simp add: adjusted_size_align_def align_to_def NODE_ALIGN_def j(2))
  next
    case False
    let ?r = "round_up (unat (layout_size l)) (2 ^ j)"
    have up: "unat (align_up (layout_size l) (2 ^ j)) = ?r"
      using False by (intro unat_align_up [OF j(1)]) simp
    then have "?r < 18446744073709551616" by (metis unat_lt64)
    then have "max (align_up (layout_size l) (2 ^ j)) 16 = of_nat (max 16 ?r)"
      using up by (simp add: word_unat_eq_iff max_def word_le_nat_alt)
    then show ?thesis
      using from_size_align_pow2 [OF j(1), of "layout_size l"] unat_pow2 [OF j(1)] False
      by (simp add: adjusted_size_align_def align_to_def NODE_ALIGN_def NODE_SIZE_def j(2) Let_def
          pad_to_align_def flip: align_up_def)
  qed
qed

lemma adjusted_request:
  assumes "valid_layout l" and "adjusted_size_align l = Inr (sz, al)"
  shows "request_ok sz al" and "unat (layout_size l) \<le> unat sz" and "unat (layout_align l) dvd unat al"
    and "unat sz \<le> 2 ^ 63"
proof -
  obtain k where k: "k < 64" "layout_align l = 2 ^ k" "unat (layout_size l) + 2 ^ k \<le> 2 ^ 63"
    using assms(1) by (auto simp: valid_layout_iff)
  define j where "j = max k 3"
  have j: "j < 64" "3 \<le> j" using k(1) by (simp_all add: j_def)
  have "(2 ^ k :: u64) \<le> 8 \<longleftrightarrow> k \<le> 3"
    using unat_pow2 [OF k(1)] power_increasing_iff [of "2 :: nat" k 3] by (simp add: word_le_nat_alt)
  then have mx: "max (layout_align l) 8 = 2 ^ j" by (auto simp: k(2) j_def max_def)
  let ?r = "round_up (unat (layout_size l)) (2 ^ j)"
  note b = round_up_bounds [of "2 ^ j" "unat (layout_size l)"]
  have al: "al = 2 ^ j" and sz': "sz = of_nat (max 16 ?r)" and fit: "unat (layout_size l) + 2 ^ j \<le> 2 ^ 63"
    using assms(2) unat_pow2 [OF j(1)]
    by (auto simp: adjusted_size_align_spec [OF assms(1)] mx split: if_splits)
  have "?r < 2 ^ 63" using b(2) fit by simp
  then have sz: "unat sz = max 16 ?r" unfolding sz' by (intro unat_of_nat64) simp
  have "8 dvd (2 :: nat) ^ j" using j(2) le_imp_power_dvd [of 3 j "2 :: nat"] by simp
  then have "8 dvd ?r" using b(3) dvd_trans by simp
  then show "request_ok sz al" using al j sz by (auto simp: request_ok_def max_def)
  show "unat (layout_size l) \<le> unat sz" using b(1) sz by simp
  have "k \<le> j" by (simp add: j_def)
  then show "unat (layout_align l) dvd unat al"
    using unat_pow2 [OF k(1)] unat_pow2 [OF j(1)] by (simp add: k(2) al le_imp_power_dvd)
  show "unat sz \<le> 2 ^ 63" using \<open>?r < 2 ^ 63\<close> sz by simp
qed

section \<open>Allocation\<close>

text \<open>Where a request would lie in a block, and whether it fits there.\<close>

definition placed :: "usize \<Rightarrow> block \<Rightarrow> nat" where
  "placed al b = round_up (unat (fst b)) (unat al)"

definition fits :: "usize \<Rightarrow> usize \<Rightarrow> block \<Rightarrow> bool" where
  "fits sz al b \<longleftrightarrow> placed al b + unat sz \<le> block_end b"

text \<open>No address of the heap is so close to the top that aligning it would wrap around.\<close>

definition align_safe :: "usize \<Rightarrow> block list \<Rightarrow> bool" where
  "align_safe al bs \<longleftrightarrow> (\<forall>b \<in> set bs. unat (fst b) + unat al \<le> 2 ^ 64)"

lemma placement:
  assumes "request_ok sz al" and "block_ok b" and "unat (fst b) + unat al \<le> 2 ^ 64"
  shows "unat (align_up (fst b) al) = placed al b"
    and "unat (fst b) \<le> placed al b" and "unat al dvd placed al b" and "placed al b mod 8 = 0"
    and "(case checked_add (align_up (fst b) al) sz of None \<Rightarrow> False | Some e \<Rightarrow> e \<le> fst b + snd b)
      \<longleftrightarrow> fits sz al b"
proof -
  obtain k where k: "3 \<le> k" "k < 64" "al = 2 ^ k" using assms(1) by (auto simp: request_ok_def)
  have u: "unat al = 2 ^ k" using unat_pow2 [OF k(2)] k(3) by simp
  show eq: "unat (align_up (fst b) al) = placed al b"
    using unat_align_up [OF k(2), of "fst b"] assms(3) by (simp add: placed_def u k(3)) (simp add: u k(3) unat_pow2 [OF k(2)])
  note b = round_up_bounds [of "2 ^ k" "unat (fst b)"]
  show "unat (fst b) \<le> placed al b" "unat al dvd placed al b" using b by (simp_all add: placed_def u)
  then have "8 dvd placed al b"
    using k(1) u le_imp_power_dvd [of 3 k "2 :: nat"] dvd_trans by fastforce
  then show "placed al b mod 8 = 0" by simp
  have "unat (fst b + snd b) = block_end b"
    using assms(2) by (simp add: block_ok_def block_end_def unat_add_no_wrap)
  then show "(case checked_add (align_up (fst b) al) sz of None \<Rightarrow> False | Some e \<Rightarrow> e \<le> fst b + snd b)
      \<longleftrightarrow> fits sz al b"
    using assms(2) eq
    by (auto simp: checked_add_def fits_def word_le_nat_alt unat_add_no_wrap block_ok_def)
qed

lemma alloc_scan_skip:
  assumes "lseg m p us r" and "\<And>b. b \<in> set us \<Longrightarrow> \<not> fits sz al b" and "align_safe al us"
    and "\<And>b. b \<in> set us \<Longrightarrow> block_ok b" and "request_ok sz al"
  shows "alloc_scan s m sz al prev p
    = alloc_scan s m sz al (if us = [] then prev else NodePtr (fst (last us))) r"
  using assms(1-4)
proof (induction us arbitrary: p prev)
  case (Cons b us)
  have b: "p = fst b" "fst b \<noteq> 0" "m (fst b) = snd b" "lseg m (m (fst b + 8)) us r"
    using Cons.prems(1) by auto
  have "\<not> (case checked_add (align_up (fst b) al) sz of None \<Rightarrow> False | Some e \<Rightarrow> e \<le> fst b + snd b)"
    using placement(5) [OF assms(5), of b] Cons.prems(2-4) by (simp add: align_safe_def)
  then have "alloc_scan s m sz al prev p = alloc_scan s m sz al (NodePtr (fst b)) (m (fst b + 8))"
    using b by (subst alloc_scan.simps) (auto simp: Let_def split: option.splits)
  also have "\<dots> = alloc_scan s m sz al (if us = [] then NodePtr (fst b) else NodePtr (fst (last us))) r"
    using Cons.prems(2-4) by (intro Cons.IH [OF b(4)]) (auto simp: align_safe_def)
  finally show ?case by simp
qed simp

lemma alloc_scan_none:
  assumes "heap_rep s m bs" and "\<And>b. b \<in> set bs \<Longrightarrow> \<not> fits sz al b" and "align_safe al bs"
    and "request_ok sz al"
  shows "alloc_scan s m sz al HeadPtr (node_next (head s)) = Some (Inr (0, s, m))"
proof -
  have "alloc_scan s m sz al HeadPtr (node_next (head s))
      = alloc_scan s m sz al (if bs = [] then HeadPtr else NodePtr (fst (last bs))) 0"
    using assms by (intro alloc_scan_skip) (auto simp: heap_rep_def dest: blocks_okD)
  then show ?thesis by (simp add: alloc_scan.simps)
qed

lemma unlink_node:
  assumes rep: "heap_rep s m (xs @ b # vs)" and set: "set_next s m (last_ptr xs) (m (fst b + 8)) = (s', m')"
  shows "heap_rep s' m' (xs @ vs)" and "\<And>x. unat x \<notin> free_bytes xs \<Longrightarrow> m' x = m x"
proof -
  have ok: "blocks_ok (xs @ b # vs)" and seg: "lseg m (node_next (head s)) xs (fst b)"
    "lseg m (m (fst b + 8)) vs 0"
    using rep by (auto simp: heap_rep_def lseg_append)
  have xs: "blocks_ok xs" "\<And>c. c \<in> set vs \<Longrightarrow> block_ok c"
    using ok by (auto simp: blocks_ok_append blocks_ok_Cons dest: blocks_okD)
  note s' = set_next_last_ptr [OF seg(1) xs(1) set]
  show "\<And>x. unat x \<notin> free_bytes xs \<Longrightarrow> m' x = m x" by (rule s'(2))
  have "m' x = m x" if "unat x \<in> free_bytes vs" for x
    using s'(2) that free_bytes_disjoint(3) [OF ok] by blast
  then have "lseg m' (m (fst b + 8)) vs 0" using seg(2) lseg_cong [OF xs(2), of vs m' m] by simp
  moreover have "blocks_ok (xs @ vs)" using ok by (auto simp: blocks_ok_append blocks_ok_Cons)
  ultimately show "heap_rep s' m' (xs @ vs)" using s'(1) by (auto simp: heap_rep_def lseg_append)
qed

text \<open>A leftover edge goes back to the list when it can hold a node, and is lost otherwise.\<close>

definition kept_gap :: "nat \<Rightarrow> nat \<Rightarrow> nat set" where
  "kept_gap a b = (if a + 16 \<le> b then {a..<b} else {})"

lemma add_gap:
  assumes rep: "heap_rep s m bs" and g: "unat g = b - unat a" "unat a \<le> b" "b < 2 ^ 64"
    and a: "a \<noteq> 0" "unat a mod 8 = 0" and dj: "{unat a..<b} \<inter> free_bytes bs = {}"
  obtains s' m' bs' where
    "(if g \<ge> NODE_SIZE then add_free_region s m a g else Some (Inr (s, m))) = Some (Inr (s', m'))"
    and "heap_rep s' m' bs'" and "free_bytes bs' = free_bytes bs \<union> kept_gap (unat a) b"
    and "\<And>x. unat x \<notin> free_bytes bs' \<Longrightarrow> m' x = m x"
proof (cases "unat a + 16 \<le> b")
  case True
  have ok: "block_ok (a, g)" using a g True by (simp add: block_ok_def block_end_def)
  have sp: "span (a, g) = {unat a..<b}" using g by (simp add: span_def)
  obtain s' m' bs' where r: "add_free_region s m a g = Some (Inr (s', m'))" "region_added m bs (a, g) s' m' bs'"
    using add_free_region_spec [OF rep ok] dj sp by metis
  have "g \<ge> NODE_SIZE" using True g by (simp add: NODE_SIZE_def word_le_nat_alt)
  then show thesis
    using that [of s' m' bs'] r True sp by (simp add: region_added_def kept_gap_def)
next
  case False
  then have "\<not> g \<ge> NODE_SIZE" using g by (simp add: NODE_SIZE_def word_le_nat_alt)
  then show thesis using that [of s m bs] rep False by (simp add: kept_gap_def)
qed

definition carved :: "qmem \<Rightarrow> block list \<Rightarrow> usize \<Rightarrow> usize \<Rightarrow> block \<Rightarrow> qmem \<Rightarrow> block list \<Rightarrow> bool" where
  "carved m bs sz al b m' bs' \<longleftrightarrow>
     free_bytes bs' = (free_bytes bs - span b) \<union> kept_gap (unat (fst b)) (placed al b)
       \<union> kept_gap (placed al b + unat sz) (block_end b)
     \<and> (\<forall>x. unat x \<notin> free_bytes bs \<longrightarrow> m' x = m x)"

lemma fit_facts:
  assumes b: "block_ok b" and fit: "fits sz al b" and req: "request_ok sz al"
    and safe: "unat (fst b) + unat al \<le> 2 ^ 64"
  defines "st \<equiv> align_up (fst b) al" and "e \<equiv> align_up (fst b) al + sz"
  shows "unat st = placed al b" and "unat e = placed al b + unat sz"
    and "checked_add st sz = Some e" and "e \<le> fst b + snd b"
    and "unat (st - fst b) = placed al b - unat (fst b)"
    and "unat (fst b + snd b - e) = block_end b - unat e"
    and "unat (fst b) \<le> placed al b" and "unat e \<le> block_end b"
    and "placed al b < 2 ^ 64" and "block_end b < 2 ^ 64" and "unat e mod 8 = 0" and "e \<noteq> 0"
proof -
  note pl = placement [OF req b safe]
  show st: "unat st = placed al b" using pl(1) by (simp add: st_def)
  show e: "unat e = placed al b + unat sz" "checked_add st sz = Some e"
    and le: "e \<le> fst b + snd b"
    using fit b st by (auto simp: e_def st_def fits_def block_ok_def block_end_def unat_add_no_wrap
        checked_add_def word_le_nat_alt)
  have en: "unat (fst b + snd b) = block_end b"
    using b by (simp add: block_ok_def block_end_def unat_add_no_wrap)
  show "unat (st - fst b) = placed al b - unat (fst b)"
    "unat (fst b + snd b - e) = block_end b - unat e"
    using pl(2) st le en by (simp_all add: unat_sub word_le_nat_alt)
  show "block_end b < 2 ^ 64" "unat e \<le> block_end b" "unat (fst b) \<le> placed al b"
    using le en b pl(2) by (auto simp: block_ok_def word_le_nat_alt)
  then show "placed al b < 2 ^ 64" using e(1) by simp
  show "unat e mod 8 = 0" "e \<noteq> 0"
    using pl(4) req e(1) by (auto simp: request_ok_def mod_add_eq [of _ 8, symmetric] word_unat_eq_iff)
qed

lemma carved_frame:
  assumes ok: "blocks_ok (xs @ b # vs)"
    and b1: "free_bytes bs1 = free_bytes (xs @ vs) \<union> kept_gap (unat (fst b)) (placed al b)"
    and b2: "free_bytes bs2 = free_bytes bs1 \<union> kept_gap (placed al b + unat sz) (block_end b)"
    and m: "\<And>x. unat x \<notin> free_bytes xs \<Longrightarrow> m1 x = m x"
      "\<And>x. unat x \<notin> free_bytes bs1 \<Longrightarrow> m2 x = m1 x" "\<And>x. unat x \<notin> free_bytes bs2 \<Longrightarrow> m3 x = m2 x"
    and le: "unat (fst b) \<le> placed al b" "placed al b + unat sz \<le> block_end b"
  shows "carved m (xs @ b # vs) sz al b m3 bs2"
proof -
  have sp: "kept_gap (unat (fst b)) (placed al b) \<subseteq> span b"
    "kept_gap (placed al b + unat sz) (block_end b) \<subseteq> span b"
    using le by (auto simp: kept_gap_def span_def block_end_def)
  have "free_bytes (xs @ b # vs) - span b = free_bytes (xs @ vs)"
    using free_bytes_disjoint(1,2) [OF ok] by auto
  moreover have "m3 x = m x" if "unat x \<notin> free_bytes (xs @ b # vs)" for x
  proof -
    have "unat x \<notin> free_bytes bs2" "unat x \<notin> free_bytes bs1" "unat x \<notin> free_bytes xs"
      using that sp by (auto simp: b1 b2)
    then show ?thesis using m by simp
  qed
  ultimately show ?thesis by (auto simp: carved_def b1 b2)
qed

lemma alloc_scan_fit:
  assumes rep: "heap_rep s m (xs @ b # vs)" and fit: "fits sz al b" and req: "request_ok sz al"
    and safe: "unat (fst b) + unat al \<le> 2 ^ 64"
  obtains s' m' bs' where
    "alloc_scan s m sz al (last_ptr xs) (fst b) = Some (Inr (align_up (fst b) al, s', m'))"
    and "heap_rep s' m' bs'" and "carved m (xs @ b # vs) sz al b m' bs'"
proof -
  have ok: "blocks_ok (xs @ b # vs)" and b: "block_ok b" "m (fst b) = snd b" "fst b \<noteq> 0"
    using rep by (auto simp: heap_rep_def lseg_append blocks_ok_append blocks_ok_Cons)
  note f = fit_facts [OF b(1) fit req safe]
  define st e where "st = align_up (fst b) al" and "e = align_up (fst b) al + sz"
  note f = f [folded st_def e_def]
  have span: "span b = {unat (fst b)..<block_end b}" by (simp add: span_def block_end_def)
  obtain s1 m1 where u: "set_next s m (last_ptr xs) (m (fst b + 8)) = (s1, m1)" by force
  note un = unlink_node [OF rep u]
  have out: "span b \<inter> free_bytes (xs @ vs) = {}" using free_bytes_disjoint(1,2) [OF ok] by auto
  obtain s2 m2 bs2 where g1: "(if st - fst b \<ge> NODE_SIZE then add_free_region s1 m1 (fst b) (st - fst b)
      else Some (Inr (s1, m1))) = Some (Inr (s2, m2))" "heap_rep s2 m2 bs2"
    "free_bytes bs2 = free_bytes (xs @ vs) \<union> kept_gap (unat (fst b)) (placed al b)"
    "\<And>x. unat x \<notin> free_bytes bs2 \<Longrightarrow> m2 x = m1 x"
  proof (rule add_gap [OF un(1) f(5,7,9) b(3)])
    show "unat (fst b) mod 8 = 0" using b(1) by (simp add: block_ok_def)
    have "placed al b \<le> block_end b" using f(2,8) by simp
    then have "{unat (fst b)..<placed al b} \<subseteq> span b" by (auto simp: span)
    then show "{unat (fst b)..<placed al b} \<inter> free_bytes (xs @ vs) = {}" using out by blast
  qed blast
  obtain s3 m3 bs3 where g2: "(if fst b + snd b - e \<ge> NODE_SIZE then add_free_region s2 m2 e (fst b + snd b - e)
      else Some (Inr (s2, m2))) = Some (Inr (s3, m3))" "heap_rep s3 m3 bs3"
    "free_bytes bs3 = free_bytes bs2 \<union> kept_gap (unat e) (block_end b)"
    "\<And>x. unat x \<notin> free_bytes bs3 \<Longrightarrow> m3 x = m2 x"
  proof (rule add_gap [OF g1(2) f(6,8,10,12,11)])
    have "{unat e..<block_end b} \<subseteq> span b" using f(2,7) by (auto simp: span)
    moreover have "kept_gap (unat (fst b)) (placed al b) \<subseteq> {..<unat e}"
      using f(2) by (auto simp: kept_gap_def)
    ultimately show "{unat e..<block_end b} \<inter> free_bytes bs2 = {}" using out g1(3) by fastforce
  qed blast
  have "alloc_scan s m sz al (last_ptr xs) (fst b) = Some (Inr (st, s3, m3))"
    using b(2,3) f(3,4) u g1(1) g2(1)
    by (subst alloc_scan.simps) (simp add: Let_def bindR_def flip: st_def)
  moreover have "carved m (xs @ b # vs) sz al b m3 bs3"
    by (rule carved_frame [OF ok g1(3) g2(3) [unfolded f(2)] un(2) g1(4) g2(4)]) (use f in simp_all)
  ultimately show thesis using that [of s3 m3 bs3] g2(2) by (simp add: st_def)
qed

text \<open>The first block that fits, if there is one, decides the result.\<close>

lemma alloc_scan_spec:
  assumes rep: "heap_rep s m bs" and safe: "align_safe al bs" and req: "request_ok sz al"
  obtains (none) "\<forall>b \<in> set bs. \<not> fits sz al b"
      "alloc_scan s m sz al HeadPtr (node_next (head s)) = Some (Inr (0, s, m))"
  | (some) xs b vs s' m' bs' where "bs = xs @ b # vs" "fits sz al b" "\<forall>c \<in> set xs. \<not> fits sz al c"
      "alloc_scan s m sz al HeadPtr (node_next (head s)) = Some (Inr (align_up (fst b) al, s', m'))"
      "heap_rep s' m' bs'" "carved m bs sz al b m' bs'"
proof (cases "\<forall>b \<in> set bs. \<not> fits sz al b")
  case True
  then show thesis using none alloc_scan_none [OF rep _ safe req] by simp
next
  case False
  then obtain xs b vs where bs: "bs = xs @ b # vs" "fits sz al b" "\<forall>c \<in> set xs. \<not> fits sz al c"
    using split_list_first_prop [of bs "fits sz al"] by blast
  have seg: "lseg m (node_next (head s)) xs (fst b)" using rep by (auto simp: heap_rep_def bs(1) lseg_append)
  have "alloc_scan s m sz al HeadPtr (node_next (head s)) = alloc_scan s m sz al (last_ptr xs) (fst b)"
    unfolding last_ptr_def using bs safe req rep
    by (intro alloc_scan_skip [OF seg]) (auto simp: align_safe_def heap_rep_def dest: blocks_okD)
  moreover obtain s' m' bs' where
    "alloc_scan s m sz al (last_ptr xs) (fst b) = Some (Inr (align_up (fst b) al, s', m'))"
    "heap_rep s' m' bs'" "carved m bs sz al b m' bs'"
    using alloc_scan_fit [OF _ bs(2) req, of s m xs vs] rep safe by (auto simp: bs(1) align_safe_def)
  ultimately show thesis using some [OF bs] by simp
qed

end
