(* ===== verification/Free_Store.thy ===== *)
theory Free_Store
  imports Linked_List_Allocator
begin

unbundle bit_operations_syntax

text \<open>
  What the free-list allocator promises to its users, stated without its list: a set of free
  bytes that grows when a region is added and shrinks when a block is taken. The locale
  \<open>free_store\<close> names the laws and proves what the kernel heap relies on; the allocator of
  \<open>mm/linked_list_allocator.rs\<close> is an instance. Runs of the allocator together with the owners of
  its blocks are a step relation whose invariant is that no two owners share a byte.
\<close>

section \<open>The free bytes determine the list\<close>

lemma blocks_apart:
  assumes "blocks_ok bs" and "b \<in> set bs" and "c \<in> set bs" and "b \<noteq> c"
  shows "block_end b < unat (fst c) \<or> block_end c < unat (fst b)"
proof -
  obtain xs ys where bs: "bs = xs @ b # ys" using split_list [OF assms(2)] by blast
  then have "c \<in> set xs \<or> c \<in> set ys" using assms(3,4) by auto
  then show ?thesis using assms(1) by (auto simp: bs blocks_ok_append blocks_ok_Cons)
qed

lemma interval_in_block:
  assumes ok: "blocks_ok bs" and sub: "{st..<st + k} \<subseteq> free_bytes bs" and k: "0 < k"
  shows "\<exists>b \<in> set bs. {st..<st + k} \<subseteq> span b"
proof -
  have "st \<in> free_bytes bs" using sub k by auto
  then obtain b where b: "b \<in> set bs" "st \<in> span b" by (auto simp: free_bytes_def)
  have "st + k \<le> block_end b"
  proof (rule ccontr)
    assume "\<not> st + k \<le> block_end b"
    then have "block_end b \<in> {st..<st + k}" using b(2) by (auto simp: span_def block_end_def)
    then obtain c where c: "c \<in> set bs" "block_end b \<in> span c" using sub by (auto simp: free_bytes_def)
    moreover have "c \<noteq> b" using c(2) by (auto simp: span_def block_end_def)
    ultimately show False
      using blocks_apart [OF ok b(1) c(1)] b(2) by (auto simp: span_def block_end_def)
  qed
  then show ?thesis using b by (intro bexI [of _ b]) (auto simp: span_def block_end_def)
qed

lemma free_bytes_Min:
  assumes "blocks_ok (b # bs)"
  shows "Min (free_bytes (b # bs)) = unat (fst b)"
proof (rule Min_eqI)
  show "finite (free_bytes (b # bs))" by (auto simp: free_bytes_def span_def)
  show "unat (fst b) \<in> free_bytes (b # bs)"
    using cells_in_span(1) [of b] assms by (simp add: blocks_ok_Cons)
  show "unat (fst b) \<le> x" if "x \<in> free_bytes (b # bs)" for x
    using that assms by (fastforce simp: blocks_ok_Cons free_bytes_def span_def block_end_def)
qed

lemma blocks_determined:
  "blocks_ok bs \<Longrightarrow> blocks_ok cs \<Longrightarrow> free_bytes bs = free_bytes cs \<Longrightarrow> bs = cs"
proof (induction bs arbitrary: cs)
  case Nil
  then have "span c = {}" if "c \<in> set cs" for c using that by (auto simp: free_bytes_def)
  then show ?case using cells_in_span(1) [of "hd cs"] Nil.prems(2) by (cases cs) (auto simp: blocks_ok_Cons)
next
  case (Cons b bs)
  have "span b \<noteq> {}" using cells_in_span(1) [of b] Cons.prems(1) by (auto simp: blocks_ok_Cons)
  then obtain c cs' where cs: "cs = c # cs'" using Cons.prems(3) by (cases cs) auto
  have first: "fst b = fst c"
    using free_bytes_Min [OF Cons.prems(1)] free_bytes_Min [of c cs'] Cons.prems(2,3)
    by (simp add: cs word_unat_eq_iff)
  have within: "block_end x \<le> block_end y"
    if x: "blocks_ok (x # xs)" and y: "blocks_ok (y # ys)" and eq: "free_bytes (x # xs) = free_bytes (y # ys)"
      and f: "fst x = fst y" for x y :: block and xs ys
  proof -
    have xo: "block_ok x" using x by (simp add: blocks_ok_Cons)
    have "{unat (fst x)..<unat (fst x) + unat (snd x)} \<subseteq> free_bytes (y # ys)"
      using eq by (auto simp: span_def)
    moreover have pos: "0 < unat (snd x)" using xo by (simp add: block_ok_def)
    ultimately obtain z where z: "z \<in> set (y # ys)" "{unat (fst x)..<unat (fst x) + unat (snd x)} \<subseteq> span z"
      using interval_in_block [OF y] by blast
    have "unat (fst x) \<in> {unat (fst x)..<unat (fst x) + unat (snd x)}" using pos by simp
    then have "unat (fst y) \<in> span z" using z(2) f by auto
    then have "z = y" using z(1) y by (auto simp: blocks_ok_Cons span_def block_end_def)
    moreover have "unat (fst x) + unat (snd x) - 1 \<in> span z" using z(2) pos by auto
    ultimately have "unat (fst x) + unat (snd x) - 1 < unat (fst y) + unat (snd y)" by (simp add: span_def)
    then show ?thesis using pos unfolding block_end_def by linarith
  qed
  have "block_end b = block_end c"
    using within [OF Cons.prems(1), of c cs'] within [of c cs' b bs] Cons.prems first by (simp add: cs)
  then have "b = c" using first by (auto simp: prod_eq_iff block_end_def word_unat_eq_iff)
  moreover have "free_bytes bs = free_bytes cs'"
  proof -
    have "span b \<inter> free_bytes bs = {}" "span c \<inter> free_bytes cs' = {}"
      using free_bytes_disjoint(2) [of "[]" b bs] free_bytes_disjoint(2) [of "[]" c cs'] Cons.prems(1,2)
      by (simp_all add: cs)
    then show ?thesis using Cons.prems(3) \<open>b = c\<close> by (auto simp: cs)
  qed
  ultimately show ?case using Cons by (simp add: cs blocks_ok_Cons)
qed

section \<open>Requests\<close>

definition boundary :: "layout \<Rightarrow> nat" where
  "boundary l = max (unat (layout_align l)) 8"

definition extent :: "layout \<Rightarrow> nat" where
  "extent l = max 16 (round_up (unat (layout_size l)) (boundary l))"

text \<open>The requests the allocator accepts: the others make it panic.\<close>

definition servable :: "layout \<Rightarrow> bool" where
  "servable l \<longleftrightarrow> valid_layout l \<and> unat (layout_size l) + boundary l \<le> 2 ^ 63"

text \<open>Rounding a free address up to the alignment does not wrap around.\<close>

definition align_room :: "layout \<Rightarrow> nat set \<Rightarrow> bool" where
  "align_room l F \<longleftrightarrow> (\<forall>x \<in> F. x + boundary l \<le> 2 ^ 64)"

definition room_for :: "layout \<Rightarrow> nat set \<Rightarrow> nat \<Rightarrow> bool" where
  "room_for l F st \<longleftrightarrow> boundary l dvd st \<and> {st..<st + extent l} \<subseteq> F"

definition block_bytes :: "u64 \<Rightarrow> layout \<Rightarrow> nat set" where
  "block_bytes p l = {unat p..<unat p + extent l}"

lemma unat_max: "unat (max a b) = max (unat a) (unat b)"
  by (simp add: max_def word_le_nat_alt)

lemma adjusted_servable:
  assumes "servable l"
  shows "\<exists>sz al. adjusted_size_align l = Inr (sz, al) \<and> request_ok sz al
    \<and> unat sz = extent l \<and> unat al = boundary l"
proof -
  have v: "valid_layout l" "\<not> 2 ^ 63 < unat (layout_size l) + unat (max (layout_align l) 8)"
    using assms by (simp_all add: servable_def boundary_def unat_max)
  have b: "unat (max (layout_align l) 8) = boundary l" by (simp add: boundary_def unat_max)
  have a: "adjusted_size_align l = Inr (of_nat (extent l), max (layout_align l) 8)"
    using adjusted_size_align_spec [OF v(1)] v(2) by (simp add: extent_def b)
  have "round_up (unat (layout_size l)) (boundary l) < unat (layout_size l) + boundary l"
    by (rule round_up_bounds) (simp add: boundary_def)
  then have "extent l < 18446744073709551616" using assms by (simp add: extent_def servable_def)
  then have "unat (of_nat (extent l) :: usize) = extent l" by (rule unat_of_nat64)
  then show ?thesis
    using a b adjusted_request(1) [OF v(1) a] by blast
qed

lemma adjusted_not_servable:
  "valid_layout l \<Longrightarrow> \<not> servable l \<Longrightarrow> adjusted_size_align l = Inl ExpectFailed"
  by (simp add: adjusted_size_align_spec servable_def boundary_def unat_max)

lemma servable_facts:
  assumes "servable l"
  shows "16 \<le> extent l" and "extent l mod 8 = 0" and "8 \<le> boundary l" and "boundary l mod 8 = 0"
    and "unat (layout_size l) \<le> extent l" and "unat (layout_align l) dvd boundary l"
proof -
  obtain sz al where a: "adjusted_size_align l = Inr (sz, al)" "request_ok sz al"
    "unat sz = extent l" "unat al = boundary l" using adjusted_servable [OF assms] by blast
  then obtain k where k: "3 \<le> k" "k < 64" "al = 2 ^ k" by (auto simp: request_ok_def)
  then have "boundary l = 2 ^ k" using a(4) unat_pow2 by simp
  moreover have "(8 :: nat) dvd 2 ^ k" using k(1) le_imp_power_dvd [of 3 k "2 :: nat"] by simp
  ultimately show "boundary l mod 8 = 0" by simp
  show "16 \<le> extent l" "extent l mod 8 = 0" using a(2,3) by (auto simp: request_ok_def)
  show "8 \<le> boundary l" by (simp add: boundary_def)
  have v: "valid_layout l" using assms by (simp add: servable_def)
  show "unat (layout_size l) \<le> extent l" "unat (layout_align l) dvd boundary l"
    using adjusted_request [OF v a(1)] a(3,4) by simp_all
qed

section \<open>First fit is lowest fit\<close>

lemma room_iff_fits:
  assumes ok: "blocks_ok bs" and u: "unat sz = extent l" "unat al = boundary l" and l: "servable l"
  shows "room_for l (free_bytes bs) st \<Longrightarrow>
      \<exists>b \<in> set bs. fits sz al b \<and> placed al b \<le> st \<and> unat (fst b) \<le> st"
    and "b \<in> set bs \<Longrightarrow> fits sz al b \<Longrightarrow> room_for l (free_bytes bs) (placed al b)"
proof -
  have pos: "0 < boundary l" "0 < extent l" using servable_facts [OF l] by simp_all
  {
    assume r: "room_for l (free_bytes bs) st"
    then have "{st..<st + extent l} \<subseteq> free_bytes bs" by (simp add: room_for_def)
    then obtain b where b: "b \<in> set bs" "{st..<st + extent l} \<subseteq> span b"
      using interval_in_block [OF ok _ pos(2)] by blast
    have "st \<in> span b" "st + extent l - 1 \<in> span b" using b(2) pos(2) by auto
    then have le: "unat (fst b) \<le> st" "st + extent l \<le> block_end b"
      using pos(2) by (auto simp: span_def block_end_def)
    have "placed al b \<le> st"
      using le(1) r unfolding placed_def u by (intro round_up_least) (simp_all add: room_for_def)
    then show "\<exists>b \<in> set bs. fits sz al b \<and> placed al b \<le> st \<and> unat (fst b) \<le> st"
      using b(1) le by (intro bexI [of _ b]) (simp_all add: fits_def u)
  next
    assume b: "b \<in> set bs" "fits sz al b"
    have "unat (fst b) \<le> placed al b" "boundary l dvd placed al b"
      using round_up_bounds [OF pos(1), of "unat (fst b)"] by (simp_all add: placed_def u)
    moreover have "{placed al b..<placed al b + extent l} \<subseteq> span b"
      using b(2) calculation(1) by (auto simp: fits_def u span_def block_end_def)
    ultimately show "room_for l (free_bytes bs) (placed al b)"
      using b(1) by (auto simp: room_for_def free_bytes_def)
  }
qed

lemma first_fit_lowest:
  assumes ok: "blocks_ok (xs @ b # vs)" and u: "unat sz = extent l" "unat al = boundary l"
    and l: "servable l" and fit: "fits sz al b" and first: "\<forall>c \<in> set xs. \<not> fits sz al c"
    and st: "room_for l (free_bytes (xs @ b # vs)) st"
  shows "placed al b \<le> st"
proof -
  obtain c where c: "c \<in> set (xs @ b # vs)" "fits sz al c" "placed al c \<le> st" "unat (fst c) \<le> st"
    using room_iff_fits(1) [OF ok u l st] by blast
  then consider "c = b" | "c \<in> set vs" using first by auto
  then show ?thesis
  proof cases
    case 2
    then have "block_end b < unat (fst c)" using ok by (auto simp: blocks_ok_append blocks_ok_Cons)
    moreover have "placed al b \<le> block_end b" using fit by (simp add: fits_def)
    ultimately show ?thesis using c(4) by linarith
  qed (use c in simp)
qed

section \<open>The allocator as a store of free bytes\<close>

text \<open>
  What the users of the allocator rely on, in terms of the set \<open>F\<close> of bytes that are free.
  Adding a region makes its bytes free. Allocation takes the lowest aligned place whose bytes
  are all free, and returns null if there is none; it may lose up to 15 bytes on either side.
  Neither touches a byte outside the free ones.
\<close>

definition region_ok :: "u64 \<Rightarrow> nat \<Rightarrow> bool" where
  "region_ok a n \<longleftrightarrow> a \<noteq> 0 \<and> unat a mod 8 = 0 \<and> 16 \<le> n \<and> unat a + n < 2 ^ 64"

definition same_outside :: "nat set \<Rightarrow> qmem \<Rightarrow> qmem \<Rightarrow> bool" where
  "same_outside F m m' \<longleftrightarrow> (\<forall>x. unat x \<notin> F \<longrightarrow> m' x = m x)"

text \<open>The null pointer, or the lowest place there is.\<close>

definition lowest_room :: "layout \<Rightarrow> nat set \<Rightarrow> u64 \<Rightarrow> bool" where
  "lowest_room l F p \<longleftrightarrow>
     (if p = 0 then \<not> (\<exists>st. room_for l F st)
      else room_for l F (unat p) \<and> (\<forall>st. room_for l F st \<longrightarrow> unat p \<le> st))"

definition taken :: "layout \<Rightarrow> nat set \<Rightarrow> u64 \<Rightarrow> nat set \<Rightarrow> bool" where
  "taken l F p F' \<longleftrightarrow>
     (if p = 0 then F' = F
      else F' \<subseteq> F - block_bytes p l \<and> F \<subseteq> F' \<union> {unat p - 8..<unat p + extent l + 15})"

locale free_store =
  fixes rep :: "'s \<Rightarrow> qmem \<Rightarrow> nat set \<Rightarrow> bool"
    and add :: "'s \<Rightarrow> qmem \<Rightarrow> usize \<Rightarrow> usize \<Rightarrow> ('s \<times> qmem) run"
    and alloc :: "'s \<Rightarrow> qmem \<Rightarrow> layout \<Rightarrow> (u64 \<times> 's \<times> qmem) run"
    and dealloc :: "'s \<Rightarrow> qmem \<Rightarrow> u64 \<Rightarrow> layout \<Rightarrow> ('s \<times> qmem) run"
  assumes add_law: "rep s m F \<Longrightarrow> region_ok a (unat n) \<Longrightarrow> {unat a..<unat a + unat n} \<inter> F = {} \<Longrightarrow>
      \<exists>s' m'. add s m a n = Some (Inr (s', m')) \<and> rep s' m' (F \<union> {unat a..<unat a + unat n})
        \<and> same_outside (F \<union> {unat a..<unat a + unat n}) m m'"
    and alloc_law: "rep s m F \<Longrightarrow> servable l \<Longrightarrow> align_room l F \<Longrightarrow>
      \<exists>p s' m' F'. alloc s m l = Some (Inr (p, s', m')) \<and> rep s' m' F' \<and> lowest_room l F p
        \<and> taken l F p F' \<and> same_outside F m m'"
    and dealloc_law: "rep s m F \<Longrightarrow> servable l \<Longrightarrow> region_ok p (extent l) \<Longrightarrow> block_bytes p l \<inter> F = {} \<Longrightarrow>
      \<exists>s' m'. dealloc s m p l = Some (Inr (s', m')) \<and> rep s' m' (F \<union> block_bytes p l)
        \<and> same_outside (F \<union> block_bytes p l) m m'"
    and rep_bound: "rep s m F \<Longrightarrow> x \<in> F \<Longrightarrow> 0 < x \<and> x < 2 ^ 64"
begin

text \<open>The blocks handed out and not yet given back.\<close>

lemma granted_region_ok:
  assumes "rep s m F" and "servable l" and "lowest_room l F p" and "p \<noteq> 0"
    and below: "\<And>x. x \<in> F \<Longrightarrow> x + 1 < 2 ^ 64"
  shows "region_ok p (extent l)" and "block_bytes p l \<subseteq> F" and "boundary l dvd unat p"
proof -
  have r: "boundary l dvd unat p" "{unat p..<unat p + extent l} \<subseteq> F"
    using assms(3,4) by (simp_all add: lowest_room_def room_for_def)
  note f = servable_facts [OF assms(2)]
  have "unat p + extent l - 1 \<in> F" using r(2) f(1) by auto
  then have "unat p + extent l < 2 ^ 64" using below f(1) by fastforce
  moreover have "unat p mod 8 = 0" using r(1) f(4) by (metis dvd_eq_mod_eq_0 dvd_trans)
  ultimately show "region_ok p (extent l)" using assms(4) f(1) by (simp add: region_ok_def)
  show "block_bytes p l \<subseteq> F" "boundary l dvd unat p" using r by (simp_all add: block_bytes_def)
qed

text \<open>After a region is added, a request that fits in it is served.\<close>

lemma alloc_after_add:
  assumes rep: "rep s m F" and a: "region_ok a (unat n)" "{unat a..<unat a + unat n} \<inter> F = {}"
    and l: "servable l" "align_room l (F \<union> {unat a..<unat a + unat n})"
    and fit: "boundary l dvd unat a" "extent l \<le> unat n"
  obtains s1 m1 p s2 m2 F' where "add s m a n = Some (Inr (s1, m1))"
    and "alloc s1 m1 l = Some (Inr (p, s2, m2))" and "rep s2 m2 F'" and "p \<noteq> 0"
    and "lowest_room l (F \<union> {unat a..<unat a + unat n}) p"
    and "taken l (F \<union> {unat a..<unat a + unat n}) p F'"
    and "same_outside (F \<union> {unat a..<unat a + unat n}) m m2"
proof -
  let ?F = "F \<union> {unat a..<unat a + unat n}"
  obtain s1 m1 where s1: "add s m a n = Some (Inr (s1, m1))" "rep s1 m1 ?F" "same_outside ?F m m1"
    using add_law [OF rep a] by blast
  obtain p s2 m2 F' where s2: "alloc s1 m1 l = Some (Inr (p, s2, m2))" "rep s2 m2 F'"
    "lowest_room l ?F p" "taken l ?F p F'" "same_outside ?F m1 m2"
    using alloc_law [OF s1(2) l] by blast
  have "room_for l ?F (unat a)" using fit by (auto simp: room_for_def)
  then have "p \<noteq> 0" using s2(3) by (auto simp: lowest_room_def)
  moreover have "same_outside ?F m m2" using s1(3) s2(5) by (simp add: same_outside_def)
  ultimately show thesis using that s1(1) s2 by blast
qed

text \<open>Giving a block back right away restores all that was free but the lost edges.\<close>

lemma alloc_dealloc:
  assumes rep: "rep s m F" and l: "servable l" "align_room l F"
    and al: "alloc s m l = Some (Inr (p, s1, m1))" and p: "p \<noteq> 0"
  obtains F' s2 m2 where "rep s1 m1 F'" and "taken l F p F'"
    and "dealloc s1 m1 p l = Some (Inr (s2, m2))" and "rep s2 m2 (F' \<union> block_bytes p l)"
    and "same_outside F m m2"
proof -
  obtain F' where F': "rep s1 m1 F'" "lowest_room l F p" "taken l F p F'" "same_outside F m m1"
    using alloc_law [OF rep l] al by auto
  have below: "x + 1 < 2 ^ 64" if "x \<in> F" for x
    using l that servable_facts(3) [OF l(1)] by (fastforce simp: align_room_def)
  note g = granted_region_ok [OF rep l(1) F'(2) p below]
  have sub: "F' \<subseteq> F" "block_bytes p l \<inter> F' = {}" using F'(3) p by (auto simp: taken_def)
  obtain s2 m2 where s2: "dealloc s1 m1 p l = Some (Inr (s2, m2))" "rep s2 m2 (F' \<union> block_bytes p l)"
    "same_outside (F' \<union> block_bytes p l) m1 m2"
    using dealloc_law [OF F'(1) l(1) g(1) sub(2)] by blast
  have "same_outside F m m2" using F'(4) s2(3) sub(1) g(2) by (auto simp: same_outside_def)
  then show thesis using that F'(1,3) s2(1,2) by blast
qed

end

section \<open>The free list implements it\<close>

definition free_rep :: "linked_list_allocator \<Rightarrow> qmem \<Rightarrow> nat set \<Rightarrow> bool" where
  "free_rep s m F \<longleftrightarrow> (\<exists>bs. heap_rep s m bs \<and> free_bytes bs = F)"

lemma free_rep_add:
  assumes rep: "free_rep s m F" and ok: "region_ok a (unat n)"
    and dj: "{unat a..<unat a + unat n} \<inter> F = {}"
  shows "\<exists>s' m'. add_free_region s m a n = Some (Inr (s', m')) \<and> free_rep s' m' (F \<union> {unat a..<unat a + unat n})
    \<and> same_outside (F \<union> {unat a..<unat a + unat n}) m m'"
proof -
  obtain bs where bs: "heap_rep s m bs" "free_bytes bs = F" using rep by (auto simp: free_rep_def)
  have b: "block_ok (a, n)" "span (a, n) \<inter> free_bytes bs = {}"
    using ok dj bs(2) by (simp_all add: region_ok_def block_ok_def block_end_def span_def)
  obtain s' m' bs' where "add_free_region s m a n = Some (Inr (s', m'))" "region_added m bs (a, n) s' m' bs'"
    using add_free_region_spec [OF bs(1) b] by metis
  then show ?thesis
    using bs(2) by (auto simp: region_added_def free_rep_def same_outside_def span_def)
qed

lemma carved_taken:
  assumes ok: "blocks_ok bs" and b: "b \<in> set bs" and fit: "fits sz al b" and req: "request_ok sz al"
    and safe: "unat (fst b) + unat al \<le> 2 ^ 64" and u: "unat sz = extent l" "unat al = boundary l"
    and c: "carved m bs sz al b m' bs'"
  shows "taken l (free_bytes bs) (align_up (fst b) al) (free_bytes bs')"
    and "align_up (fst b) al \<noteq> 0"
proof -
  have bok: "block_ok b" using ok b by (rule blocks_okD)
  note f = fit_facts [OF bok fit req safe] and pl = placement [OF req bok safe]
  have sp: "span b = {unat (fst b)..<block_end b}" "span b \<subseteq> free_bytes bs"
    using b by (auto simp: span_def block_end_def free_bytes_def)
  have le: "unat (fst b) \<le> placed al b" "placed al b + unat sz \<le> block_end b" using f by simp_all
  have pos: "0 < unat (fst b)" "16 \<le> unat sz" using bok req by (simp_all add: block_ok_def request_ok_def unat_gt_0)
  show nz: "align_up (fst b) al \<noteq> 0" using f(1) le(1) pos by (auto simp: word_unat_eq_iff)
  have "unat (fst b) mod 8 = 0" using bok by (simp add: block_ok_def)
  then have gap: "placed al b - 8 \<le> unat (fst b)" if "\<not> unat (fst b) + 16 \<le> placed al b"
    using that pl(4) le(1) by presburger
  have F': "free_bytes bs' = (free_bytes bs - span b) \<union> kept_gap (unat (fst b)) (placed al b)
       \<union> kept_gap (placed al b + unat sz) (block_end b)" using c by (simp add: carved_def)
  have kept: "kept_gap (unat (fst b)) (placed al b) \<subseteq> span b - {placed al b..<placed al b + unat sz}"
    "kept_gap (placed al b + unat sz) (block_end b) \<subseteq> span b - {placed al b..<placed al b + unat sz}"
    using le by (auto simp: kept_gap_def sp(1))
  have "{placed al b..<placed al b + unat sz} \<subseteq> span b" using le by (auto simp: sp(1))
  then have "free_bytes bs' \<subseteq> free_bytes bs - {placed al b..<placed al b + unat sz}"
    using kept sp(2) unfolding F' by blast
  moreover have "free_bytes bs \<subseteq> free_bytes bs' \<union> {placed al b - 8..<placed al b + unat sz + 15}"
  proof
    fix x
    assume x: "x \<in> free_bytes bs"
    show "x \<in> free_bytes bs' \<union> {placed al b - 8..<placed al b + unat sz + 15}"
    proof (cases "x \<in> span b")
      case True
      then have "unat (fst b) \<le> x" "x < block_end b" by (simp_all add: sp(1))
      then show ?thesis using gap by (auto simp: F' kept_gap_def)
    qed (use x F' in auto)
  qed
  ultimately show "taken l (free_bytes bs) (align_up (fst b) al) (free_bytes bs')"
    using nz f(1) by (simp add: taken_def block_bytes_def u)
qed

lemma free_rep_alloc:
  assumes rep: "free_rep s m F" and l: "servable l" and safe: "align_room l F"
  shows "\<exists>p s' m' F'. lla_alloc s m l = Some (Inr (p, s', m')) \<and> free_rep s' m' F' \<and> lowest_room l F p
    \<and> taken l F p F' \<and> same_outside F m m'"
proof -
  obtain bs where bs: "heap_rep s m bs" "free_bytes bs = F" using rep by (auto simp: free_rep_def)
  then have ok: "blocks_ok bs" by (simp add: heap_rep_def)
  obtain sz al where a: "adjusted_size_align l = Inr (sz, al)" "request_ok sz al"
    "unat sz = extent l" "unat al = boundary l" using adjusted_servable [OF l] by blast
  have as: "unat (fst b) + unat al \<le> 2 ^ 64" if "b \<in> set bs" for b
  proof -
    have "unat (fst b) \<in> span b" using cells_in_span(1) blocks_okD [OF ok that] by blast
    then have "unat (fst b) \<in> F" using that bs(2) by (auto simp: free_bytes_def)
    then show ?thesis using safe a(4) by (simp add: align_room_def)
  qed
  then have safe': "align_safe al bs" by (simp add: align_safe_def)
  show ?thesis
  proof (cases rule: alloc_scan_spec [OF bs(1) safe' a(2)])
    case 1
    have "\<not> room_for l F st" for st using room_iff_fits(1) [OF ok a(3,4) l] 1(1) bs(2) by blast
    moreover have "lla_alloc s m l = Some (Inr (0, s, m))" using a(1) 1(2) by (simp add: lla_alloc_def bindR_def)
    ultimately show ?thesis using rep by (auto simp: lowest_room_def taken_def same_outside_def)
  next
    case (2 xs b vs s' m' bs')
    let ?p = "align_up (fst b) al"
    have b: "b \<in> set bs" using 2(1) by simp
    have t: "taken l F ?p (free_bytes bs')" "?p \<noteq> 0"
      using carved_taken [OF ok b 2(2) a(2) as [OF b] a(3,4) 2(6)] bs(2) by simp_all
    have p: "unat ?p = placed al b" using placement(1) [OF a(2) blocks_okD [OF ok b] as [OF b]] .
    have "room_for l F (placed al b)" using room_iff_fits(2) [OF ok a(3,4) l b 2(2)] bs(2) by simp
    moreover have "placed al b \<le> st" if "room_for l F st" for st
      using first_fit_lowest [of xs b vs sz l al st] ok a(3,4) l 2(1,2,3) that bs(2) by simp
    ultimately have "lowest_room l F ?p" using t(2) p by (simp add: lowest_room_def)
    moreover have "lla_alloc s m l = Some (Inr (?p, s', m'))" using a(1) 2(4) by (simp add: lla_alloc_def bindR_def)
    moreover have "same_outside F m m'" using 2(6) bs(2) by (simp add: carved_def same_outside_def)
    ultimately show ?thesis using t(1) 2(5) by (auto simp: free_rep_def)
  qed
qed

lemma free_rep_dealloc:
  assumes rep: "free_rep s m F" and l: "servable l" and ok: "region_ok p (extent l)"
    and dj: "block_bytes p l \<inter> F = {}"
  shows "\<exists>s' m'. lla_dealloc s m p l = Some (Inr (s', m')) \<and> free_rep s' m' (F \<union> block_bytes p l)
    \<and> same_outside (F \<union> block_bytes p l) m m'"
proof -
  obtain sz al where a: "adjusted_size_align l = Inr (sz, al)" "unat sz = extent l"
    using adjusted_servable [OF l] by blast
  have "lla_dealloc s m p l = add_free_region s m p sz" using a(1) by (simp add: lla_dealloc_def bindR_def)
  then show ?thesis using free_rep_add [OF rep, of p sz] ok dj a(2) by (simp add: block_bytes_def)
qed

lemma free_rep_bound: "free_rep s m F \<Longrightarrow> x \<in> F \<Longrightarrow> 0 < x \<and> x < 2 ^ 64"
proof -
  assume "free_rep s m F" "x \<in> F"
  then obtain bs b where "blocks_ok bs" "b \<in> set bs" "x \<in> span b"
    by (auto simp: free_rep_def heap_rep_def free_bytes_def)
  moreover then have "block_ok b" by (auto dest: blocks_okD)
  ultimately show ?thesis
    using unat_gt_0 [of "fst b"] by (auto simp: block_ok_def span_def block_end_def simp del: unat_gt_0)
qed

interpretation fl: free_store free_rep add_free_region lla_alloc lla_dealloc
  by unfold_locales (fact free_rep_add free_rep_alloc free_rep_dealloc free_rep_bound)+

section \<open>Runs\<close>

text \<open>
  The blocks handed out and not yet given back are servable requests inside the memory the
  allocator was given, aligned as asked, apart from the free bytes and from one another.
\<close>

definition held_block :: "nat set \<Rightarrow> nat set \<Rightarrow> u64 \<times> layout \<Rightarrow> bool" where
  "held_block own F b \<longleftrightarrow> servable (snd b) \<and> region_ok (fst b) (extent (snd b))
     \<and> boundary (snd b) dvd unat (fst b) \<and> block_bytes (fst b) (snd b) \<subseteq> own - F"

definition held_ok :: "(u64 \<times> layout) set \<Rightarrow> nat set \<Rightarrow> nat set \<Rightarrow> bool" where
  "held_ok live own F \<longleftrightarrow> F \<subseteq> own \<and> (\<forall>b \<in> live. held_block own F b)
     \<and> (\<forall>b \<in> live. \<forall>c \<in> live. b \<noteq> c \<longrightarrow> block_bytes (fst b) (snd b) \<inter> block_bytes (fst c) (snd c) = {})"

lemma held_block_mono: "held_block own F b \<Longrightarrow> own \<subseteq> own' \<Longrightarrow> F' \<inter> block_bytes (fst b) (snd b) = {}
    \<Longrightarrow> held_block own' F' b"
  by (auto simp: held_block_def)

lemma held_ok_block: "held_ok live own F \<Longrightarrow> b \<in> live \<Longrightarrow> held_block own F b"
  by (simp add: held_ok_def)

lemma held_not_free:
  "held_ok live own F \<Longrightarrow> b \<in> live \<Longrightarrow> x \<in> block_bytes (fst b) (snd b) \<Longrightarrow> x \<notin> F"
  by (auto simp: held_ok_def held_block_def)

definition block_kept :: "u64 \<times> layout \<Rightarrow> qmem \<Rightarrow> qmem \<Rightarrow> bool" where
  "block_kept b m m' \<longleftrightarrow> (\<forall>x. unat x \<in> block_bytes (fst b) (snd b) \<longrightarrow> m' x = m x)"

lemma same_outside_kept:
  "same_outside F m m' \<Longrightarrow> F \<inter> block_bytes (fst b) (snd b) = {} \<Longrightarrow> block_kept b m m'"
  by (auto simp: same_outside_def block_kept_def)

context free_store
begin

lemma held_add:
  assumes rep: "rep s m F" and h: "held_ok live own F" and a: "region_ok a (unat n)"
    and dj: "{unat a..<unat a + unat n} \<inter> own = {}"
  obtains s' m' F' where "add s m a n = Some (Inr (s', m'))" and "rep s' m' F'"
    and "held_ok live (own \<union> {unat a..<unat a + unat n}) F'" and "\<And>b. b \<in> live \<Longrightarrow> block_kept b m m'"
proof -
  let ?R = "{unat a..<unat a + unat n}"
  have F: "F \<subseteq> own" using h by (simp add: held_ok_def)
  then have "?R \<inter> F = {}" using dj by blast
  then obtain s' m' where s': "add s m a n = Some (Inr (s', m'))" "rep s' m' (F \<union> ?R)"
    "same_outside (F \<union> ?R) m m'" using add_law [OF rep a] by blast
  have apart: "(F \<union> ?R) \<inter> block_bytes (fst b) (snd b) = {}" if "b \<in> live" for b
    using held_ok_block [OF h that] dj by (auto simp: held_block_def)
  have "held_block (own \<union> ?R) (F \<union> ?R) b" if "b \<in> live" for b
    by (rule held_block_mono [OF held_ok_block [OF h that] _ apart [OF that]]) simp
  then have "held_ok live (own \<union> ?R) (F \<union> ?R)" using h by (auto simp: held_ok_def)
  then show thesis using that s'(1,2) same_outside_kept [OF s'(3) apart] by blast
qed

lemma held_alloc:
  assumes rep: "rep s m F" and h: "held_ok live own F" and l: "servable l" "align_room l own"
  obtains p s' m' F' where "alloc s m l = Some (Inr (p, s', m'))" and "rep s' m' F'"
    and "lowest_room l F p" and "held_ok (if p = 0 then live else insert (p, l) live) own F'"
    and "\<And>b. b \<in> live \<Longrightarrow> block_kept b m m'"
    and "p \<noteq> 0 \<Longrightarrow> (p, l) \<notin> live"
proof -
  have F: "F \<subseteq> own" using h by (simp add: held_ok_def)
  then have room: "align_room l F" using l(2) by (auto simp: align_room_def)
  obtain p s' m' F' where s': "alloc s m l = Some (Inr (p, s', m'))" "rep s' m' F'"
    "lowest_room l F p" "taken l F p F'" "same_outside F m m'"
    using alloc_law [OF rep l(1) room] by blast
  have apart: "F \<inter> block_bytes (fst b) (snd b) = {}" if "b \<in> live" for b
    using held_ok_block [OF h that] by (auto simp: held_block_def)
  have F': "F' \<subseteq> F" using s'(4) by (auto simp: taken_def split: if_splits)
  have old: "held_block own F' b" if "b \<in> live" for b
    by (rule held_block_mono [OF held_ok_block [OF h that]]) (use apart [OF that] F' in blast)+
  have new: "block_bytes p l \<subseteq> F" "held_block own F' (p, l)" if p: "p \<noteq> 0"
  proof -
    have "x + 1 < 2 ^ 64" if "x \<in> F" for x
      using room that servable_facts(3) [OF l(1)] by (fastforce simp: align_room_def)
    note g = granted_region_ok [OF rep l(1) s'(3) p this]
    show "block_bytes p l \<subseteq> F" by (rule g(2))
    then show "held_block own F' (p, l)"
      using g(1,3) l(1) F s'(4) p by (auto simp: held_block_def taken_def)
  qed
  have "held_ok (if p = 0 then live else insert (p, l) live) own F'"
    using h old new apart F F' by (auto simp: held_ok_def) blast+
  moreover have "(p, l) \<notin> live" if "p \<noteq> 0"
  proof
    assume "(p, l) \<in> live"
    then have "F \<inter> block_bytes p l = {}" using apart by fastforce
    moreover have "unat p \<in> block_bytes p l" using servable_facts(1) [OF l(1)] by (simp add: block_bytes_def)
    ultimately show False using new(1) [OF that] by blast
  qed
  ultimately show thesis using that s'(1-3) same_outside_kept [OF s'(5) apart] by blast
qed

lemma held_dealloc:
  assumes rep: "rep s m F" and h: "held_ok live own F" and b: "(p, l) \<in> live"
  obtains s' m' F' where "dealloc s m p l = Some (Inr (s', m'))" and "rep s' m' F'"
    and "held_ok (live - {(p, l)}) own F'" and "\<And>c. c \<in> live - {(p, l)} \<Longrightarrow> block_kept c m m'"
proof -
  let ?B = "block_bytes p l"
  have k: "servable l" "region_ok p (extent l)" "?B \<subseteq> own - F"
    using held_ok_block [OF h b] by (simp_all add: held_block_def)
  then have "?B \<inter> F = {}" by blast
  then obtain s' m' where s': "dealloc s m p l = Some (Inr (s', m'))" "rep s' m' (F \<union> ?B)"
    "same_outside (F \<union> ?B) m m'" using dealloc_law [OF rep k(1,2)] by blast
  have apart: "(F \<union> ?B) \<inter> block_bytes (fst c) (snd c) = {}" if c: "c \<in> live - {(p, l)}" for c
  proof -
    have "?B \<inter> block_bytes (fst c) (snd c) = {}" using h b c unfolding held_ok_def by fastforce
    moreover have "F \<inter> block_bytes (fst c) (snd c) = {}"
      using held_ok_block [OF h, of c] c by (auto simp: held_block_def)
    ultimately show ?thesis by blast
  qed
  have "held_block own (F \<union> ?B) c" if "c \<in> live - {(p, l)}" for c
    using held_block_mono [OF held_ok_block [OF h] order_refl apart [OF that]] that by simp
  then have "held_ok (live - {(p, l)}) own (F \<union> ?B)" using h k(3) by (auto simp: held_ok_def)
  then show thesis using that s'(1,2) same_outside_kept [OF s'(3) apart] by blast
qed

end

text \<open>What the owner of a block sees.\<close>

lemma held_ok_owned:
  assumes "held_ok live own F" and "(p, l) \<in> live"
  shows "p \<noteq> 0 \<and> unat (layout_align l) dvd unat p \<and> {unat p..<unat p + unat (layout_size l)} \<subseteq> own - F"
proof -
  have h: "held_block own F (p, l)" using assms by (rule held_ok_block)
  then have "servable l" by (simp add: held_block_def)
  note f = servable_facts(5,6) [OF this]
  have "{unat p..<unat p + unat (layout_size l)} \<subseteq> block_bytes p l" using f(1) by (auto simp: block_bytes_def)
  then show ?thesis using h f(2) by (auto simp: held_block_def region_ok_def intro: dvd_trans)
qed

lemma held_ok_disjoint:
  "held_ok live own F \<Longrightarrow> (p, l) \<in> live \<Longrightarrow> (q, k) \<in> live \<Longrightarrow> (p, l) \<noteq> (q, k) \<Longrightarrow>
    block_bytes p l \<inter> block_bytes q k = {}"
  unfolding held_ok_def by (metis fst_conv snd_conv)

text \<open>The list depends on the free bytes only.\<close>

lemma free_rep_frame:
  assumes "free_rep s m F" and same: "\<And>x. unat x \<in> F \<Longrightarrow> m' x = m x"
  shows "free_rep s m' F"
proof -
  obtain bs where bs: "heap_rep s m bs" "free_bytes bs = F" using assms(1) by (auto simp: free_rep_def)
  then have "lseg m' (node_next (head s)) bs 0 \<longleftrightarrow> lseg m (node_next (head s)) bs 0"
    using same by (intro lseg_cong) (auto simp: heap_rep_def dest: blocks_okD)
  then show ?thesis using bs by (auto simp: free_rep_def heap_rep_def)
qed

text \<open>
  What can happen to an allocator: it is given a region it never had, it is asked for a block, a
  block it handed out is given back, or the owner of a block writes to it. A configuration is the
  list, the memory, the blocks handed out and the bytes the allocator was given.
\<close>

type_synonym lla_config = "linked_list_allocator \<times> qmem \<times> (u64 \<times> layout) set \<times> nat set"

inductive lla_step :: "lla_config \<Rightarrow> lla_config \<Rightarrow> bool" where
  give: "region_ok a (unat n) \<Longrightarrow> {unat a..<unat a + unat n} \<inter> own = {} \<Longrightarrow>
    add_free_region s m a n = Some (Inr (s', m')) \<Longrightarrow>
    lla_step (s, m, live, own) (s', m', live, own \<union> {unat a..<unat a + unat n})"
| take: "servable l \<Longrightarrow> align_room l own \<Longrightarrow> lla_alloc s m l = Some (Inr (p, s', m')) \<Longrightarrow>
    lla_step (s, m, live, own) (s', m', if p = 0 then live else insert (p, l) live, own)"
| return: "(p, l) \<in> live \<Longrightarrow> lla_dealloc s m p l = Some (Inr (s', m')) \<Longrightarrow>
    lla_step (s, m, live, own) (s', m', live - {(p, l)}, own)"
| store: "(p, l) \<in> live \<Longrightarrow> unat x \<in> block_bytes p l \<Longrightarrow>
    lla_step (s, m, live, own) (s, m(x := v), live, own)"

definition lla_reachable :: "lla_config \<Rightarrow> bool" where
  "lla_reachable c \<longleftrightarrow> (\<exists>m. lla_step\<^sup>*\<^sup>* (lla_new, m, {}, {}) c)"

definition lla_ok :: "lla_config \<Rightarrow> bool" where
  "lla_ok c \<longleftrightarrow> (case c of (s, m, live, own) \<Rightarrow> \<exists>F. free_rep s m F \<and> held_ok live own F)"

lemma lla_step_ok:
  assumes "lla_step c c'" and "lla_ok c"
  shows "lla_ok c'"
  using assms
proof (induction rule: lla_step.induct)
  case (give a n own s m s' m' live)
  then obtain F where F: "free_rep s m F" "held_ok live own F" by (auto simp: lla_ok_def)
  show ?case by (rule fl.held_add [OF F give(1,2)]) (use give(3) in \<open>auto simp: lla_ok_def\<close>)
next
  case (take l own s m p s' m' live)
  then obtain F where F: "free_rep s m F" "held_ok live own F" by (auto simp: lla_ok_def)
  show ?case by (rule fl.held_alloc [OF F take(1,2)]) (use take(3) in \<open>auto simp: lla_ok_def\<close>)
next
  case (return p l live s m s' m' own)
  then obtain F where F: "free_rep s m F" "held_ok live own F" by (auto simp: lla_ok_def)
  show ?case by (rule fl.held_dealloc [OF F return(1)]) (use return(2) in \<open>auto simp: lla_ok_def\<close>)
next
  case (store p l live x s m own v)
  then obtain F where F: "free_rep s m F" "held_ok live own F" by (auto simp: lla_ok_def)
  have "unat x \<notin> F" using held_not_free [OF F(2) store(1), of "unat x"] store(2) by simp
  then have "free_rep s (m(x := v)) F" by (intro free_rep_frame [OF F(1)]) auto
  then show ?case using F(2) by (auto simp: lla_ok_def)
qed

lemma lla_new_ok: "lla_ok (lla_new, m, {}, {})"
  by (auto simp: lla_ok_def lla_new_def free_rep_def heap_rep_def held_ok_def intro: exI [of _ "[]"])

lemma lla_reachable_ok: "lla_reachable c \<Longrightarrow> lla_ok c"
proof -
  assume "lla_reachable c"
  then obtain m where "lla_step\<^sup>*\<^sup>* (lla_new, m, {}, {}) c" by (auto simp: lla_reachable_def)
  then show ?thesis by (induction rule: rtranclp_induct) (auto intro: lla_new_ok lla_step_ok)
qed

end
