(* ===== verification/Spin_Lock.thy ===== *)
theory Spin_Lock
  imports Kernel_Prelude
begin

text \<open>
  The spin lock of \<open>sync/spinlock.rs\<close>: an atomic flag next to the data it protects. \<open>lock_spin\<close> is
  the loop over \<open>compare_exchange_weak\<close>, which the language allows to fail spuriously; seen from
  one thread it is \<open>lock\<close>, which the rest of the kernel calls. Threads that share a lock are a step
  relation in which one thread takes one step at a time.
\<close>

section \<open>The lock\<close>

record 'a spin_lock =
  locked :: bool
  data :: 'a

definition spin_lock_new :: "'a \<Rightarrow> 'a spin_lock" where
  "spin_lock_new d = \<lparr>locked = False, data = d\<rparr>"

text \<open>
  \<open>compare_exchange_weak(false, true)\<close>: whether it succeeded, and the lock after it. \<open>spurious\<close> says
  that this attempt fails although the flag has the expected value.
\<close>

definition compare_exchange_weak :: "bool \<Rightarrow> 'a spin_lock \<Rightarrow> bool \<times> 'a spin_lock" where
  "compare_exchange_weak spurious l =
     (if \<not> locked l \<and> \<not> spurious then (True, l\<lparr>locked := True\<rparr>) else (False, l))"

text \<open>The loop of \<open>lock\<close> with no other thread running, from attempt \<open>n\<close> on.\<close>

partial_function (option) lock_spin :: "(nat \<Rightarrow> bool) \<Rightarrow> nat \<Rightarrow> 'a spin_lock \<Rightarrow> 'a spin_lock option" where
  "lock_spin spurious n l =
     (let r = compare_exchange_weak (spurious n) l
      in if fst r then Some (snd r) else lock_spin spurious (Suc n) (snd r))"

text \<open>What the loop comes to: \<open>None\<close> is spinning forever.\<close>

definition lock :: "'a spin_lock \<Rightarrow> 'a spin_lock option" where
  "lock l = (if locked l then None else Some (l\<lparr>locked := True\<rparr>))"

text \<open>\<open>Drop\<close> of the guard.\<close>

definition unlock :: "'a spin_lock \<Rightarrow> 'a spin_lock" where
  "unlock l = l\<lparr>locked := False\<rparr>"

text \<open>\<open>Deref\<close> and \<open>DerefMut\<close> of the guard.\<close>

definition guard_deref :: "'a spin_lock \<Rightarrow> 'a" where
  "guard_deref l = data l"

definition guard_deref_mut :: "'a spin_lock \<Rightarrow> ('a \<Rightarrow> 'a) \<Rightarrow> 'a spin_lock" where
  "guard_deref_mut l f = l\<lparr>data := f (data l)\<rparr>"

lemma lock_spin_held:
  assumes "locked l"
  shows "lock_spin spurious n l = None"
proof (rule ccontr)
  assume "lock_spin spurious n l \<noteq> None"
  then obtain y where "lock_spin spurious n l = Some y" by blast
  then have "\<not> locked l"
    by (rule lock_spin.raw_induct [rotated])
      (auto simp: compare_exchange_weak_def split: if_splits)
  then show False using assms by simp
qed

lemma lock_spin_free:
  assumes "\<not> locked l" and "n \<le> k" and "\<not> spurious k"
  shows "lock_spin spurious n l = Some (l\<lparr>locked := True\<rparr>)"
  using assms(2)
proof (induction n rule: inc_induct)
  case base
  then show ?case using assms by (subst lock_spin.simps) (simp add: compare_exchange_weak_def)
next
  case (step n)
  then show ?case using assms by (subst lock_spin.simps) (simp add: compare_exchange_weak_def)
qed

section \<open>What a critical section relies on\<close>

locale mutex =
  fixes free :: "'l \<Rightarrow> bool"
    and get :: "'l \<Rightarrow> 'a"
    and modify_data :: "'l \<Rightarrow> ('a \<Rightarrow> 'a) \<Rightarrow> 'l"
    and acquire :: "'l \<Rightarrow> 'l option"
    and release :: "'l \<Rightarrow> 'l"
  assumes acquire_free: "free l \<Longrightarrow> \<exists>g. acquire l = Some g \<and> get g = get l"
    and acquire_held: "\<not> free l \<Longrightarrow> acquire l = None"
    and release_free: "free (release g)"
    and get_release: "get (release g) = get g"
    and get_modify: "get (modify_data g f) = f (get g)"
begin

lemma acquired: "acquire l = Some g \<longleftrightarrow> free l \<and> acquire l = Some g \<and> get g = get l"
  using acquire_free [of l] acquire_held [of l] by fastforce

lemma critical_section:
  assumes "free l"
  obtains g where "acquire l = Some g" and "get g = get l"
    and "\<And>f. free (release (modify_data g f)) \<and> get (release (modify_data g f)) = f (get l)"
    and "free (release g) \<and> get (release g) = get l"
  using acquire_free [OF assms] release_free get_release get_modify by metis

end

interpretation lk: mutex "\<lambda>l. \<not> locked l" guard_deref guard_deref_mut lock unlock
  by unfold_locales (simp_all add: guard_deref_def guard_deref_mut_def lock_def unlock_def)

section \<open>Threads that share a lock\<close>

datatype thread_pc = Outside | Spinning | Holding

record 'a system =
  pcs :: "nat \<Rightarrow> thread_pc"
  shared :: "'a spin_lock"

text \<open>
  A thread calls \<open>lock\<close>, tries the exchange and stays or enters, changes the data through its guard,
  and drops the guard.
\<close>

inductive spin_step :: "'a system \<Rightarrow> nat \<Rightarrow> 'a system \<Rightarrow> bool" where
  call: "pcs s i = Outside \<Longrightarrow> spin_step s i (s\<lparr>pcs := (pcs s)(i := Spinning)\<rparr>)"
| spin: "pcs s i = Spinning \<Longrightarrow> compare_exchange_weak sp (shared s) = (False, l) \<Longrightarrow>
    spin_step s i (s\<lparr>shared := l\<rparr>)"
| enter: "pcs s i = Spinning \<Longrightarrow> compare_exchange_weak sp (shared s) = (True, l) \<Longrightarrow>
    spin_step s i (s\<lparr>pcs := (pcs s)(i := Holding), shared := l\<rparr>)"
| modify: "pcs s i = Holding \<Longrightarrow> spin_step s i (s\<lparr>shared := guard_deref_mut (shared s) f\<rparr>)"
| drop: "pcs s i = Holding \<Longrightarrow>
    spin_step s i (s\<lparr>pcs := (pcs s)(i := Outside), shared := unlock (shared s)\<rparr>)"

inductive spin_reachable :: "'a \<Rightarrow> 'a system \<Rightarrow> bool" for d where
  start: "spin_reachable d \<lparr>pcs = (\<lambda>_. Outside), shared = spin_lock_new d\<rparr>"
| step: "spin_reachable d s \<Longrightarrow> spin_step s i t \<Longrightarrow> spin_reachable d t"

text \<open>The flag is set exactly while one thread, and no other, holds the lock.\<close>

definition lock_inv :: "'a system \<Rightarrow> bool" where
  "lock_inv s \<longleftrightarrow> (locked (shared s) \<longleftrightarrow> (\<exists>i. pcs s i = Holding))
     \<and> (\<forall>i j. pcs s i = Holding \<longrightarrow> pcs s j = Holding \<longrightarrow> i = j)"

lemma compare_exchange_weak_cases:
  "compare_exchange_weak sp l = (b, l') \<longleftrightarrow>
    (if b then \<not> locked l \<and> \<not> sp \<and> l' = l\<lparr>locked := True\<rparr> else (locked l \<or> sp) \<and> l' = l)"
  by (auto simp: compare_exchange_weak_def)

lemmas spin_lock_simps = compare_exchange_weak_cases guard_deref_mut_def unlock_def spin_lock_new_def

lemma spin_step_inv:
  assumes "spin_step s i t" and "lock_inv s"
  shows "lock_inv t"
  using assms
proof (induction rule: spin_step.induct)
  case (enter s i sp l)
  then have "pcs s j \<noteq> Holding" for j by (auto simp: lock_inv_def spin_lock_simps)
  then show ?case using enter by (auto simp: lock_inv_def spin_lock_simps)
next
  case (drop s i)
  then have "pcs s j \<noteq> Holding" if "j \<noteq> i" for j using that by (auto simp: lock_inv_def)
  then show ?case by (auto simp: lock_inv_def spin_lock_simps)
next
  case (call s i)
  then have "((pcs s)(i := Spinning)) j = Holding \<longleftrightarrow> pcs s j = Holding" for j by simp
  then show ?case using call.prems by (simp add: lock_inv_def)
qed (auto simp: lock_inv_def spin_lock_simps)

lemma spin_reachable_inv: "spin_reachable d s \<Longrightarrow> lock_inv s"
proof (induction rule: spin_reachable.induct)
  case start
  show ?case by (simp add: lock_inv_def spin_lock_new_def)
qed (rule spin_step_inv)

inductive_cases spin_stepE: "spin_step s i t"

section \<open>Properties\<close>

text \<open>
  C30. \<open>lock\<close>, the loop over a weak compare-exchange, returns with the flag set and the data as it was
  when the lock is free and some attempt does not fail spuriously; on a lock that is held it never
  returns, so that a thread that locks twice hangs.
\<close>

theorem lock_spin_equiv:
  assumes "n \<le> k" and "\<not> spurious k"
  shows "lock_spin spurious n l = lock l"
proof (cases "locked l")
  case True
  then show ?thesis using lock_spin_held [of l spurious n] by (simp add: lock_def)
next
  case False
  then show ?thesis using lock_spin_free [of l n k spurious] assms by (simp add: lock_def)
qed

theorem lock_spin_equiv_witness:
  "lock_spin (\<lambda>n. n < 3) 0 (spin_lock_new (41 :: nat)) = Some \<lparr>locked = True, data = 41\<rparr>"
  using lock_spin_equiv [of 0 3 "\<lambda>n. n < 3" "spin_lock_new (41 :: nat)"]
  by (simp add: lock_def spin_lock_new_def)

text \<open>
  C29. Mutual exclusion: in every state threads that share a lock can reach, at most one thread
  holds it, exactly when the flag is set; while a thread holds it no step of another thread
  changes the data or the flag, so that the holder reads what it last wrote; and when no thread holds it,
  a thread that spins can enter.
\<close>

theorem spin_lock_mutual_exclusion:
  assumes "spin_reachable d s"
  shows "(\<forall>i j. pcs s i = Holding \<longrightarrow> pcs s j = Holding \<longrightarrow> i = j)
    \<and> (locked (shared s) \<longleftrightarrow> (\<exists>i. pcs s i = Holding))
    \<and> (\<forall>i j t. pcs s i = Holding \<longrightarrow> spin_step s j t \<longrightarrow> j \<noteq> i \<longrightarrow> shared t = shared s \<and> pcs t i = Holding)
    \<and> (\<forall>i. pcs s i = Spinning \<longrightarrow> \<not> (\<exists>j. pcs s j = Holding) \<longrightarrow>
        (\<exists>t. spin_step s i t \<and> pcs t i = Holding \<and> guard_deref (shared t) = guard_deref (shared s)))"
proof (intro conjI allI impI)
  have inv: "lock_inv s" using assms by (rule spin_reachable_inv)
  then show "locked (shared s) \<longleftrightarrow> (\<exists>i. pcs s i = Holding)" by (simp add: lock_inv_def)
  show "i = j" if "pcs s i = Holding" "pcs s j = Holding" for i j
    using inv that by (simp add: lock_inv_def)
  fix i
  show "shared t = shared s" "pcs t i = Holding" if "pcs s i = Holding" "spin_step s j t" "j \<noteq> i" for j t
    using that(2,1,3) inv by (auto elim!: spin_stepE simp: lock_inv_def spin_lock_simps)
  assume "pcs s i = Spinning" and "\<not> (\<exists>j. pcs s j = Holding)"
  then have "\<not> locked (shared s)" using inv by (simp add: lock_inv_def)
  then have "compare_exchange_weak False (shared s) = (True, (shared s)\<lparr>locked := True\<rparr>)"
    by (simp add: compare_exchange_weak_def)
  from spin_step.enter [OF \<open>pcs s i = Spinning\<close> this]
  have "spin_step s i (s\<lparr>pcs := (pcs s)(i := Holding), shared := (shared s)\<lparr>locked := True\<rparr>\<rparr>)" (is "spin_step s i ?t") .
  moreover have "pcs ?t i = Holding" "guard_deref (shared ?t) = guard_deref (shared s)"
    by (simp_all add: guard_deref_def)
  ultimately show "\<exists>t. spin_step s i t \<and> pcs t i = Holding \<and> guard_deref (shared t) = guard_deref (shared s)"
    by blast
qed

theorem spin_lock_mutual_exclusion_witness:
  "\<exists>s :: nat system. pcs s 1 = Spinning \<and> (\<exists>t. spin_step s 1 t \<and> pcs t 1 = Holding)"
proof -
  let ?s0 = "\<lparr>pcs = (\<lambda>_. Outside), shared = spin_lock_new 0\<rparr> :: nat system"
  let ?s1 = "?s0\<lparr>pcs := (pcs ?s0)(1 := Spinning)\<rparr>"
  have r: "spin_reachable 0 ?s1"
    by (rule spin_reachable.step [OF spin_reachable.start spin_step.call]) simp
  have "pcs ?s1 1 = Spinning" "\<not> (\<exists>j. pcs ?s1 j = Holding)" by simp_all
  then have "\<exists>t. spin_step ?s1 1 t \<and> pcs t 1 = Holding"
    using spin_lock_mutual_exclusion [OF r] by blast
  then show ?thesis by (intro exI [of _ ?s1]) simp
qed

end
