(* ===== verification/Kernel_Heap.thy ===== *)
theory Kernel_Heap
  imports Vmm_Props Free_Store Spin_Lock
begin

unbundle bit_operations_syntax

text \<open>
  The kernel heap (\<open>mm/heap.rs\<close>): the global allocator behind a lock that serves requests from the
  free list and, when the list has no room, maps fresh pages at its cursor. The state of the two
  globals it uses, of the processor and of the memory at heap addresses is a record \<open>kernel\<close>.
  The heap memory is a store of its own: \<open>heap_backed\<close> shows that every heap page is mapped to a
  frame of its own that is not free and holds no page table, so a write there changes none of them.
\<close>

section \<open>State\<close>

definition PAGE_SIZE :: u64 where "PAGE_SIZE = 4096"

definition HEAP_REGION_START :: u64 where "HEAP_REGION_START = 0xFFFF880000000000"

definition HEAP_REGION_END :: u64 where "HEAP_REGION_END = 0xFFFFFFFF80000000"

definition HEAP_GROWTH_MIN_PAGES :: u64 where "HEAP_GROWTH_MIN_PAGES = 16"

record kernel_heap_state =
  allocator :: linked_list_allocator
  next_unmapped :: u64

type_synonym kernel_heap = "kernel_heap_state spin_lock"

definition kernel_heap_new :: kernel_heap where
  "kernel_heap_new = spin_lock_new \<lparr>allocator = lla_new, next_unmapped = HEAP_REGION_START\<rparr>"

text \<open>
  What the heap works on: the two globals, the processor with the page tables, and the memory at
  heap addresses.
\<close>

record kernel =
  FRAME_ALLOCATOR :: "frame_allocator option spin_lock"
  VMM :: "vmm option spin_lock"
  machine :: cpu
  heap_mem :: qmem

section \<open>Growth\<close>

text \<open>The loop of \<open>unwind_partial_growth\<close>, from page \<open>i\<close> on; errors of \<open>unmap\<close> are ignored.\<close>

function unwind_from :: "vmm \<Rightarrow> cpu \<Rightarrow> u64 \<Rightarrow> u64 \<Rightarrow> u64 \<Rightarrow> cpu" where
  "unwind_from v c growth_start mapped_pages i =
     (if i < mapped_pages
      then unwind_from v (snd (vmm_unmap v c (VirtAddr (growth_start + i * PAGE_SIZE))))
        growth_start mapped_pages (i + 1)
      else c)"
  by pat_completeness auto
termination
  by (relation "measure (\<lambda>(v, c, growth_start, mapped_pages, i). unat mapped_pages - unat i)")
    (auto simp: unat_suc_less word_less_nat_alt)

declare unwind_from.simps [simp del]

definition unwind_partial_growth :: "vmm \<Rightarrow> cpu \<Rightarrow> u64 \<Rightarrow> u64 \<Rightarrow> cpu" where
  "unwind_partial_growth v c growth_start mapped_pages = unwind_from v c growth_start mapped_pages 0"

text \<open>The loop of \<open>grow\<close> that maps the pages.\<close>

function grow_pages ::
    "vmm \<Rightarrow> cpu \<Rightarrow> frame_allocator \<Rightarrow> u64 \<Rightarrow> u64 \<Rightarrow> u64 \<Rightarrow> (bool \<times> cpu \<times> frame_allocator) exec" where
  "grow_pages v c a growth_start pages_to_map mapped_pages =
     (if mapped_pages < pages_to_map then
        bindE (allocate a) (\<lambda>(phys, a).
          case phys of
            None \<Rightarrow> Inr (False, unwind_partial_growth v c growth_start mapped_pages, a)
          | Some phys \<Rightarrow>
            bindE (vmm_map v c a (VirtAddr (growth_start + mapped_pages * PAGE_SIZE)) phys read_write)
              (\<lambda>(r, c, a).
                case r of
                  Inl _ \<Rightarrow> bindE (deallocate a phys) (\<lambda>(_, a).
                    Inr (False, unwind_partial_growth v c growth_start mapped_pages, a))
                | Inr _ \<Rightarrow> grow_pages v c a growth_start pages_to_map (mapped_pages + 1)))
      else Inr (True, c, a))"
  by pat_completeness auto
termination
  by (relation "measure (\<lambda>(v, c, a, growth_start, pages_to_map, mapped_pages). unat pages_to_map - unat mapped_pages)")
    (auto simp: unat_suc_less word_less_nat_alt)

declare grow_pages.simps [simp del]

definition pages_to_map :: "layout \<Rightarrow> u64" where
  "pages_to_map l =
     (let pages_needed = max (div_ceil (layout_size l) PAGE_SIZE) 1
      in max pages_needed HEAP_GROWTH_MIN_PAGES)"

text \<open>The part of \<open>grow\<close> that holds the locks of the two globals; both guards are dropped on every return.\<close>

definition grow_locked ::
    "kernel \<Rightarrow> kernel_heap_state \<Rightarrow> u64 \<Rightarrow> u64 \<Rightarrow> u64 \<Rightarrow> (bool \<times> kernel_heap_state \<times> kernel) run" where
  "grow_locked k state growth_start pages growth_end =
     (case lock (FRAME_ALLOCATOR k) of None \<Rightarrow> None | Some frame_guard \<Rightarrow>
       (case lock (VMM k) of None \<Rightarrow> None | Some vmm_guard \<Rightarrow>
         (case (guard_deref frame_guard, guard_deref vmm_guard) of
            (Some frame_allocator, Some vmm) \<Rightarrow>
              bindR (Some (grow_pages vmm (machine k) frame_allocator growth_start pages 0))
                (\<lambda>(ok, c, a).
                  let k = k\<lparr>machine := c,
                        FRAME_ALLOCATOR := unlock (guard_deref_mut frame_guard (\<lambda>_. Some a)),
                        VMM := unlock vmm_guard\<rparr>
                  in if \<not> ok then Some (Inr (False, state, k))
                     else bindR (add_free_region (allocator state) (heap_mem k) growth_start (pages * PAGE_SIZE))
                       (\<lambda>(s, m). Some (Inr (True,
                         state\<lparr>next_unmapped := growth_end, allocator := s\<rparr>, k\<lparr>heap_mem := m\<rparr>))))
          | _ \<Rightarrow> Some (Inr (False, state,
              k\<lparr>FRAME_ALLOCATOR := unlock frame_guard, VMM := unlock vmm_guard\<rparr>)))))"

definition grow :: "kernel \<Rightarrow> kernel_heap_state \<Rightarrow> layout \<Rightarrow> (bool \<times> kernel_heap_state \<times> kernel) run" where
  "grow k state l =
     (let growth_bytes = pages_to_map l * PAGE_SIZE;
          growth_start = next_unmapped state
      in case checked_add growth_start growth_bytes of
           None \<Rightarrow> Some (Inr (False, state, k))
         | Some growth_end \<Rightarrow>
           if growth_end \<le> HEAP_REGION_END
           then grow_locked k state growth_start (pages_to_map l) growth_end
           else Some (Inr (False, state, k)))"

section \<open>The global allocator\<close>

definition heap_alloc :: "kernel_heap \<Rightarrow> kernel \<Rightarrow> layout \<Rightarrow> (u64 \<times> kernel_heap \<times> kernel) run" where
  "heap_alloc h k l =
     (case lock h of None \<Rightarrow> None | Some guard \<Rightarrow>
        let state = guard_deref guard
        in bindR (lla_alloc (allocator state) (heap_mem k) l) (\<lambda>(p, s, m).
             let state = state\<lparr>allocator := s\<rparr>; k = k\<lparr>heap_mem := m\<rparr>
             in if p \<noteq> 0 then Some (Inr (p, unlock (guard_deref_mut guard (\<lambda>_. state)), k))
                else bindR (grow k state l) (\<lambda>(ok, state, k).
                  if \<not> ok then Some (Inr (0, unlock (guard_deref_mut guard (\<lambda>_. state)), k))
                  else bindR (lla_alloc (allocator state) (heap_mem k) l) (\<lambda>(p, s, m).
                    Some (Inr (p, unlock (guard_deref_mut guard (\<lambda>_. state\<lparr>allocator := s\<rparr>)),
                      k\<lparr>heap_mem := m\<rparr>))))))"

definition heap_dealloc :: "kernel_heap \<Rightarrow> kernel \<Rightarrow> u64 \<Rightarrow> layout \<Rightarrow> (kernel_heap \<times> kernel) run" where
  "heap_dealloc h k ptr l =
     (case lock h of None \<Rightarrow> None | Some guard \<Rightarrow>
        let state = guard_deref guard
        in bindR (lla_dealloc (allocator state) (heap_mem k) ptr l) (\<lambda>(s, m).
             Some (Inr (unlock (guard_deref_mut guard (\<lambda>_. state\<lparr>allocator := s\<rparr>)), k\<lparr>heap_mem := m\<rparr>))))"

section \<open>Pages\<close>

definition page_of :: "u64 \<Rightarrow> nat \<Rightarrow> virt_addr" where
  "page_of start i = VirtAddr (start + of_nat i * PAGE_SIZE)"

text \<open>The first \<open>n\<close> pages from \<open>start\<close> are aligned and differ in their table indices.\<close>

definition page_run :: "u64 \<Rightarrow> nat \<Rightarrow> bool" where
  "page_run start n \<longleftrightarrow> unat start mod 4096 = 0 \<and> unat start + n * 4096 \<le> 2 ^ 64 \<and> n \<le> 2 ^ 36"

lemma page_of_word:
  assumes "page_run start n" and "i < n"
  shows "unat (virt_as_u64 (page_of start i)) = unat start + i * 4096"
    and "is_page_aligned (page_of start i)"
proof -
  have i: "i * 4096 < n * 4096" "n * 4096 \<le> 2 ^ 48" "unat start + n * 4096 \<le> 2 ^ 64" "unat start mod 4096 = 0"
    using assms by (simp_all add: page_run_def)
  have "i < 2 ^ 64" using i by simp
  then have "unat (of_nat i * PAGE_SIZE :: u64) = i * 4096"
    using i by (subst unat_mult_no_wrap) (simp_all add: PAGE_SIZE_def)
  then show u: "unat (virt_as_u64 (page_of start i)) = unat start + i * 4096"
    using i by (simp add: page_of_def unat_add_no_wrap)
  show "is_page_aligned (page_of start i)" using i(4) by (simp add: is_page_aligned_iff u)
qed

lemma mod_shift_inj:
  fixes i j s M :: nat
  assumes "i < M" and "j < M"
  shows "(s + i) mod M = (s + j) mod M \<longleftrightarrow> i = j"
proof -
  have "i = j" if "i \<le> j" "j < M" "(s + j) mod M = (s + i) mod M" for i j
    using that mod_eq_dvd_iff_nat [of "s + i" "s + j" M] dvd_imp_le [of M "j - i"] by fastforce
  then show ?thesis using assms by (metis nat_le_linear)
qed

lemma page_of_distinct:
  assumes "page_run start n" and "i < n" and "j < n"
  shows "page_path (page_of start i) = page_path (page_of start j) \<longleftrightarrow> i = j"
proof -
  have d: "unat (virt_as_u64 (page_of start k)) div 4096 = unat start div 4096 + k" if "k < n" for k
    using page_of_word(1) [OF assms(1) that] by simp
  have "i < 2 ^ 36" "j < 2 ^ 36" using assms by (simp_all add: page_run_def)
  then have "(unat start div 4096 + i) mod 2 ^ 36 = (unat start div 4096 + j) mod 2 ^ 36 \<longleftrightarrow> i = j"
    by (rule mod_shift_inj)
  then show ?thesis by (simp add: page_path_eq_iff d assms)
qed

lemma page_of_unat: "page_of start (unat i) = VirtAddr (start + i * PAGE_SIZE)"
  by (simp add: page_of_def)

section \<open>Mapping a run of pages\<close>

text \<open>\<open>V'\<close> is \<open>V\<close> except on the pages numbered \<open>I\<close>, where the frame \<open>fs i\<close> gives its value.\<close>

definition overlaid ::
    "u64 \<Rightarrow> nat set \<Rightarrow> (phys_addr \<Rightarrow> virt_addr \<Rightarrow> 'b option) \<Rightarrow> (nat \<Rightarrow> phys_addr)
      \<Rightarrow> (virt_addr \<Rightarrow> 'b option) \<Rightarrow> (virt_addr \<Rightarrow> 'b option) \<Rightarrow> bool"
where
  "overlaid start I g fs V V' \<longleftrightarrow>
     (\<forall>w. (\<forall>i \<in> I. page_path w \<noteq> page_path (page_of start i)) \<longrightarrow> V' w = V w)
     \<and> (\<forall>w. \<forall>i \<in> I. page_path w = page_path (page_of start i) \<longrightarrow> V' w = g (fs i) w)"

lemma overlaid_empty [simp]: "overlaid start {} g fs V V' \<longleftrightarrow> V' = V"
  by (auto simp: overlaid_def)

lemma overlaid_insert:
  assumes "overlaid start I g fs V V'"
    and "V'' = (\<lambda>w. if page_path w = page_path (page_of start i) then g p w else V' w)"
    and "\<And>j. j \<in> I \<Longrightarrow> page_path (page_of start j) \<noteq> page_path (page_of start i)"
  shows "overlaid start (insert i I) g (fs(i := p)) V V''"
  using assms(1,3) unfolding overlaid_def assms(2) by auto

lemma overlaid_remove:
  assumes "overlaid start (insert i I) g fs V V'"
    and "V'' = (\<lambda>w. if page_path w = page_path (page_of start i) then None else V' w)"
    and "\<And>j. j \<in> I \<Longrightarrow> page_path (page_of start j) \<noteq> page_path (page_of start i)"
    and "\<And>w. page_path w = page_path (page_of start i) \<Longrightarrow> V w = None"
  shows "overlaid start I g fs V V''"
  using assms(1,3,4) unfolding overlaid_def assms(2) by auto

lemma overlaid_at: "overlaid start I g fs V V' \<Longrightarrow> i \<in> I \<Longrightarrow> V' (page_of start i) = g (fs i) (page_of start i)"
  by (auto simp: overlaid_def)

lemma overlaid_off:
  "overlaid start I g fs V V' \<Longrightarrow> (\<And>i. i \<in> I \<Longrightarrow> page_path (page_of start i) \<noteq> page_path w) \<Longrightarrow> V' w = V w"
  unfolding overlaid_def by (metis (no_types))

abbreviation leaf_value :: "phys_addr \<Rightarrow> virt_addr \<Rightarrow> phys_addr option" where
  "leaf_value p w \<equiv> Some p"

abbreviation byte_value :: "phys_addr \<Rightarrow> virt_addr \<Rightarrow> phys_addr option" where
  "byte_value p w \<equiv> Some (PhysAddr (phys_as_u64 p + page_offset w))"

definition frame_of :: "phys_addr \<Rightarrow> nat" where
  "frame_of p = unat (frame_number p)"

text \<open>
  From \<open>(c0, a0)\<close> the pages \<open>I\<close> of the run have been mapped to the frames \<open>fs\<close>, taken from the free
  ones and different from one another; the frames \<open>T\<close> also left the pool, and new tables lie in
  some of those.
\<close>

definition pages_backed ::
    "vmm \<Rightarrow> u64 \<Rightarrow> nat set \<Rightarrow> (nat \<Rightarrow> phys_addr) \<Rightarrow> nat set \<Rightarrow> cpu \<times> frame_allocator \<Rightarrow> cpu \<times> frame_allocator \<Rightarrow> bool"
where
  "pages_backed v start I fs T s0 s \<longleftrightarrow>
     vm_state_inv v s \<and> same_pool (snd s0) (snd s)
     \<and> free_frames (snd s) = free_frames (snd s0) - T \<and> T \<subseteq> free_frames (snd s0)
     \<and> overlaid start I leaf_value fs (leaf_frame v (fst s0)) (leaf_frame v (fst s))
     \<and> overlaid start I byte_value fs (translate v (fst s0)) (translate v (fst s))
     \<and> (\<forall>i \<in> I. translate v (fst s0) (page_of start i) = None)
     \<and> (\<forall>i \<in> I. entry_holds (fs i) \<and> frame_of (fs i) \<in> T) \<and> inj_on (\<lambda>i. frame_of (fs i)) I
     \<and> tables_from (pml4_phys v) (mem (fst s0)) (T - (\<lambda>i. frame_of (fs i)) ` I) (mem (fst s))"

lemma allocated_entry_holds:
  assumes "fa_inv a" and "is_frame_aligned p" and "frame_of p \<in> free_frames a"
  shows "entry_holds p"
proof -
  have "frame_of p < 2 ^ 29"
    using assms(1,3) total_frames_bound [of a] by (auto simp: fa_inv_def free_frames_def)
  then have "unat (phys_as_u64 p) < 2 ^ 41"
    by (simp add: frame_of_def unat_frame_number div_less_iff_less_mult)
  then show ?thesis using assms(2) by (simp add: entry_holds_def)
qed

lemma pages_backed_refl: "vm_state_inv v s \<Longrightarrow> pages_backed v start {} fs {} s s"
  by (simp add: pages_backed_def)

lemma vm_inv_smaller:
  "vm_inv root m a \<Longrightarrow> fa_inv a' \<Longrightarrow> free_frames a' \<subseteq> free_frames a \<Longrightarrow> vm_inv root m a'"
  unfolding vm_inv_def by blast

text \<open>One round of the loop that succeeds.\<close>

lemma pages_backed_map:
  assumes b: "pages_backed v start {..<n} fs T s0 (c, a)" and run: "page_run start (Suc n)"
    and al: "allocate a = Inr (Some p, a1)"
    and m: "vmm_map v c a1 (page_of start n) p read_write = Inr (Inr (), c', a')"
  obtains T' where "pages_backed v start {..<Suc n} (fs(n := p)) T' s0 (c', a')"
proof -
  let ?root = "pml4_phys v" and ?pg = "page_of start n"
  have inv: "vm_inv ?root (mem c) a" using b by (simp add: pages_backed_def)
  note fa = vm_invD(1) [OF inv]
  note ret = allocate_returns [OF fa al]
  have p: "is_frame_aligned p" "frame_of p \<in> free_frames a" "free_frames a1 = free_frames a - {frame_of p}"
    using fa.alloc_Some [OF fa al] by (simp_all add: frame_of_def)
  have hold: "entry_holds p" by (rule allocated_entry_holds [OF fa p(1,2)])
  have inv1: "vm_inv ?root (mem c) a1" using vm_inv_smaller [OF inv ret(2)] p(3) by simp
  obtain c1 where ms: "grown ?root (c, a1) (c1, a')" "vm_inv ?root (mem c') a'"
    "tables_from ?root (mem c) (free_frames a1 - free_frames a') (mem c')"
    using m by (cases rule: map_spec [OF inv1, of ?pg p read_write]) auto
  have fr: "free_frames a' \<subseteq> free_frames a1" "same_pool a1 a'" using ms(1) by (simp_all add: grown_def)
  have ok: "translate v c ?pg = None"
    "leaf_frame v c' = (\<lambda>w. if page_path w = page_path ?pg then Some p else leaf_frame v c w)"
    "translate v c' = (\<lambda>w. if page_path w = page_path ?pg
      then Some (PhysAddr (phys_as_u64 p + page_offset w)) else translate v c w)"
    using vm.map_ok [of v "(c, a1)" p ?pg read_write "(c', a')", unfolded fst_conv snd_conv] inv1 hold m
    by simp_all
  have dist: "page_path (page_of start j) \<noteq> page_path ?pg" if "j \<in> {..<n}" for j
    using page_of_distinct [OF run, of j n] that by simp
  define T' where "T' = free_frames (snd s0) - free_frames a'"
  have T: "free_frames a = free_frames (snd s0) - T" "T \<subseteq> free_frames (snd s0)"
    using b by (simp_all add: pages_backed_def)
  have sub: "T \<subseteq> T'" "frame_of p \<in> T'" "frame_of p \<notin> T"
    using T p fr(1) by (auto simp: T'_def)
  have ov: "overlaid start {..<Suc n} leaf_value (fs(n := p)) (leaf_frame v (fst s0)) (leaf_frame v c')"
    "overlaid start {..<Suc n} byte_value (fs(n := p)) (translate v (fst s0)) (translate v c')"
    using overlaid_insert [where I = "{..<n}" and g = leaf_value and p = p and fs = fs and V' = "leaf_frame v c", OF _ ok(2) dist]
      overlaid_insert [where I = "{..<n}" and g = byte_value and p = p and fs = fs and V' = "translate v c", OF _ ok(3) dist] b
    by (simp_all add: pages_backed_def lessThan_Suc)
  have "overlaid start {..<n} byte_value fs (translate v (fst s0)) (translate v c)"
    using b by (simp add: pages_backed_def)
  then have "translate v (fst s0) ?pg = None" using overlaid_off [OF _ dist] ok(1) by metis
  moreover have "tables_from ?root (mem (fst s0)) (T' - (\<lambda>i. frame_of ((fs(n := p)) i)) ` {..<Suc n}) (mem c')"
  proof (rule tables_from_trans)
    show "tables_from ?root (mem (fst s0)) (T - (\<lambda>i. frame_of (fs i)) ` {..<n}) (mem c)"
      using b by (simp add: pages_backed_def)
    show "tables_from ?root (mem c) (free_frames a1 - free_frames a') (mem c')" by (rule ms(3))
    have "frame_of (fs i) \<in> T" if "i < n" for i using b that by (simp add: pages_backed_def)
    then show "(T - (\<lambda>i. frame_of (fs i)) ` {..<n}) \<union> (free_frames a1 - free_frames a')
        \<subseteq> T' - (\<lambda>i. frame_of ((fs(n := p)) i)) ` {..<Suc n}"
      using sub T p(3) by (auto simp: T'_def lessThan_Suc)
  qed
  moreover have "inj_on (\<lambda>i. frame_of ((fs(n := p)) i)) {..<Suc n}"
  proof -
    have "inj_on (\<lambda>i. frame_of (fs i)) {..<n}" "\<forall>i<n. frame_of (fs i) \<in> T" using b by (simp_all add: pages_backed_def)
    then show ?thesis using sub(3) by (auto simp: inj_on_def less_Suc_eq)
  qed
  ultimately have "pages_backed v start {..<Suc n} (fs(n := p)) T' s0 (c', a')"
    using b ov ms(2) hold sub fr T ret(3) p(3) unfolding pages_backed_def
    by (auto simp: T'_def less_Suc_eq intro: same_pool_trans)
  then show thesis by (rule that)
qed

text \<open>Unmapping one page of the run again.\<close>

lemma pages_backed_unmap:
  assumes b: "pages_backed v start (insert i I) fs T s0 (c, a)" and run: "page_run start n"
    and i: "i \<notin> I" "insert i I \<subseteq> {..<n}" and inv0: "vm_state_inv v s0"
  shows "pages_backed v start I fs T s0 (snd (vmm_unmap v c (page_of start i)), a)"
proof -
  let ?root = "pml4_phys v" and ?pg = "page_of start i"
  have inv: "vm_inv ?root (mem c) a" using b by (simp add: pages_backed_def)
  have al: "is_page_aligned ?pg" using page_of_word(2) [OF run] i by auto
  have ovl: "overlaid start (insert i I) leaf_value fs (leaf_frame v (fst s0)) (leaf_frame v c)"
    and ovb: "overlaid start (insert i I) byte_value fs (translate v (fst s0)) (translate v c)"
    using b by (simp_all add: pages_backed_def)
  have "leaf_frame v c ?pg = Some (fs i)" using overlaid_at [OF ovl, of i] by simp
  then obtain s' where s': "vm_unmap v (c, a) ?pg = (Inr (fs i), s')" "vm_state_inv v s'"
    "leaf_frame v (fst s') = (\<lambda>w. if page_path w = page_path ?pg then None else leaf_frame v c w)"
    "translate v (fst s') = (\<lambda>w. if page_path w = page_path ?pg then None else translate v c w)"
    using vm.unmap_ok [of v "(c, a)" ?pg "fs i", unfolded fst_conv snd_conv] inv al by blast
  obtain c' where c': "vmm_unmap v c ?pg = (Inr (fs i), c')" "s' = (c', a)"
    using s'(1) by (auto simp: vm_unmap_def split: prod.splits)
  have tf: "tables_from ?root (mem c) {} (mem c')"
    using c'(1) by (cases rule: unmap_spec [OF inv, of ?pg]) auto
  have dist: "page_path (page_of start j) \<noteq> page_path ?pg" if "j \<in> I" for j
    using page_of_distinct [OF run, of j i] i that by auto
  have "translate v (fst s0) ?pg = None" using b by (simp add: pages_backed_def)
  then have none: "translate v (fst s0) w = None" "leaf_frame v (fst s0) w = None"
    if "page_path w = page_path ?pg" for w
    using vm.view_page [OF inv0 that] by simp_all
  have "overlaid start I leaf_value fs (leaf_frame v (fst s0)) (leaf_frame v c')"
    "overlaid start I byte_value fs (translate v (fst s0)) (translate v c')"
    using overlaid_remove [OF ovl s'(3) dist none(2)] overlaid_remove [OF ovb s'(4) dist none(1)]
    by (simp_all add: c'(2))
  moreover have "tables_from ?root (mem (fst s0)) (T - (\<lambda>i. frame_of (fs i)) ` I) (mem c')"
    by (rule tables_from_trans [where R = "T - (\<lambda>i. frame_of (fs i)) ` insert i I", OF _ tf])
      (use b in \<open>auto simp: pages_backed_def\<close>)
  ultimately show ?thesis
    using b s'(2) c' unfolding pages_backed_def by (simp add: inj_on_insert)
qed

lemma unwind_from_spec:
  assumes "pages_backed v start {unat i..<unat m} fs T s0 (c, a)" and "i \<le> m"
    and "page_run start (unat m)" and "vm_state_inv v s0"
  shows "pages_backed v start {} fs T s0 (unwind_from v c start m i, a)"
  using assms
proof (induction v c start m i rule: unwind_from.induct)
  case (1 v c start m i)
  show ?case
  proof (cases "i < m")
    case True
    have si: "unat (i + 1) = Suc (unat i)" using unat_suc_less [OF True] .
    have lt: "unat i < unat m" using True by (simp add: word_less_nat_alt)
    then have "{unat i..<unat m} = insert (unat i) {Suc (unat i)..<unat m}" by auto
    with 1 have "pages_backed v start {Suc (unat i)..<unat m} fs T s0 (snd (vmm_unmap v c (page_of start (unat i))), a)"
      by (intro pages_backed_unmap [where n = "unat m"]) auto
    then have "pages_backed v start {unat (i + 1)..<unat m} fs T s0
        (snd (vmm_unmap v c (VirtAddr (start + i * PAGE_SIZE))), a)"
      by (simp only: si page_of_unat)
    moreover have "i + 1 \<le> m" using lt si by (simp add: word_le_nat_alt)
    ultimately show ?thesis
      using 1 True by (subst unwind_from.simps) simp
  next
    case False
    then show ?thesis using 1 by (subst unwind_from.simps) (simp add: word_less_nat_alt)
  qed
qed

lemma unwind_spec:
  assumes "pages_backed v start {..<unat m} fs T s0 (c, a)" and "page_run start (unat m)" and "vm_state_inv v s0"
  shows "pages_backed v start {} fs T s0 (unwind_partial_growth v c start m, a)"
  using unwind_from_spec [of v start 0 m fs T s0 c a] assms
  by (simp add: unwind_partial_growth_def atLeast0LessThan)

text \<open>Unwinding makes no new tables.\<close>

lemma unwind_from_tables:
  assumes "vm_inv (pml4_phys v) (mem c) a"
  shows "tables_from (pml4_phys v) (mem c) {} (mem (unwind_from v c start m i))"
  using assms
proof (induction v c start m i rule: unwind_from.induct)
  case (1 v c start m i)
  let ?c = "snd (vmm_unmap v c (VirtAddr (start + i * PAGE_SIZE)))"
  have "vm_inv (pml4_phys v) (mem ?c) a \<and> tables_from (pml4_phys v) (mem c) {} (mem ?c)"
    by (cases rule: unmap_spec [OF 1(2), of "VirtAddr (start + i * PAGE_SIZE)"]) (use 1(2) in simp_all)
  then show ?case using 1(1) by (subst unwind_from.simps) (auto intro: tables_from_trans)
qed

text \<open>A round that fails in \<open>map\<close>: the frame goes back to the pool.\<close>

lemma leaf_frame_same: "grown (pml4_phys v) (c, a) (c', a') \<Longrightarrow> leaf_frame v c' = leaf_frame v c"
  by (auto simp: fun_eq_iff grown_def same_walks_def leaf_frame_def)

lemma pages_backed_refused:
  assumes b: "pages_backed v start I fs T s0 (c, a)" and al: "allocate a = Inr (Some p, a1)"
    and m: "vmm_map v c a1 virt p read_write = Inr (Inl e, c', a')"
  obtains T' a'' where "deallocate a' p = Inr (Inr (), a'')" and "pages_backed v start I fs T' s0 (c', a'')"
    and "T \<subseteq> T'"
proof -
  let ?root = "pml4_phys v"
  have inv: "vm_inv ?root (mem c) a" using b by (simp add: pages_backed_def)
  note fa = vm_invD(1) [OF inv]
  note ret = allocate_returns [OF fa al]
  have p: "is_frame_aligned p" "frame_of p \<in> free_frames a" "free_frames a1 = free_frames a - {frame_of p}"
    using fa.alloc_Some [OF fa al] by (simp_all add: frame_of_def)
  have inv1: "vm_inv ?root (mem c) a1" using vm_inv_smaller [OF inv ret(2)] p(3) by simp
  have g: "grown ?root (c, a1) (c', a')" using map_grown [of v "(c, a1)" virt p read_write e "(c', a')"] inv1 m by simp
  then have fr: "free_frames a' \<subseteq> free_frames a1" "same_pool a1 a'" "vm_inv ?root (mem c') a'"
    "tables_from ?root (mem c) (free_frames a1 - free_frames a') (mem c')" by (simp_all add: grown_def)
  have range: "frame_of p < unat (total_frames a')" "frame_of p \<notin> free_frames a'"
    using p ret(3) fr(1,2) by (auto simp: free_frames_def same_pool_def)
  then obtain a'' where d: "deallocate a' p = Inr (Inr (), a'')" "fa_inv a''" "same_pool a' a''"
      "free_frames a'' = insert (frame_of p) (free_frames a')"
    using deallocate_Ok [OF vm_invD(1) [OF fr(3)], of p] by (auto simp: frame_of_def)
  define T' where "T' = free_frames (snd s0) - free_frames a''"
  have T: "free_frames a = free_frames (snd s0) - T" "T \<subseteq> free_frames (snd s0)"
    using b by (simp_all add: pages_backed_def)
  have sub: "T \<subseteq> T'" "free_frames a1 - free_frames a' \<subseteq> T' - T" "free_frames a'' \<subseteq> free_frames (snd s0)"
    using T p fr(1) d(4) by (auto simp: T'_def)
  have tabs: "unat (frame_number u) \<notin> free_frames a''"
    if "valid_path q" "length q \<le> 3" "low_table u" "table_at (mem c') ?root q = Some u" for q u
  proof -
    have "unat (frame_number u) \<notin> free_frames a'" using vm_invD(3) [OF fr(3) that] .
    moreover have "unat (frame_number u) \<noteq> frame_of p"
      using fr(4) that vm_invD(3) [OF inv that(1-3)] p unfolding tables_from_def by fastforce
    ultimately show ?thesis using d(4) by simp
  qed
  have inv2: "vm_inv ?root (mem c') a''"
    unfolding vm_inv_def using d(2) vm_invD(2) [OF fr(3)] tabs by blast
  have tf: "tables_from ?root (mem (fst s0)) (T' - (\<lambda>i. frame_of (fs i)) ` I) (mem c')"
  proof (rule tables_from_trans [OF _ fr(4)])
    show "tables_from ?root (mem (fst s0)) (T - (\<lambda>i. frame_of (fs i)) ` I) (mem c)"
      using b by (simp add: pages_backed_def)
    have "frame_of (fs i) \<in> T" if "i \<in> I" for i using b that by (simp add: pages_backed_def)
    then show "(T - (\<lambda>i. frame_of (fs i)) ` I) \<union> (free_frames a1 - free_frames a') \<subseteq> T' - (\<lambda>i. frame_of (fs i)) ` I"
      using sub by auto
  qed
  have same: "translate v c' = translate v c" "leaf_frame v c' = leaf_frame v c"
    using translate_same [OF inv1 g] leaf_frame_same [OF g] by (simp_all add: fun_eq_iff)
  have "same_pool (snd s0) a''" using b ret(3) fr(2) d(3) by (auto simp: pages_backed_def intro: same_pool_trans)
  moreover have "free_frames a'' = free_frames (snd s0) - T'" using sub(3) by (auto simp: T'_def)
  moreover have "T' \<subseteq> free_frames (snd s0)" by (auto simp: T'_def)
  ultimately have "pages_backed v start I fs T' s0 (c', a'')"
    using b inv2 tf sub(1) unfolding pages_backed_def fst_conv snd_conv same by blast
  then show thesis using that d(1) sub(1) by blast
qed

text \<open>
  The loop: either all pages are backed, or the view is the one before and the frames of the
  pages that had been mapped stay out of the pool.
\<close>

lemma pages_backed_allocate_none:
  assumes "pages_backed v start I fs T s0 (c, a)" and "allocate a = Inr (None, a1)"
  shows "pages_backed v start I fs T s0 (c, a1)" and "free_frames a1 = {}"
proof -
  have inv: "vm_inv (pml4_phys v) (mem c) a" using assms(1) by (simp add: pages_backed_def)
  note fa = vm_invD(1) [OF inv]
  have f: "free_frames a = {}" "free_frames a1 = free_frames a"
    using fa.alloc_None [OF fa assms(2)] by simp_all
  then show "free_frames a1 = {}" by simp
  have "vm_inv (pml4_phys v) (mem c) a1" using vm_inv_smaller [OF inv] allocate_returns(2) [OF fa assms(2)] f by simp
  then show "pages_backed v start I fs T s0 (c, a1)"
    using assms(1) f allocate_returns(3) [OF fa assms(2)] by (auto simp: pages_backed_def intro: same_pool_trans)
qed

definition growth_result ::
    "vmm \<Rightarrow> u64 \<Rightarrow> nat \<Rightarrow> nat \<Rightarrow> cpu \<times> frame_allocator \<Rightarrow> bool \<times> cpu \<times> frame_allocator \<Rightarrow> bool" where
  "growth_result v start n m s0 r \<longleftrightarrow>
     (if fst r then \<exists>fs T. pages_backed v start {..<n} fs T s0 (snd r)
      else \<exists>k fs T. m \<le> k \<and> k < n \<and> pages_backed v start {} fs T s0 (snd r)
        \<and> (\<forall>i<k. frame_of (fs i) \<in> T) \<and> inj_on (\<lambda>i. frame_of (fs i)) {..<k}
        \<and> tables_from (pml4_phys v) (mem (fst s0)) (T - (\<lambda>i. frame_of (fs i)) ` {..<k}) (mem (fst (snd r))))"

lemma growth_result_Suc: "growth_result v start n (Suc m) s0 r \<Longrightarrow> growth_result v start n m s0 r"
  unfolding growth_result_def by (metis Suc_leD)

lemma grow_pages_spec:
  assumes "pages_backed v start {..<unat m} fs T s0 (c, a)" and "m \<le> n" and "page_run start (unat n)"
    and "vm_state_inv v s0"
  shows "\<exists>r. grow_pages v c a start n m = Inr r \<and> growth_result v start (unat n) (unat m) s0 r"
  using assms
proof (induction v c a start n m arbitrary: fs T rule: grow_pages.induct)
  case (1 v c a start n m)
  show ?case
  proof (cases "m < n")
    case False
    then have "m = n" using 1(3) by simp
    then show ?thesis using 1(2) by (subst grow_pages.simps) (auto simp: growth_result_def)
  next
    case True
    have lt: "unat m < unat n" using True by (simp add: word_less_nat_alt)
    have sm: "unat (m + 1) = Suc (unat m)" using unat_suc_less [OF True] .
    have run: "page_run start (unat m)" "page_run start (Suc (unat m))"
      using 1(4) lt by (auto simp: page_run_def)
    have failed: "growth_result v start (unat n) (unat m) s0 (False, unwind_partial_growth v c' start m, a')"
      if "pages_backed v start {..<unat m} fs T' s0 (c', a')" for T' c' a'
    proof -
      have "pages_backed v start {} fs T' s0 (unwind_partial_growth v c' start m, a')"
        "\<forall>i<unat m. frame_of (fs i) \<in> T'" "inj_on (\<lambda>i. frame_of (fs i)) {..<unat m}"
        using unwind_spec [OF that run(1) 1(5)] that by (simp_all add: pages_backed_def)
      moreover have "tables_from (pml4_phys v) (mem (fst s0)) (T' - (\<lambda>i. frame_of (fs i)) ` {..<unat m})
          (mem (unwind_partial_growth v c' start m))"
        by (rule tables_from_trans [where R = "T' - (\<lambda>i. frame_of (fs i)) ` {..<unat m}" and S = "{}" and m' = "mem c'"])
          (use that in \<open>auto simp: pages_backed_def unwind_partial_growth_def intro!: unwind_from_tables\<close>)
      ultimately show ?thesis using lt by (auto simp: growth_result_def)
    qed
    have fa: "fa_inv a" using 1(2) by (auto simp: pages_backed_def vm_inv_def)
    show ?thesis
    proof (cases rule: fa.alloc_cases [OF fa])
      case none: (1 a1)
      have "grow_pages v c a start n m = Inr (False, unwind_partial_growth v c start m, a1)"
        using none(1) True by (subst grow_pages.simps) simp
      then show ?thesis using failed [OF pages_backed_allocate_none(1) [OF 1(2) none(1)]] by blast
    next
      case some: (2 p a1)
      let ?virt = "VirtAddr (start + m * PAGE_SIZE)"
      have inv1: "vm_state_inv v (c, a1)"
        using vm_inv_smaller [of "pml4_phys v" "mem c" a a1] 1(2) some(2,6) by (simp add: pages_backed_def)
      obtain r c' a' where mp: "vmm_map v c a1 ?virt p read_write = Inr (r, c', a')"
        using vm.map_total [OF inv1, of ?virt p read_write] by auto
      show ?thesis
      proof (cases r)
        case (Inl e)
        obtain T' a'' where d: "deallocate a' p = Inr (Inr (), a'')" "pages_backed v start {..<unat m} fs T' s0 (c', a'')"
          using pages_backed_refused [OF 1(2) some(1)] mp Inl by metis
        have "grow_pages v c a start n m = Inr (False, unwind_partial_growth v c' start m, a'')"
          using some(1) True mp Inl d(1) by (subst grow_pages.simps) simp
        then show ?thesis using failed [OF d(2)] by blast
      next
        case (Inr u)
        then have mp': "vmm_map v c a1 (page_of start (unat m)) p read_write = Inr (Inr (), c', a')"
          using mp by (simp add: page_of_unat)
        obtain T' where b': "pages_backed v start {..<Suc (unat m)} (fs(unat m := p)) T' s0 (c', a')"
          by (rule pages_backed_map [OF 1(2) run(2) some(1) mp'])
        have step: "grow_pages v c a start n m = grow_pages v c' a' start n (m + 1)"
          using some(1) True mp Inr by (subst grow_pages.simps) simp
        have le: "m + 1 \<le> n" using lt sm by (simp add: word_le_nat_alt)
        have "\<exists>r. grow_pages v c' a' start n (m + 1) = Inr r \<and> growth_result v start (unat n) (unat (m + 1)) s0 r"
          using 1(1) [OF True, of "(Some p, a1)" "Some p" a1 p "(Inr u, c', a')" "Inr u" "(c', a')" c' a' u "fs(unat m := p)" T']
            some(1) mp Inr b' le 1(4,5) by (simp add: sm fun_upd_def)
        then show ?thesis unfolding step sm using growth_result_Suc by blast
      qed
    qed
  qed
qed

section \<open>The heap region\<close>

definition HEAP_PAGES :: nat where
  "HEAP_PAGES = 0x77FF80000"

text \<open>The cursor after \<open>n\<close> pages, and the bytes below it.\<close>

definition heap_next :: "nat \<Rightarrow> u64" where
  "heap_next n = HEAP_REGION_START + of_nat n * PAGE_SIZE"

definition heap_bytes :: "nat \<Rightarrow> nat set" where
  "heap_bytes n = {0xFFFF880000000000..<0xFFFF880000000000 + n * 4096}"

lemma heap_page_run: "page_run HEAP_REGION_START (Suc HEAP_PAGES)"
  by (simp add: page_run_def HEAP_REGION_START_def HEAP_PAGES_def)

lemma unat_heap_next: "n \<le> HEAP_PAGES \<Longrightarrow> unat (heap_next n) = 0xFFFF880000000000 + n * 4096"
  using page_of_word(1) [OF heap_page_run, of n]
  by (simp add: page_of_def heap_next_def HEAP_REGION_START_def)

lemma page_of_heap_next: "page_of (heap_next n) i = page_of HEAP_REGION_START (n + i)"
  by (simp add: page_of_def heap_next_def algebra_simps)

lemma heap_next_add: "heap_next (n + k) = heap_next n + of_nat k * PAGE_SIZE"
  by (simp add: heap_next_def algebra_simps)

text \<open>
  Every page below the cursor is mapped to a frame of its own, which is neither free nor holds a
  page table.
\<close>

definition heap_backed :: "vmm \<Rightarrow> cpu \<Rightarrow> frame_allocator \<Rightarrow> nat \<Rightarrow> bool" where
  "heap_backed v c a n \<longleftrightarrow> vm_inv (pml4_phys v) (mem c) a
     \<and> (\<exists>fs. (\<forall>i<n. leaf_frame v c (page_of HEAP_REGION_START i) = Some (fs i)
           \<and> frame_of (fs i) \<notin> free_frames a)
         \<and> inj_on (\<lambda>i. frame_of (fs i)) {..<n}
         \<and> (\<forall>p u. valid_path p \<and> length p \<le> 3 \<and> low_table u \<and> table_at (mem c) (pml4_phys v) p = Some u \<longrightarrow>
             frame_of u \<notin> (\<lambda>i. frame_of (fs i)) ` {..<n}))"

lemma heap_backed_inv: "heap_backed v c a n \<Longrightarrow> vm_state_inv v (c, a)"
  by (simp add: heap_backed_def)

lemma inj_on_append:
  fixes f g :: "nat \<Rightarrow> 'a"
  assumes "inj_on f {..<n}" and "inj_on g {..<k}" and "f ` {..<n} \<inter> g ` {..<k} = {}"
  shows "inj_on (\<lambda>i. if i < n then f i else g (i - n)) {..<n + k}"
proof (rule inj_onI)
  fix i j
  assume i: "i \<in> {..<n + k}" and j: "j \<in> {..<n + k}"
    and eq: "(if i < n then f i else g (i - n)) = (if j < n then f j else g (j - n))"
  have dj: "f l \<noteq> g (m - n)" if "l < n" "m < n + k" "\<not> m < n" for l m
    using assms(3) that by (simp add: disjoint_iff) (metis lessThan_iff less_diff_conv2 add.commute image_eqI not_less)
  consider "i < n" "j < n" | "\<not> i < n" "\<not> j < n" | "i < n" "\<not> j < n" | "\<not> i < n" "j < n" by blast
  then show "i = j"
  proof cases
    case 1
    then show ?thesis using eq inj_onD [OF assms(1), of i j] by simp
  next
    case 2
    then have "i - n = j - n" using eq i j inj_onD [OF assms(2), of "i - n" "j - n"] by simp
    then show ?thesis using 2 by simp
  next
    case 3
    then show ?thesis using dj [of i j] eq j by simp
  next
    case 4
    then show ?thesis using dj [of j i] eq i by simp
  qed
qed

lemma heap_backed_grown:
  assumes h: "heap_backed v c a n" and b: "pages_backed v (heap_next n) {..<k} gs T (c, a) (c', a')"
    and k: "n + k \<le> HEAP_PAGES"
  shows "heap_backed v c' a' (n + k)"
proof -
  let ?root = "pml4_phys v"
  obtain fs where fs: "\<forall>i<n. leaf_frame v c (page_of HEAP_REGION_START i) = Some (fs i) \<and> frame_of (fs i) \<notin> free_frames a"
    "inj_on (\<lambda>i. frame_of (fs i)) {..<n}"
    "\<And>p u. valid_path p \<Longrightarrow> length p \<le> 3 \<Longrightarrow> low_table u \<Longrightarrow> table_at (mem c) ?root p = Some u \<Longrightarrow>
       frame_of u \<notin> (\<lambda>i. frame_of (fs i)) ` {..<n}"
    using h unfolding heap_backed_def by blast
  define hs where "hs i = (if i < n then fs i else gs (i - n))" for i
  have ov: "overlaid (heap_next n) {..<k} leaf_value gs (leaf_frame v c) (leaf_frame v c')"
    and T: "free_frames a' = free_frames a - T" "T \<subseteq> free_frames a" "\<forall>i<k. frame_of (gs i) \<in> T"
      "inj_on (\<lambda>i. frame_of (gs i)) {..<k}"
    and tf: "tables_from ?root (mem c) (T - (\<lambda>i. frame_of (gs i)) ` {..<k}) (mem c')"
    and inv: "vm_inv ?root (mem c') a'"
    using b by (simp_all add: pages_backed_def)
  have leaf: "leaf_frame v c' (page_of HEAP_REGION_START i) = Some (hs i)" if "i < n + k" for i
  proof (cases "i < n")
    case True
    have "page_path (page_of (heap_next n) j) \<noteq> page_path (page_of HEAP_REGION_START i)" if "j \<in> {..<k}" for j
      using page_of_distinct [OF heap_page_run, of "n + j" i] k True that by (simp add: page_of_heap_next)
    then show ?thesis using overlaid_off [OF ov] fs(1) True by (simp add: hs_def)
  next
    case False
    then have "n + (i - n) = i" "i - n < k" using that by simp_all
    then show ?thesis using overlaid_at [OF ov, of "i - n"] False by (simp add: page_of_heap_next hs_def)
  qed
  have old: "frame_of (fs i) \<notin> free_frames a" if "i < n" for i using fs(1) that by simp
  have free: "frame_of (hs i) \<notin> free_frames a'" if "i < n + k" for i
    using old T that by (auto simp: hs_def)
  have inj: "inj_on (\<lambda>i. frame_of (hs i)) {..<n + k}"
  proof -
    have "f \<notin> (\<lambda>i. frame_of (gs i)) ` {..<k}" if "f \<in> (\<lambda>i. frame_of (fs i)) ` {..<n}" for f
      using that
    proof
      fix i assume "f = frame_of (fs i)" "i \<in> {..<n}"
      then have "f \<notin> T" using old T(2) by auto
      then show ?thesis using T(3) by auto
    qed
    then have "inj_on (\<lambda>i. if i < n then frame_of (fs i) else frame_of (gs (i - n))) {..<n + k}"
      by (intro inj_on_append fs(2) T(4)) blast
    then show ?thesis by (simp add: hs_def if_distrib cong: if_cong)
  qed
  have img: "(\<lambda>i. frame_of (hs i)) ` {..<n + k} \<subseteq> (\<lambda>i. frame_of (fs i)) ` {..<n} \<union> (\<lambda>i. frame_of (gs i)) ` {..<k}"
  proof
    fix f
    assume "f \<in> (\<lambda>i. frame_of (hs i)) ` {..<n + k}"
    then obtain i where i: "i < n + k" "f = frame_of (hs i)" by auto
    then show "f \<in> (\<lambda>i. frame_of (fs i)) ` {..<n} \<union> (\<lambda>i. frame_of (gs i)) ` {..<k}"
      by (cases "i < n") (auto simp: hs_def)
  qed
  have tabs: "frame_of u \<notin> (\<lambda>i. frame_of (hs i)) ` {..<n + k}"
    if u: "valid_path p" "length p \<le> 3" "low_table u" "table_at (mem c') ?root p = Some u" for p u
  proof -
    consider "table_at (mem c) ?root p = Some u" | "frame_of u \<in> T - (\<lambda>i. frame_of (gs i)) ` {..<k}"
      using tf u unfolding tables_from_def frame_of_def by blast
    then show ?thesis
    proof cases
      case 1
      have "frame_of u \<notin> free_frames a"
        using vm_invD(3) [of ?root "mem c" a, OF _ u(1-3) 1] h by (simp add: heap_backed_def frame_of_def)
      then have "frame_of u \<notin> T" using T(2) by blast
      then have "frame_of u \<notin> (\<lambda>i. frame_of (gs i)) ` {..<k}" using T(3) by auto
      then show ?thesis using fs(3) [OF u(1-3) 1] img by blast
    next
      case 2
      then have "frame_of u \<in> free_frames a" using T(2) by blast
      then have "frame_of u \<notin> (\<lambda>i. frame_of (fs i)) ` {..<n}" using old by auto
      then show ?thesis using 2 img by blast
    qed
  qed
  show ?thesis
    unfolding heap_backed_def using inv leaf free inj tabs by blast
qed

lemma heap_backed_failed:
  "heap_backed v c a n \<Longrightarrow> pages_backed v (heap_next n) {} fs T (c, a) (c', a') \<Longrightarrow> n \<le> HEAP_PAGES \<Longrightarrow>
    heap_backed v c' a' n"
  using heap_backed_grown [of v c a n 0 fs T c' a'] by simp

section \<open>The amount to map\<close>

definition growth_pages :: "layout \<Rightarrow> nat" where
  "growth_pages l = max 16 ((unat (layout_size l) + 4095) div 4096)"

lemma growth_amount:
  assumes "servable l"
  shows "unat (pages_to_map l) = growth_pages l" and "unat (pages_to_map l * PAGE_SIZE) = growth_pages l * 4096"
    and "growth_pages l \<le> 2 ^ 51" and "16 \<le> growth_pages l"
proof -
  have size: "unat (layout_size l) \<le> 2 ^ 63" using assms by (auto simp: servable_def)
  have "unat (div_ceil (layout_size l) PAGE_SIZE) = (unat (layout_size l) + 4095) div 4096"
    using unat_div_ceil [of PAGE_SIZE "layout_size l"] by (simp add: PAGE_SIZE_def)
  then show p: "unat (pages_to_map l) = growth_pages l"
    by (simp add: pages_to_map_def unat_max growth_pages_def HEAP_GROWTH_MIN_PAGES_def)
  show le: "growth_pages l \<le> 2 ^ 51" using size by (simp add: growth_pages_def)
  show "unat (pages_to_map l * PAGE_SIZE) = growth_pages l * 4096"
    using le p by (subst unat_mult_no_wrap) (simp_all add: PAGE_SIZE_def)
  show "16 \<le> growth_pages l" by (simp add: growth_pages_def)
qed

lemma grow_checked:
  assumes n: "next_unmapped st = heap_next n" "n \<le> HEAP_PAGES" and l: "servable l"
  shows "grow k st l =
    (if n + growth_pages l \<le> HEAP_PAGES
     then grow_locked k st (heap_next n) (pages_to_map l) (heap_next (n + growth_pages l))
     else Some (Inr (False, st, k)))"
proof (cases "unat (heap_next n) + growth_pages l * 4096 \<le> 0xFFFFFFFF80000000")
  case True
  then have fit: "n + growth_pages l \<le> HEAP_PAGES" using unat_heap_next [OF n(2)] by (simp add: HEAP_PAGES_def)
  have "unat (heap_next n + pages_to_map l * PAGE_SIZE) = unat (heap_next n) + growth_pages l * 4096"
    using True growth_amount(2) [OF l] by (subst unat_add_no_wrap) simp_all
  then have "heap_next n + pages_to_map l * PAGE_SIZE = heap_next (n + growth_pages l)"
    using unat_heap_next [OF n(2)] unat_heap_next [OF fit] by (simp add: word_unat_eq_iff)
  moreover have "checked_add (heap_next n) (pages_to_map l * PAGE_SIZE) = Some (heap_next n + pages_to_map l * PAGE_SIZE)"
    using True growth_amount(2) [OF l] by (simp add: checked_add_def)
  moreover have "heap_next (n + growth_pages l) \<le> HEAP_REGION_END"
    using True unat_heap_next [OF n(2)] unat_heap_next [OF fit] by (simp add: word_le_nat_alt HEAP_REGION_END_def)
  ultimately show ?thesis using n(1) fit by (simp add: grow_def Let_def)
next
  case False
  then have "\<not> n + growth_pages l \<le> HEAP_PAGES" using unat_heap_next [OF n(2)] by (simp add: HEAP_PAGES_def)
  moreover have "\<not> e \<le> HEAP_REGION_END" if "checked_add (heap_next n) (pages_to_map l * PAGE_SIZE) = Some e" for e
    using False checked_add_unat [OF that] growth_amount(2) [OF l] by (simp add: word_le_nat_alt HEAP_REGION_END_def)
  ultimately show ?thesis using n(1) by (simp add: grow_def Let_def split: option.splits)
qed

section \<open>When growth succeeds\<close>

lemma tables_missing_length: "tables_missing m t p \<le> length p"
  by (induction p arbitrary: t) (auto intro: le_SucI)

text \<open>
  What mapping the pages \<open>I\<close> of a run costs and keeps: at most four frames below the identity-map
  limit for each page, every other walk, the register of the root and the truth of the cache.
\<close>

definition pages_added :: "vmm \<Rightarrow> u64 \<Rightarrow> nat set \<Rightarrow> cpu \<times> frame_allocator \<Rightarrow> cpu \<times> frame_allocator \<Rightarrow> bool" where
  "pages_added v start I s s' \<longleftrightarrow> card (low_free (snd s)) \<le> card (low_free (snd s')) + 4 * card I
     \<and> cr3 (fst s') = cr3 (fst s)
     \<and> (tlb_coherent v (fst s) \<longrightarrow> (\<forall>i \<in> I. canonical (virt_as_u64 (page_of start i))) \<longrightarrow> tlb_coherent v (fst s'))
     \<and> (\<forall>w. (\<forall>i \<in> I. indices w \<noteq> indices (page_of start i)) \<longrightarrow>
          walk (mem (fst s')) (pml4_phys v) (indices w) = walk (mem (fst s)) (pml4_phys v) (indices w))"

lemma pages_added_none [simp]: "pages_added v start {} s s"
  by (simp add: pages_added_def)

lemma pages_added_trans:
  assumes "pages_added v start I s s'" and "pages_added v start J s' s''" and "I \<inter> J = {}" and "finite I" and "finite J"
  shows "pages_added v start (I \<union> J) s s''"
  using assms by (auto simp: pages_added_def card_Un_disjoint ball_Un)

text \<open>One round on a page that is not mapped: a frame for it and at most three for tables.\<close>

lemma map_round:
  assumes inv: "vm_state_inv v (c, a)" and pg: "is_page_aligned virt"
    and walk: "walk (mem c) (pml4_phys v) (indices virt) = Missing" and low: "4 \<le> card (low_free a)"
  obtains p a1 c' a' where "allocate a = Inr (Some p, a1)" and "vmm_map v c a1 virt p flags = Inr (Inr (), c', a')"
    and "vm_state_inv v (c', a')" and "\<And>start i. virt = page_of start i \<Longrightarrow> pages_added v start {i} (c, a) (c', a')"
proof -
  let ?root = "pml4_phys v"
  have fa: "fa_inv a" using vm_invD(1) inv by auto
  have "free_frames a \<noteq> {}"
  proof
    assume "free_frames a = {}"
    then show False using low by (simp add: low_free_def)
  qed
  then obtain p a1 where al: "allocate a = Inr (Some p, a1)" "fa_inv a1" "is_frame_aligned p"
    "free_frames a1 = free_frames a - {unat (frame_number p)}"
    by (cases rule: fa.alloc_cases [OF fa]) auto
  have inv1: "vm_inv ?root (mem c) a1" using vm_inv_smaller [of ?root "mem c" a a1] inv al by simp
  have "low_free a1 = low_free a - {unat (frame_number p)}" using al(4) by (auto simp: low_free_def)
  then have card1: "card (low_free a) \<le> card (low_free a1) + 1"
    using diff_card_le_card_Diff [of "{unat (frame_number p)}" "low_free a"] by simp
  have t: "tables_missing (mem c) ?root (table_path virt) \<le> 3"
    using tables_missing_length [of "mem c" ?root "table_path virt"] by (simp add: table_path_simps)
  show thesis
  proof (cases rule: map_spec [OF inv1, of virt p flags])
    case (1 e c' a')
    then show thesis using 1(3) pg al(3) walk t card1 low by (simp add: map_refused_def split: map_error.splits)
  next
    case (2 c1 c' a')
    have "walk (mem c') ?root (indices w) = walk (mem c) ?root (indices w)" if "indices w \<noteq> indices virt" for w
      using 2(8) that by (simp add: walks_updated_def)
    moreover have "cr3 c' = cr3 c" by (subst 2(4)) simp
    moreover have "tlb_coherent v c'" if "tlb_coherent v c" "canonical (virt_as_u64 virt)"
      using tlb_coherent_update [OF that(1) inv1 2(3,8,4) that(2)] .
    ultimately show thesis using that [OF al(1) 2(1)] 2(3,9) t card1 by (simp add: pages_added_def)
  qed
qed

lemma grow_pages_succeeds:
  assumes "vm_state_inv v (c, a)" and "m \<le> n" and "page_run start (unat n)"
    and "\<And>i. unat m \<le> i \<Longrightarrow> i < unat n \<Longrightarrow> walk (mem c) (pml4_phys v) (indices (page_of start i)) = Missing"
    and "4 * (unat n - unat m) \<le> card (low_free a)"
  shows "\<exists>c' a'. grow_pages v c a start n m = Inr (True, c', a') \<and> pages_added v start {unat m..<unat n} (c, a) (c', a')"
  using assms
proof (induction v c a start n m rule: grow_pages.induct)
  case (1 v c a start n m)
  show ?case
  proof (cases "m < n")
    case False
    then show ?thesis by (subst grow_pages.simps) (simp add: word_less_nat_alt)
  next
    case True
    have lt: "unat m < unat n" using True by (simp add: word_less_nat_alt)
    have sm: "unat (m + 1) = Suc (unat m)" using unat_suc_less [OF True] .
    let ?virt = "page_of start (unat m)"
    have low: "4 \<le> card (low_free a)" using 1(6) lt by simp
    obtain p a1 c' a' where r: "allocate a = Inr (Some p, a1)" "vmm_map v c a1 ?virt p read_write = Inr (Inr (), c', a')"
      "vm_state_inv v (c', a')" "pages_added v start {unat m} (c, a) (c', a')"
      using map_round [OF 1(2) page_of_word(2) [OF 1(4) lt] 1(5) [OF order_refl lt] low, of read_write] by metis
    have step: "grow_pages v c a start n m = grow_pages v c' a' start n (m + 1)"
      using r(1,2) True by (subst grow_pages.simps) (simp add: page_of_unat)
    have walks: "walk (mem c') (pml4_phys v) (indices (page_of start i)) = Missing" if "unat (m + 1) \<le> i" "i < unat n" for i
    proof -
      have "indices (page_of start i) \<noteq> indices ?virt"
        using page_of_distinct [OF 1(4) that(2) lt] that(1) sm by (simp add: indices_eq_iff)
      then show ?thesis using r(4) 1(5) [of i] that sm by (simp add: pages_added_def)
    qed
    have "4 * (unat n - unat (m + 1)) \<le> card (low_free a')" using 1(6) r(4) sm lt by (auto simp: pages_added_def)
    moreover have "m + 1 \<le> n" using lt sm by (simp add: word_le_nat_alt)
    ultimately have "\<exists>c'' a''. grow_pages v c' a' start n (m + 1) = Inr (True, c'', a'')
        \<and> pages_added v start {Suc (unat m)..<unat n} (c', a') (c'', a'')"
      using 1(1) [OF True, of "(Some p, a1)" "Some p" a1 p "(Inr (), c', a')" "Inr ()" "(c', a')" c' a' "()"]
        r(1-3) 1(4) walks by (simp add: page_of_unat sm)
    moreover have "{unat m} \<union> {Suc (unat m)..<unat n} = {unat m..<unat n}" using lt by auto
    ultimately show ?thesis
      unfolding step using pages_added_trans [OF r(4), of "{Suc (unat m)..<unat n}"] by fastforce
  qed
qed

text \<open>
  Growth for a request cannot fail if there is room in the region, the globals are there, no page
  of the growth is mapped and there are four free frames below the identity-map limit per page.
\<close>

definition growth_supply :: "kernel \<Rightarrow> nat \<Rightarrow> nat \<Rightarrow> bool" where
  "growth_supply k n g \<longleftrightarrow> n + g \<le> HEAP_PAGES \<and> (\<exists>a v. guard_deref (FRAME_ALLOCATOR k) = Some a
     \<and> guard_deref (VMM k) = Some v \<and> 4 * g \<le> card (low_free a)
     \<and> (\<forall>i<g. walk (mem (machine k)) (pml4_phys v) (indices (page_of (heap_next n) i)) = Missing))"

abbreviation growth_possible :: "kernel \<Rightarrow> nat \<Rightarrow> layout \<Rightarrow> bool" where
  "growth_possible k n l \<equiv> growth_supply k n (growth_pages l)"

lemma growth_supply_heap_mem [simp]: "growth_supply (k\<lparr>heap_mem := m\<rparr>) n g \<longleftrightarrow> growth_supply k n g"
  by (simp add: growth_supply_def)

text \<open>What a growth from \<open>n\<close> to \<open>n'\<close> pages leaves, if there was the supply for it.\<close>

definition kernel_extended :: "kernel \<Rightarrow> nat \<Rightarrow> kernel \<Rightarrow> nat \<Rightarrow> bool" where
  "kernel_extended k n k' n' \<longleftrightarrow> (\<forall>a v. guard_deref (FRAME_ALLOCATOR k) = Some a \<longrightarrow> guard_deref (VMM k) = Some v \<longrightarrow>
     growth_supply k n (n' - n) \<longrightarrow> (\<exists>a'. guard_deref (FRAME_ALLOCATOR k') = Some a' \<and> guard_deref (VMM k') = Some v
       \<and> pages_added v (heap_next n) {..<n' - n} (machine k, a) (machine k', a')))"

lemma kernel_extended_heap_mem [simp]:
  "kernel_extended (k\<lparr>heap_mem := m\<rparr>) n k' n' \<longleftrightarrow> kernel_extended k n k' n'"
  "kernel_extended k n (k'\<lparr>heap_mem := m\<rparr>) n' \<longleftrightarrow> kernel_extended k n k' n'"
  by (simp_all add: kernel_extended_def)

lemma kernel_extended_refl [simp]: "kernel_extended k n k n"
  by (simp add: kernel_extended_def)

section \<open>The invariant of the heap\<close>

text \<open>
  \<open>n\<close> pages are mapped below the cursor; the free bytes and the blocks \<open>live\<close> handed out lie in
  them; all locks are free.
\<close>

definition heap_ok :: "kernel_heap \<Rightarrow> kernel \<Rightarrow> (u64 \<times> layout) set \<Rightarrow> nat \<Rightarrow> bool" where
  "heap_ok h k live n \<longleftrightarrow> \<not> locked h \<and> next_unmapped (guard_deref h) = heap_next n \<and> n \<le> HEAP_PAGES
     \<and> (\<exists>F. free_rep (allocator (guard_deref h)) (heap_mem k) F \<and> held_ok live (heap_bytes n) F)"

definition kernel_ok :: "kernel \<Rightarrow> nat \<Rightarrow> bool" where
  "kernel_ok k n \<longleftrightarrow> \<not> locked (FRAME_ALLOCATOR k) \<and> \<not> locked (VMM k)
     \<and> (case (guard_deref (FRAME_ALLOCATOR k), guard_deref (VMM k)) of
          (Some a, Some v) \<Rightarrow> heap_backed v (machine k) a n | _ \<Rightarrow> n = 0)"

lemma heap_region_ok:
  assumes "n + g \<le> HEAP_PAGES" and "0 < g"
  shows "region_ok (heap_next n) (g * 4096)"
    and "{unat (heap_next n)..<unat (heap_next n) + g * 4096} \<inter> heap_bytes n = {}"
    and "heap_bytes n \<union> {unat (heap_next n)..<unat (heap_next n) + g * 4096} = heap_bytes (n + g)"
proof -
  have u: "unat (heap_next n) = 0xFFFF880000000000 + n * 4096" using assms by (intro unat_heap_next) simp
  have "heap_next n \<noteq> 0" using u by auto
  moreover have "(0xFFFF880000000000 + n * 4096) mod 8 = 0" by simp
  ultimately show "region_ok (heap_next n) (g * 4096)"
    using u assms by (simp add: region_ok_def HEAP_PAGES_def)
  show "{unat (heap_next n)..<unat (heap_next n) + g * 4096} \<inter> heap_bytes n = {}"
    "heap_bytes n \<union> {unat (heap_next n)..<unat (heap_next n) + g * 4096} = heap_bytes (n + g)"
    by (auto simp: u heap_bytes_def)
qed

lemma heap_align_room:
  assumes "n \<le> HEAP_PAGES" and "boundary l \<le> 2 ^ 31"
  shows "align_room l (heap_bytes n)"
  using assms by (auto simp: align_room_def heap_bytes_def HEAP_PAGES_def)

lemma bindR_simps [simp]:
  "bindR None f = None" "bindR (Some (Inl e)) f = Some (Inl e)" "bindR (Some (Inr x)) f = f x"
  by (simp_all add: bindR_def)

text \<open>
  What one call of \<open>grow\<close> does: nothing, if the region is exhausted or the globals are not there;
  a growth undone; or a growth by whole pages that become free bytes.
\<close>

definition kernel_after :: "kernel \<Rightarrow> cpu \<Rightarrow> frame_allocator \<Rightarrow> kernel" where
  "kernel_after k c a = k\<lparr>machine := c,
     FRAME_ALLOCATOR := unlock (guard_deref_mut (the (lock (FRAME_ALLOCATOR k))) (\<lambda>_. Some a)),
     VMM := unlock (the (lock (VMM k)))\<rparr>"

lemma kernel_after_simps [simp]:
  "machine (kernel_after k c a) = c" "heap_mem (kernel_after k c a) = heap_mem k"
  by (simp_all add: kernel_after_def)

lemma kernel_after_ok:
  assumes "kernel_ok k n" and "guard_deref (VMM k) = Some v" and "heap_backed v c a n'"
  shows "kernel_ok (kernel_after k c a) n'" and "kernel_ok (kernel_after k c a\<lparr>heap_mem := m\<rparr>) n'"
  using assms
  by (auto simp: kernel_ok_def kernel_after_def lock_def unlock_def guard_deref_def guard_deref_mut_def)

lemma grow_locked_eq:
  assumes k: "kernel_ok k n" "guard_deref (FRAME_ALLOCATOR k) = Some a" "guard_deref (VMM k) = Some v"
    and g: "grow_pages v (machine k) a start pages 0 = Inr (ok, c', a')"
  shows "grow_locked k st start pages e =
    (if ok then bindR (add_free_region (allocator st) (heap_mem k) start (pages * PAGE_SIZE))
         (\<lambda>(s, m). Some (Inr (True, st\<lparr>next_unmapped := e, allocator := s\<rparr>, kernel_after k c' a'\<lparr>heap_mem := m\<rparr>)))
     else Some (Inr (False, st, kernel_after k c' a')))"
  using k g by (simp add: grow_locked_def kernel_ok_def lock_def guard_deref_def kernel_after_def Let_def)

lemma grow_locked_missing:
  assumes "kernel_ok k n" and "guard_deref (FRAME_ALLOCATOR k) = None \<or> guard_deref (VMM k) = None"
  shows "\<exists>k'. grow_locked k st start pages e = Some (Inr (False, st, k')) \<and> kernel_ok k' n \<and> heap_mem k' = heap_mem k"
  using assms
  by (cases "data (FRAME_ALLOCATOR k)"; cases "data (VMM k)")
    (auto simp: grow_locked_def kernel_ok_def lock_def unlock_def guard_deref_def)

lemma held_ok_grow:
  assumes "held_ok live own F" and "R \<inter> own = {}"
  shows "held_ok live (own \<union> R) (F \<union> R)"
proof -
  have "held_block (own \<union> R) (F \<union> R) b" if "b \<in> live" for b
    using held_ok_block [OF assms(1) that] assms(2) by (auto simp: held_block_def)
  then show ?thesis using assms(1) by (auto simp: held_ok_def)
qed

lemma grow_spec:
  assumes h: "heap_ok h k live n" and k: "kernel_ok k n" and l: "servable l"
  obtains (failed) k' where "grow k (guard_deref h) l = Some (Inr (False, guard_deref h, k'))"
      "kernel_ok k' n" "heap_mem k' = heap_mem k" "\<not> growth_possible k n l"
  | (grown) s' k' F where
      "grow k (guard_deref h) l = Some (Inr (True, \<lparr>allocator = s', next_unmapped = heap_next (n + growth_pages l)\<rparr>, k'))"
      "kernel_ok k' (n + growth_pages l)" "n + growth_pages l \<le> HEAP_PAGES"
      "free_rep (allocator (guard_deref h)) (heap_mem k) F" "held_ok live (heap_bytes n) F"
      "free_rep s' (heap_mem k') (F \<union> {unat (heap_next n)..<unat (heap_next n) + growth_pages l * 4096})"
      "held_ok live (heap_bytes (n + growth_pages l)) (F \<union> {unat (heap_next n)..<unat (heap_next n) + growth_pages l * 4096})"
      "same_outside (F \<union> {unat (heap_next n)..<unat (heap_next n) + growth_pages l * 4096}) (heap_mem k) (heap_mem k')"
      "kernel_extended k n k' (n + growth_pages l)"
proof -
  let ?st = "guard_deref h" and ?g = "growth_pages l"
  have st: "next_unmapped ?st = heap_next n" "n \<le> HEAP_PAGES" using h by (simp_all add: heap_ok_def)
  note amount = growth_amount [OF l] and eq = grow_checked [OF st l, of k]
  show thesis
  proof (cases "n + ?g \<le> HEAP_PAGES")
    case False
    then show thesis using failed [of k] eq k by (simp add: growth_supply_def)
  next
    case fit: True
    show thesis
    proof (cases "guard_deref (FRAME_ALLOCATOR k) = None \<or> guard_deref (VMM k) = None")
      case True
      then have "\<not> growth_possible k n l" by (auto simp: growth_supply_def)
      then show thesis using grow_locked_missing [OF k True] failed eq fit by metis
    next
      case False
      then obtain a v where av: "guard_deref (FRAME_ALLOCATOR k) = Some a" "guard_deref (VMM k) = Some v" by auto
      have hb: "heap_backed v (machine k) a n" using k av by (simp add: kernel_ok_def)
      have run: "page_run (heap_next n) (unat (pages_to_map l))"
        using fit unat_heap_next [OF st(2)] amount(1) by (simp add: page_run_def HEAP_PAGES_def)
      obtain ok c' a' where g: "grow_pages v (machine k) a (heap_next n) (pages_to_map l) 0 = Inr (ok, c', a')"
        "growth_result v (heap_next n) ?g 0 (machine k, a) (ok, c', a')"
        using grow_pages_spec [of v "heap_next n" 0 undefined "{}" "(machine k, a)" "machine k" a "pages_to_map l"]
          pages_backed_refl [OF heap_backed_inv [OF hb]] run heap_backed_inv [OF hb] amount(1) by auto
      note eq' = grow_locked_eq [OF k av g(1)]
      have enough: "ok \<and> pages_added v (heap_next n) {..<?g} (machine k, a) (c', a')" if "growth_possible k n l"
        using grow_pages_succeeds [of v "machine k" a 0 "pages_to_map l" "heap_next n"] that av run heap_backed_inv [OF hb] amount(1) g(1)
        by (simp add: growth_supply_def atLeast0LessThan)
      show thesis
      proof (cases ok)
        case False
        then obtain fs T where "pages_backed v (heap_next n) {} fs T (machine k, a) (c', a')"
          using g(2) by (auto simp: growth_result_def)
        then have "heap_backed v c' a' n" using heap_backed_failed [OF hb _ st(2)] by blast
        moreover have "\<not> growth_possible k n l" using enough False by blast
        ultimately show thesis
          using failed [of "kernel_after k c' a'"] eq eq' fit False kernel_after_ok(1) [OF k av(2)] by simp
      next
        case True
        then obtain fs T where "pages_backed v (heap_next n) {..<?g} fs T (machine k, a) (c', a')"
          using g(2) by (auto simp: growth_result_def)
        then have hb': "heap_backed v c' a' (n + ?g)" using heap_backed_grown [OF hb _ fit] by blast
        obtain F where F: "free_rep (allocator ?st) (heap_mem k) F" "held_ok live (heap_bytes n) F"
          using h by (auto simp: heap_ok_def)
        let ?R = "{unat (heap_next n)..<unat (heap_next n) + ?g * 4096}"
        have "0 < ?g" using amount(4) by simp
        note reg = heap_region_ok [OF fit this]
        have FR: "?R \<inter> F = {}" using reg(2) F(2) by (auto simp: held_ok_def)
        obtain s' m' where a: "add_free_region (allocator ?st) (heap_mem k) (heap_next n) (pages_to_map l * PAGE_SIZE)
            = Some (Inr (s', m'))" "free_rep s' m' (F \<union> ?R)" "same_outside (F \<union> ?R) (heap_mem k) m'"
          using fl.add_law [OF F(1), of "heap_next n" "pages_to_map l * PAGE_SIZE"] reg(1) FR amount(2) by auto
        have held: "held_ok live (heap_bytes (n + ?g)) (F \<union> ?R)"
          using held_ok_grow [OF F(2) reg(2)] by (simp add: reg(3))
        have "grow k ?st l = Some (Inr (True, \<lparr>allocator = s', next_unmapped = heap_next (n + ?g)\<rparr>,
            kernel_after k c' a'\<lparr>heap_mem := m'\<rparr>))"
          using eq eq' fit True a(1) by (cases ?st) simp
        moreover have "kernel_extended k n (kernel_after k c' a'\<lparr>heap_mem := m'\<rparr>) (n + ?g)"
          using enough av k
          by (auto simp: kernel_extended_def kernel_after_def kernel_ok_def unlock_def guard_deref_def guard_deref_mut_def lock_def)
        ultimately show thesis
          using grown [OF _ kernel_after_ok(2) [OF k av(2) hb'] fit F _ held] a(2,3) by simp
      qed
    qed
  qed
qed

section \<open>Allocation and deallocation\<close>

lemma boundary_pow2:
  assumes "servable l"
  shows "\<exists>k. boundary l = 2 ^ k"
proof -
  obtain sz al where "request_ok sz al" "unat al = boundary l" using adjusted_servable [OF assms] by blast
  then show ?thesis using unat_pow2 by (auto simp: request_ok_def) metis
qed

text \<open>The pages of a growth hold the request they were mapped for, if a page is aligned enough.\<close>

lemma growth_holds:
  assumes "servable l" and "boundary l \<le> 4096" and "n \<le> HEAP_PAGES"
  shows "room_for l {unat (heap_next n)..<unat (heap_next n) + growth_pages l * 4096} (unat (heap_next n))"
proof -
  obtain k where k: "boundary l = 2 ^ k" using boundary_pow2 [OF assms(1)] by blast
  then have "(2 :: nat) ^ k \<le> 2 ^ 12" using assms(2) by simp
  then have "boundary l dvd 4096" using k le_imp_power_dvd [of k 12 "2 :: nat"] power_le_imp_le_exp [of "2 :: nat" k 12] by simp
  then have page: "boundary l dvd j * 4096" for j by simp
  have "boundary l dvd unat (heap_next n)"
    using page [of "0xFFFF880000000 + n"] by (simp add: unat_heap_next [OF assms(3)])
  moreover have "round_up (unat (layout_size l)) (boundary l) \<le> growth_pages l * 4096"
  proof (rule round_up_least [OF _ page])
    have "unat (layout_size l) \<le> (unat (layout_size l) + 4095) div 4096 * 4096" by simp
    also have "\<dots> \<le> growth_pages l * 4096" by (simp add: growth_pages_def)
    finally show "unat (layout_size l) \<le> growth_pages l * 4096" .
  qed
  then have "extent l \<le> growth_pages l * 4096" using growth_amount(4) [OF assms(1)] by (simp add: extent_def)
  ultimately show ?thesis by (auto simp: room_for_def)
qed

lemma room_for_mono: "room_for l F st \<Longrightarrow> F \<subseteq> G \<Longrightarrow> room_for l G st"
  by (auto simp: room_for_def)

lemma kernel_ok_heap_mem [simp]: "kernel_ok (k\<lparr>heap_mem := m\<rparr>) n \<longleftrightarrow> kernel_ok k n"
  by (simp add: kernel_ok_def cong: option.case_cong)

lemma heap_okI:
  "next_unmapped st = heap_next n \<Longrightarrow> n \<le> HEAP_PAGES \<Longrightarrow> free_rep (allocator st) (heap_mem k) F \<Longrightarrow>
    held_ok live (heap_bytes n) F \<Longrightarrow> heap_ok (unlock (guard_deref_mut g (\<lambda>_. st))) k live n"
  by (auto simp: heap_ok_def unlock_def guard_deref_def guard_deref_mut_def)

lemma block_kept_trans: "block_kept b m m' \<Longrightarrow> block_kept b m' m'' \<Longrightarrow> block_kept b m m''"
  by (simp add: block_kept_def)

lemma held_same_outside:
  "held_ok live own F \<Longrightarrow> same_outside F m m' \<Longrightarrow> b \<in> live \<Longrightarrow> block_kept b m m'"
  using same_outside_kept [of F m m' b] held_not_free [of live own F b] by blast

definition handed_out :: "(u64 \<times> layout) set \<Rightarrow> u64 \<Rightarrow> layout \<Rightarrow> (u64 \<times> layout) set" where
  "handed_out live p l = (if p = 0 then live else insert (p, l) live)"

text \<open>The second attempt, after a growth.\<close>

lemma heap_retry:
  assumes rep: "free_rep s m F" and held: "held_ok live (heap_bytes n) F" and n: "n \<le> HEAP_PAGES"
    and l: "servable l" "boundary l \<le> 2 ^ 31"
  obtains p s' m' F' where "lla_alloc s m l = Some (Inr (p, s', m'))" and "free_rep s' m' F'"
    and "held_ok (handed_out live p l) (heap_bytes n) F'" and "\<And>b. b \<in> live \<Longrightarrow> block_kept b m m'"
    and "p \<noteq> 0 \<Longrightarrow> (p, l) \<notin> live" and "\<And>st. room_for l F st \<Longrightarrow> p \<noteq> 0"
proof -
  obtain p s' m' F' where a: "lla_alloc s m l = Some (Inr (p, s', m'))" "free_rep s' m' F'" "lowest_room l F p"
    "held_ok (if p = 0 then live else insert (p, l) live) (heap_bytes n) F'"
    "\<And>b. b \<in> live \<Longrightarrow> block_kept b m m'" "p \<noteq> 0 \<Longrightarrow> (p, l) \<notin> live"
    using fl.held_alloc [OF rep held l(1) heap_align_room [OF n l(2)]] by blast
  moreover have "p \<noteq> 0" if "room_for l F st" for st using a(3) that by (auto simp: lowest_room_def)
  ultimately show thesis using that [of p s' m' F'] by (simp add: handed_out_def)
qed

lemma heap_alloc_spec:
  assumes h: "heap_ok h k live n" and k: "kernel_ok k n" and l: "servable l" "boundary l \<le> 2 ^ 31"
  obtains p h' k' n' where "heap_alloc h k l = Some (Inr (p, h', k'))" and "n \<le> n'"
    and "heap_ok h' k' (handed_out live p l) n'" and "kernel_ok k' n'"
    and "\<And>b. b \<in> live \<Longrightarrow> block_kept b (heap_mem k) (heap_mem k')"
    and "p \<noteq> 0 \<Longrightarrow> (p, l) \<notin> live" and "p = 0 \<Longrightarrow> boundary l \<le> 4096 \<Longrightarrow> n' = n \<and> \<not> growth_possible k n l"
    and "n' \<le> n + growth_pages l" and "p \<noteq> 0 \<Longrightarrow> kernel_extended k n k' n'"
proof -
  let ?st = "guard_deref h" and ?g = "h\<lparr>locked := True\<rparr>"
  have lk: "lock h = Some ?g" "guard_deref ?g = ?st" using h by (simp_all add: heap_ok_def lock_def guard_deref_def)
  obtain F where F: "free_rep (allocator ?st) (heap_mem k) F" "held_ok live (heap_bytes n) F"
    and st: "next_unmapped ?st = heap_next n" "n \<le> HEAP_PAGES" using h by (auto simp: heap_ok_def)
  obtain p s m F1 where a: "lla_alloc (allocator ?st) (heap_mem k) l = Some (Inr (p, s, m))" "free_rep s m F1"
    "held_ok (handed_out live p l) (heap_bytes n) F1" "\<And>b. b \<in> live \<Longrightarrow> block_kept b (heap_mem k) m"
    "p \<noteq> 0 \<Longrightarrow> (p, l) \<notin> live" using heap_retry [OF F st(2) l] by metis
  show thesis
  proof (cases "p = 0")
    case False
    let ?h' = "unlock (guard_deref_mut ?g (\<lambda>_. ?st\<lparr>allocator := s\<rparr>))"
    have "heap_alloc h k l = Some (Inr (p, ?h', k\<lparr>heap_mem := m\<rparr>))"
      using lk a(1) False by (simp add: heap_alloc_def Let_def)
    then show thesis
      by (rule that [of p ?h' "k\<lparr>heap_mem := m\<rparr>" n])
        (use False a k st in \<open>auto intro!: heap_okI\<close>)
  next
    case True
    let ?k1 = "k\<lparr>heap_mem := m\<rparr>" and ?st1 = "?st\<lparr>allocator := s\<rparr>"
    let ?h1 = "unlock (guard_deref_mut ?g (\<lambda>_. ?st1))"
    have held: "held_ok live (heap_bytes n) F1" using a(3) True by (simp add: handed_out_def)
    have h1: "heap_ok ?h1 ?k1 live n" by (rule heap_okI) (use st a(2) held in auto)
    have h1': "guard_deref ?h1 = ?st1" by (simp add: guard_deref_def unlock_def guard_deref_mut_def)
    have step: "heap_alloc h k l = bindR (grow ?k1 ?st1 l) (\<lambda>(ok, state, k).
        if \<not> ok then Some (Inr (0, unlock (guard_deref_mut ?g (\<lambda>_. state)), k))
        else bindR (lla_alloc (allocator state) (heap_mem k) l) (\<lambda>(p, s, m).
          Some (Inr (p, unlock (guard_deref_mut ?g (\<lambda>_. state\<lparr>allocator := s\<rparr>)), k\<lparr>heap_mem := m\<rparr>))))"
      using lk a(1) True by (simp add: heap_alloc_def Let_def)
    have k1: "kernel_ok ?k1 n" using k by simp
    show thesis
    proof (cases rule: grow_spec [OF h1 k1 l(1)])
      case (1 k')
      have "heap_alloc h k l = Some (Inr (0, ?h1, k'))" using step 1(1) h1' by simp
      moreover have "heap_ok ?h1 k' live n" using h1 1(3) by (simp add: heap_ok_def)
      ultimately show thesis
        using that [of 0 ?h1 k' n] 1(2-4) a(4) by (simp add: handed_out_def)
    next
      case (2 s2 k' F2)
      let ?R = "{unat (heap_next n)..<unat (heap_next n) + growth_pages l * 4096}"
      let ?st2 = "\<lparr>allocator = s2, next_unmapped = heap_next (n + growth_pages l)\<rparr>"
      obtain q s3 m3 F3 where r: "lla_alloc s2 (heap_mem k') l = Some (Inr (q, s3, m3))" "free_rep s3 m3 F3"
        "held_ok (handed_out live q l) (heap_bytes (n + growth_pages l)) F3"
        "\<And>b. b \<in> live \<Longrightarrow> block_kept b (heap_mem k') m3" "q \<noteq> 0 \<Longrightarrow> (q, l) \<notin> live"
        "\<And>st. room_for l (F2 \<union> ?R) st \<Longrightarrow> q \<noteq> 0"
        using heap_retry [OF 2(6,7,3) l] by metis
      let ?h' = "unlock (guard_deref_mut ?g (\<lambda>_. ?st2\<lparr>allocator := s3\<rparr>))"
      have "heap_alloc h k l = Some (Inr (q, ?h', k'\<lparr>heap_mem := m3\<rparr>))"
        using step 2(1) h1' r(1) by simp
      moreover have "heap_ok ?h' (k'\<lparr>heap_mem := m3\<rparr>) (handed_out live q l) (n + growth_pages l)"
        using r(2,3) 2(3) by (auto intro!: heap_okI)
      moreover have "block_kept b (heap_mem k) m3" if b: "b \<in> live" for b
      proof -
        have "block_kept b m (heap_mem k')" using held_same_outside [OF 2(7,8) b] by simp
        then show ?thesis using block_kept_trans a(4) [OF b] r(4) [OF b] by blast
      qed
      moreover have "q \<noteq> 0" if "boundary l \<le> 4096"
        using r(6) room_for_mono [OF growth_holds [OF l(1) that st(2)]] by blast
      ultimately show thesis
        using that [of q ?h' "k'\<lparr>heap_mem := m3\<rparr>" "n + growth_pages l"] 2(2,9) r(5) by auto
    qed
  qed
qed

lemma heap_dealloc_spec:
  assumes h: "heap_ok h k live n" and b: "(p, l) \<in> live"
  obtains h' m' where "heap_dealloc h k p l = Some (Inr (h', k\<lparr>heap_mem := m'\<rparr>))"
    and "heap_ok h' (k\<lparr>heap_mem := m'\<rparr>) (live - {(p, l)}) n"
    and "\<And>c. c \<in> live - {(p, l)} \<Longrightarrow> block_kept c (heap_mem k) m'"
proof -
  let ?st = "guard_deref h" and ?g = "h\<lparr>locked := True\<rparr>"
  have lk: "lock h = Some ?g" "guard_deref ?g = ?st" using h by (simp_all add: heap_ok_def lock_def guard_deref_def)
  obtain F where F: "free_rep (allocator ?st) (heap_mem k) F" "held_ok live (heap_bytes n) F"
    and st: "next_unmapped ?st = heap_next n" "n \<le> HEAP_PAGES" using h by (auto simp: heap_ok_def)
  obtain s' m' F' where d: "lla_dealloc (allocator ?st) (heap_mem k) p l = Some (Inr (s', m'))" "free_rep s' m' F'"
    "held_ok (live - {(p, l)}) (heap_bytes n) F'" "\<And>c. c \<in> live - {(p, l)} \<Longrightarrow> block_kept c (heap_mem k) m'"
    using fl.held_dealloc [OF F b] by metis
  show thesis
    by (rule that [of "unlock (guard_deref_mut ?g (\<lambda>_. ?st\<lparr>allocator := s'\<rparr>))" m'])
      (use lk d st in \<open>auto intro!: heap_okI simp: heap_dealloc_def Let_def\<close>)
qed

section \<open>What a failed growth costs\<close>

text \<open>
  With fewer free frames than pages the growth cannot succeed; if its first page could be mapped,
  the frame of that page is lost.
\<close>

lemma failed_growth_loses:
  assumes inv: "vm_state_inv v (c, a)" and n: "0 < unat n" "page_run start (unat n)"
    and walk: "walk (mem c) (pml4_phys v) (indices (page_of start 0)) = Missing"
    and frames: "4 \<le> card (low_free a)" "card (free_frames a) < unat n"
  obtains c' a' f where "grow_pages v c a start n 0 = Inr (False, c', a')" and "vm_state_inv v (c', a')"
    and "translate v c' = translate v c" and "leaf_frame v c' = leaf_frame v c"
    and "free_frames a' \<subseteq> free_frames a" and "f \<in> free_frames a - free_frames a'"
    and "\<And>p u. valid_path p \<Longrightarrow> length p \<le> 3 \<Longrightarrow> low_table u \<Longrightarrow> table_at (mem c') (pml4_phys v) p = Some u \<Longrightarrow>
      frame_of u \<noteq> f"
proof -
  let ?root = "pml4_phys v"
  have lt: "0 < n" using n(1) by (simp add: word_less_nat_alt)
  have run: "page_run start (Suc 0)" using n by (auto simp: page_run_def)
  obtain p a1 c1 a2 where r: "allocate a = Inr (Some p, a1)"
    "vmm_map v c a1 (page_of start 0) p read_write = Inr (Inr (), c1, a2)"
    using map_round [OF inv page_of_word(2) [OF n(2,1)] walk frames(1), of read_write] by metis
  have step: "grow_pages v c a start n 0 = grow_pages v c1 a2 start n 1"
    using r lt page_of_unat [of start 0] by (subst grow_pages.simps) simp
  obtain T1 where b1: "pages_backed v start {..<Suc 0} ((\<lambda>_. p)(0 := p)) T1 (c, a) (c1, a2)"
    using pages_backed_map [of v start 0 "\<lambda>_. p" "{}" "(c, a)" c a p a1 c1 a2] pages_backed_refl [OF inv] run r by auto
  have "1 \<le> n" using lt by (simp add: word_le_nat_alt word_less_nat_alt Suc_le_eq)
  then obtain ok c' a' where g: "grow_pages v c1 a2 start n 1 = Inr (ok, c', a')"
    "growth_result v start (unat n) 1 (c, a) (ok, c', a')"
    using grow_pages_spec [of v start 1 "(\<lambda>_. p)(0 := p)" T1 "(c, a)" c1 a2 n] b1 n(2) inv by auto
  have "\<not> ok"
  proof
    assume ok
    then obtain fs T where "pages_backed v start {..<unat n} fs T (c, a) (c', a')"
      using g(2) by (auto simp: growth_result_def)
    then have "inj_on (\<lambda>i. frame_of (fs i)) {..<unat n}" "(\<lambda>i. frame_of (fs i)) ` {..<unat n} \<subseteq> free_frames a"
      by (auto simp: pages_backed_def)
    then have "card {..<unat n} \<le> card (free_frames a)" by (metis card_inj_on_le finite_free_frames)
    then show False using frames(2) by simp
  qed
  then obtain k fs T where T: "1 \<le> k" "pages_backed v start {} fs T (c, a) (c', a')" "\<forall>i<k. frame_of (fs i) \<in> T"
    "tables_from ?root (mem c) (T - (\<lambda>i. frame_of (fs i)) ` {..<k}) (mem c')"
    using g(2) by (auto simp: growth_result_def)
  have f: "frame_of (fs 0) \<in> T" "T \<subseteq> free_frames a" "free_frames a' = free_frames a - T"
    using T(1-3) by (simp_all add: pages_backed_def)
  show thesis
  proof (rule that [of c' a' "frame_of (fs 0)"])
    show "grow_pages v c a start n 0 = Inr (False, c', a')" using step g(1) \<open>\<not> ok\<close> by simp
    show "translate v c' = translate v c" "leaf_frame v c' = leaf_frame v c" "vm_state_inv v (c', a')"
      using T(2) by (simp_all add: pages_backed_def)
    show "free_frames a' \<subseteq> free_frames a" "frame_of (fs 0) \<in> free_frames a - free_frames a'" using f by auto
  next
    fix p u
    assume u: "valid_path p" "length p \<le> 3" "low_table u" "table_at (mem c') ?root p = Some u"
    consider "table_at (mem c) ?root p = Some u" | "frame_of u \<in> T - (\<lambda>i. frame_of (fs i)) ` {..<k}"
      using T(4) u unfolding tables_from_def frame_of_def by blast
    then show "frame_of u \<noteq> frame_of (fs 0)"
    proof cases
      case 1
      then show ?thesis using vm_invD(3) [of ?root "mem c" a p u] inv u f by (auto simp: frame_of_def)
    next
      case 2
      then show ?thesis using T(1) by force
    qed
  qed
qed

section \<open>Runs\<close>

text \<open>
  What can happen to the heap: a request, a block given back, and a write by the owner of a block.
\<close>

type_synonym heap_config = "kernel_heap \<times> kernel \<times> (u64 \<times> layout) set"

inductive heap_step :: "heap_config \<Rightarrow> heap_config \<Rightarrow> bool" where
  take: "servable l \<Longrightarrow> boundary l \<le> 2 ^ 31 \<Longrightarrow> heap_alloc h k l = Some (Inr (p, h', k')) \<Longrightarrow>
    heap_step (h, k, live) (h', k', handed_out live p l)"
| return: "(p, l) \<in> live \<Longrightarrow> heap_dealloc h k p l = Some (Inr (h', k')) \<Longrightarrow>
    heap_step (h, k, live) (h', k', live - {(p, l)})"
| store: "(p, l) \<in> live \<Longrightarrow> unat x \<in> block_bytes p l \<Longrightarrow>
    heap_step (h, k, live) (h, k\<lparr>heap_mem := (heap_mem k)(x := w)\<rparr>, live)"

definition heap_config_ok :: "heap_config \<Rightarrow> bool" where
  "heap_config_ok c \<longleftrightarrow> (case c of (h, k, live) \<Rightarrow> \<exists>n. heap_ok h k live n \<and> kernel_ok k n)"

lemma heap_new_ok: "heap_ok kernel_heap_new k {} 0"
proof -
  have "free_rep lla_new (heap_mem k) {}"
    by (auto simp: lla_new_def free_rep_def heap_rep_def intro: exI [of _ "[]"])
  then show ?thesis
    by (auto simp: heap_ok_def kernel_heap_new_def spin_lock_new_def guard_deref_def heap_next_def held_ok_def
        intro!: exI [of _ "{}"])
qed

lemma heap_step_ok:
  assumes "heap_step c c'" and "heap_config_ok c"
  shows "heap_config_ok c'"
  using assms
proof (induction rule: heap_step.induct)
  case (take l h k p h' k' live)
  then obtain n where n: "heap_ok h k live n" "kernel_ok k n" by (auto simp: heap_config_ok_def)
  show ?case by (rule heap_alloc_spec [OF n take(1,2)]) (use take(3) in \<open>auto simp: heap_config_ok_def\<close>)
next
  case (return p l live h k h' k')
  then obtain n where n: "heap_ok h k live n" "kernel_ok k n" by (auto simp: heap_config_ok_def)
  show ?case by (rule heap_dealloc_spec [OF n(1) return(1)]) (use return(2) n(2) in \<open>auto simp: heap_config_ok_def\<close>)
next
  case (store p l live x h k w)
  then obtain n F where n: "heap_ok h k live n" "kernel_ok k n"
    and F: "free_rep (allocator (guard_deref h)) (heap_mem k) F" "held_ok live (heap_bytes n) F"
    by (auto simp: heap_config_ok_def heap_ok_def)
  have "unat x \<notin> F" using held_not_free [OF F(2) store(1), of "unat x"] store(2) by simp
  then have "free_rep (allocator (guard_deref h)) ((heap_mem k)(x := w)) F" by (intro free_rep_frame [OF F(1)]) auto
  then have "heap_ok h (k\<lparr>heap_mem := (heap_mem k)(x := w)\<rparr>) live n" using n(1) F(2) by (auto simp: heap_ok_def)
  then show ?case using n(2) by (auto simp: heap_config_ok_def)
qed

definition heap_reachable :: "kernel \<Rightarrow> heap_config \<Rightarrow> bool" where
  "heap_reachable k0 c \<longleftrightarrow> heap_step\<^sup>*\<^sup>* (kernel_heap_new, k0, {}) c"

lemma heap_reachable_ok:
  assumes "kernel_ok k0 0" and "heap_reachable k0 c"
  shows "heap_config_ok c"
proof -
  have "heap_step\<^sup>*\<^sup>* (kernel_heap_new, k0, {}) c" using assms(2) by (simp add: heap_reachable_def)
  then show ?thesis
  proof (induction rule: rtranclp_induct)
    case base
    then show ?case using heap_new_ok assms(1) by (auto simp: heap_config_ok_def)
  qed (rule heap_step_ok)
qed

end
