(* ===== verification/Gdt.thy ===== *)
theory Gdt
  imports Kernel_Prelude
begin

unbundle bit_operations_syntax

text \<open>
  The segment descriptor table and the task state segment (\<open>arch/x86_64/gdt.rs\<close>). The static
  tables and the processor registers they are loaded into are the record \<open>interrupt_state\<close>, which
  the interrupt table shares; the addresses the linker gives the statics and the handlers are the
  record \<open>link_map\<close>. The decoding functions read a descriptor as the processor does.
\<close>

section \<open>State\<close>

record task_state_segment =
  reserved_1 :: u32
  privilege_stack_table :: "u64 list"
  reserved_2 :: u64
  interrupt_stack_table :: "u64 list"
  reserved_3 :: u64
  reserved_4 :: u16
  iomap_base :: u16

text \<open>The structure is packed: the sum of the sizes of its fields.\<close>

definition size_of_TaskStateSegment :: nat where
  "size_of_TaskStateSegment = 4 + 3 * 8 + 8 + 7 * 8 + 8 + 2 + 2"

definition TSS_static :: task_state_segment where
  "TSS_static = \<lparr>reserved_1 = 0, privilege_stack_table = replicate 3 0, reserved_2 = 0,
     interrupt_stack_table = replicate 7 0, reserved_3 = 0, reserved_4 = 0,
     iomap_base = of_nat size_of_TaskStateSegment\<rparr>"

record descriptor_table_pointer =
  pointer_limit :: u16
  pointer_base :: u64

record idt_entry =
  offset_low :: u16
  selector :: u16
  ist :: u8
  type_attr :: u8
  offset_mid :: u16
  offset_high :: u32
  reserved :: u32

record link_map =
  GDT_addr :: u64
  TSS_addr :: u64
  IDT_addr :: u64
  DOUBLE_FAULT_STACK_addr :: u64
  handler_addr :: "nat \<Rightarrow> u64"

record interrupt_state =
  GDT :: "u64 list"
  TSS :: task_state_segment
  IDT :: "idt_entry list"
  gdtr :: descriptor_table_pointer
  idtr :: descriptor_table_pointer
  cs :: u16
  ds :: u16
  es :: u16
  ss :: u16
  fs :: u16
  gs :: u16
  tr :: u16

definition missing :: idt_entry where
  "missing = \<lparr>offset_low = 0, selector = 0, ist = 0, type_attr = 0, offset_mid = 0, offset_high = 0, reserved = 0\<rparr>"

text \<open>The statics at boot: an empty table, the initial task state segment, no interrupt handlers.\<close>

definition boot_interrupt_state :: interrupt_state where
  "boot_interrupt_state = \<lparr>GDT = replicate 5 0, TSS = TSS_static, IDT = replicate 256 missing,
     gdtr = \<lparr>pointer_limit = 0, pointer_base = 0\<rparr>, idtr = \<lparr>pointer_limit = 0, pointer_base = 0\<rparr>,
     cs = 0, ds = 0, es = 0, ss = 0, fs = 0, gs = 0, tr = 0\<rparr>"

section \<open>Descriptors\<close>

definition segment_descriptor :: "u8 \<Rightarrow> bool \<Rightarrow> u64" where
  "segment_descriptor access long_mode =
     (let limit_low = 0xFFFF;
          base = 0;
          flags = if long_mode then 0b1010 else 0b1100;
          limit_high = 0xF
      in limit_low OR push_bit 16 base OR push_bit 40 (ucast access) OR push_bit 48 limit_high
           OR push_bit 52 flags OR push_bit 56 base)"

definition ACCESS_KERNEL_CODE :: u8 where "ACCESS_KERNEL_CODE = 0b10011010"
definition ACCESS_KERNEL_DATA :: u8 where "ACCESS_KERNEL_DATA = 0b10010010"
definition ACCESS_TSS :: u8 where "ACCESS_TSS = 0b10001001"

definition KERNEL_CODE_SELECTOR :: u16 where "KERNEL_CODE_SELECTOR = 0x08"
definition KERNEL_DATA_SELECTOR :: u16 where "KERNEL_DATA_SELECTOR = 0x10"
definition TSS_SELECTOR :: u16 where "TSS_SELECTOR = 0x18"

definition DOUBLE_FAULT_IST_INDEX :: u16 where "DOUBLE_FAULT_IST_INDEX = 1"

definition DOUBLE_FAULT_STACK_SIZE :: u64 where "DOUBLE_FAULT_STACK_SIZE = 4096 * 4"

lemmas gdt_consts = ACCESS_KERNEL_CODE_def ACCESS_KERNEL_DATA_def ACCESS_TSS_def KERNEL_CODE_SELECTOR_def
  KERNEL_DATA_SELECTOR_def TSS_SELECTOR_def DOUBLE_FAULT_IST_INDEX_def DOUBLE_FAULT_STACK_SIZE_def

definition tss_descriptor :: "u64 \<Rightarrow> u64 \<times> u64" where
  "tss_descriptor tss_addr =
     (let limit = of_nat (size_of_TaskStateSegment - 1);
          base_low_24 = tss_addr AND 0xFFFFFF;
          base_mid_8 = drop_bit 24 tss_addr AND 0xFF;
          base_high_32 = drop_bit 32 tss_addr;
          low = limit OR push_bit 16 base_low_24 OR push_bit 40 (ucast ACCESS_TSS) OR push_bit 56 base_mid_8;
          high = base_high_32
      in (low, high))"

section \<open>Loading\<close>

definition lgdt :: "descriptor_table_pointer \<Rightarrow> interrupt_state \<Rightarrow> interrupt_state" where
  "lgdt p s = s\<lparr>gdtr := p\<rparr>"

text \<open>The far return loads \<open>CS\<close>, the moves load the data segments.\<close>

definition reload_segments :: "interrupt_state \<Rightarrow> interrupt_state" where
  "reload_segments s =
     (let s = s\<lparr>cs := KERNEL_CODE_SELECTOR\<rparr>
      in s\<lparr>ds := KERNEL_DATA_SELECTOR, es := KERNEL_DATA_SELECTOR, ss := KERNEL_DATA_SELECTOR,
           fs := KERNEL_DATA_SELECTOR, gs := KERNEL_DATA_SELECTOR\<rparr>)"

definition selector_index :: "u16 \<Rightarrow> nat" where
  "selector_index sel = unat (drop_bit 3 sel)"

text \<open>Loading the task register also marks the descriptor busy.\<close>

definition ltr :: "u16 \<Rightarrow> interrupt_state \<Rightarrow> interrupt_state" where
  "ltr sel s = s\<lparr>tr := sel, GDT := (GDT s)[selector_index sel := GDT s ! selector_index sel OR push_bit 41 1]\<rparr>"

definition gdt_init :: "link_map \<Rightarrow> interrupt_state \<Rightarrow> interrupt_state" where
  "gdt_init lk s =
     (let tss_addr = TSS_addr lk;
          double_fault_stack_top = DOUBLE_FAULT_STACK_addr lk + DOUBLE_FAULT_STACK_SIZE;
          s = s\<lparr>TSS := (TSS s)\<lparr>interrupt_stack_table :=
                (interrupt_stack_table (TSS s))[unat (DOUBLE_FAULT_IST_INDEX - 1) := double_fault_stack_top]\<rparr>\<rparr>;
          s = s\<lparr>GDT := (GDT s)[0 := 0]\<rparr>;
          s = s\<lparr>GDT := (GDT s)[1 := segment_descriptor ACCESS_KERNEL_CODE True]\<rparr>;
          s = s\<lparr>GDT := (GDT s)[2 := segment_descriptor ACCESS_KERNEL_DATA False]\<rparr>;
          (tss_low, tss_high) = tss_descriptor tss_addr;
          s = s\<lparr>GDT := (GDT s)[3 := tss_low]\<rparr>;
          s = s\<lparr>GDT := (GDT s)[4 := tss_high]\<rparr>;
          gdt_ptr = \<lparr>pointer_limit = of_nat (5 * 8 - 1), pointer_base = GDT_addr lk\<rparr>;
          s = lgdt gdt_ptr s;
          s = reload_segments s
      in ltr TSS_SELECTOR s)"

section \<open>How the processor reads a descriptor\<close>

definition desc_present :: "u64 \<Rightarrow> bool" where "desc_present w \<longleftrightarrow> bit w 47"
definition desc_dpl :: "u64 \<Rightarrow> u64" where "desc_dpl w = drop_bit 45 w AND 3"
definition desc_type :: "u64 \<Rightarrow> u64" where "desc_type w = drop_bit 40 w AND 0xF"
definition desc_is_system :: "u64 \<Rightarrow> bool" where "desc_is_system w \<longleftrightarrow> \<not> bit w 44"
definition desc_long :: "u64 \<Rightarrow> bool" where "desc_long w \<longleftrightarrow> bit w 53 \<and> \<not> bit w 54"
definition desc_limit :: "u64 \<Rightarrow> u64" where "desc_limit w = (w AND 0xFFFF) OR push_bit 16 (drop_bit 48 w AND 0xF)"

definition system_base :: "u64 \<Rightarrow> u64 \<Rightarrow> u64" where
  "system_base low high =
     (drop_bit 16 low AND 0xFFFFFF) OR push_bit 24 (drop_bit 56 low AND 0xFF) OR push_bit 32 (high AND 0xFFFFFFFF)"

text \<open>Types: 10 is readable code, 2 is writable data, 9 and 11 are an available and a busy 64-bit task state segment.\<close>

definition code_segment :: "u64 \<Rightarrow> bool" where
  "code_segment w \<longleftrightarrow> desc_present w \<and> \<not> desc_is_system w \<and> desc_type w = 10 \<and> desc_dpl w = 0 \<and> desc_long w"

definition data_segment :: "u64 \<Rightarrow> bool" where
  "data_segment w \<longleftrightarrow> desc_present w \<and> \<not> desc_is_system w \<and> desc_type w = 2 \<and> desc_dpl w = 0"

lemmas desc_defs = desc_present_def desc_dpl_def desc_type_def desc_is_system_def desc_long_def desc_limit_def

text \<open>The masks of the source as take-bit operations.\<close>

lemma masks:
  "x AND 0xFF = take_bit 8 (x :: u64)" "x AND 0xFFFF = take_bit 16 x" "x AND 0xFFFFFF = take_bit 24 x"
  "x AND 0xFFFFFFFF = take_bit 32 x" "x AND 0xF = take_bit 4 x" "x AND 3 = take_bit 2 x"
  by (simp_all add: take_bit_eq_mask mask_eq_exp_minus_1)

lemma bit_11: "bit (11 :: int) n \<longleftrightarrow> bit (9 :: int) n \<or> n = 1"
proof -
  have "(11 :: int) = 9 OR push_bit 1 1" by simp
  then show ?thesis by (auto simp only: bit_or_iff bit_push_bit_iff) (auto simp: bit_simps)
qed

text \<open>The low word as \<open>init\<close> writes it, and with the busy bit the processor sets.\<close>

definition tss_low :: "u64 \<Rightarrow> bool \<Rightarrow> u64" where
  "tss_low a busy = fst (tss_descriptor a) OR push_bit 41 (of_bool busy)"

lemma tss_base_decoded: "system_base (tss_low a busy) (snd (tss_descriptor a)) = a"
  unfolding system_base_def tss_low_def tss_descriptor_def Let_def masks
  apply (rule bit_word_eqI)
  subgoal for n
    by (cases "n < 24"; cases "n < 32") (auto simp: bit_simps size_of_TaskStateSegment_def gdt_consts)
  done

lemma tss_fields:
  "desc_present (tss_low a busy)" "desc_is_system (tss_low a busy)" "desc_dpl (tss_low a busy) = 0"
  "desc_type (tss_low a busy) = (if busy then 11 else 9)" "desc_limit (tss_low a busy) = 103"
  unfolding desc_defs tss_low_def tss_descriptor_def Let_def masks
  by (auto simp: bit_simps bit_11 size_of_TaskStateSegment_def gdt_consts intro!: bit_word_eqI)

lemma kernel_segments:
  "code_segment (segment_descriptor ACCESS_KERNEL_CODE True)" "data_segment (segment_descriptor ACCESS_KERNEL_DATA False)"
  by (simp_all add: code_segment_def data_segment_def desc_defs segment_descriptor_def gdt_consts)

text \<open>The state after \<open>init\<close>.\<close>

abbreviation statics_ok :: "interrupt_state \<Rightarrow> bool" where
  "statics_ok s \<equiv> length (GDT s) = 5 \<and> length (interrupt_stack_table (TSS s)) = 7 \<and> length (IDT s) = 256"

lemma selector_indices:
  "selector_index KERNEL_CODE_SELECTOR = 1" "selector_index KERNEL_DATA_SELECTOR = 2" "selector_index TSS_SELECTOR = 3"
  by (simp_all add: selector_index_def gdt_consts)

lemma length_5:
  assumes "length xs = 5"
  obtains a b c d e where "xs = [a, b, c, d, e]"
  using assms by (auto simp: numeral_eq_Suc length_Suc_conv)

lemma gdt_init_tables:
  assumes "length (GDT s) = 5"
  shows "GDT (gdt_init lk s) = [0, segment_descriptor ACCESS_KERNEL_CODE True, segment_descriptor ACCESS_KERNEL_DATA False,
      tss_low (TSS_addr lk) True, snd (tss_descriptor (TSS_addr lk))]"
  by (rule length_5 [OF assms])
    (simp add: gdt_init_def Let_def ltr_def lgdt_def reload_segments_def selector_indices split_beta tss_low_def)

lemma gdt_init_registers [simp]:
  "gdtr (gdt_init lk s) = \<lparr>pointer_limit = 39, pointer_base = GDT_addr lk\<rparr>"
  "cs (gdt_init lk s) = KERNEL_CODE_SELECTOR" "tr (gdt_init lk s) = TSS_SELECTOR"
  "ds (gdt_init lk s) = KERNEL_DATA_SELECTOR" "es (gdt_init lk s) = KERNEL_DATA_SELECTOR"
  "ss (gdt_init lk s) = KERNEL_DATA_SELECTOR" "fs (gdt_init lk s) = KERNEL_DATA_SELECTOR"
  "gs (gdt_init lk s) = KERNEL_DATA_SELECTOR"
  "IDT (gdt_init lk s) = IDT s" "idtr (gdt_init lk s) = idtr s"
  "interrupt_stack_table (TSS (gdt_init lk s))
     = (interrupt_stack_table (TSS s))[0 := DOUBLE_FAULT_STACK_addr lk + 16384]"
  by (simp_all add: gdt_init_def Let_def ltr_def lgdt_def reload_segments_def split_beta gdt_consts)

text \<open>
  The task state segment descriptor holds the full address: whatever the linker chooses, the
  processor reads back that address, the limit of a segment without I/O permission map, and a
  present system descriptor of the 64-bit task state type; different addresses give different
  descriptors.
\<close>

lemma tss_descriptor_roundtrip:
  "(case tss_descriptor a of (low, high) \<Rightarrow> system_base low high = a \<and> desc_present low \<and> desc_is_system low
      \<and> desc_type low = 9 \<and> desc_dpl low = 0 \<and> desc_limit low = of_nat size_of_TaskStateSegment - 1)
   \<and> (tss_descriptor a = tss_descriptor b \<longleftrightarrow> a = b)"
proof -
  have low: "fst (tss_descriptor x) = tss_low x False" for x by (simp add: tss_low_def)
  have "a = b" if "tss_descriptor a = tss_descriptor b"
    using tss_base_decoded [of a False] tss_base_decoded [of b False] that by (simp add: low [symmetric])
  then show ?thesis
    using tss_fields [of a False] tss_base_decoded [of a False]
    by (auto simp: split_beta low size_of_TaskStateSegment_def)
qed

section \<open>Properties\<close>

text \<open>
  C34. After \<open>init\<close> the register of the table holds its address and limit; the code segment
  register selects a present long-mode code segment of ring 0, the data segment registers a
  present writable data segment of ring 0, and the task register the busy descriptor of the
  kernel's task state segment; the first interrupt stack starts at the top of the double-fault
  stack and the other six are as before.
\<close>

theorem gdt_init_correct:
  assumes "length (GDT s) = 5" and "length (interrupt_stack_table (TSS s)) = 7"
  shows "let s' = gdt_init lk s; task = selector_index (tr s') in
    gdtr s' = \<lparr>pointer_limit = 39, pointer_base = GDT_addr lk\<rparr> \<and> length (GDT s') = 5 \<and> GDT s' ! 0 = 0
    \<and> code_segment (GDT s' ! selector_index (cs s'))
    \<and> (\<forall>sel \<in> {ds s', es s', ss s', fs s', gs s'}. data_segment (GDT s' ! selector_index sel))
    \<and> desc_present (GDT s' ! task) \<and> desc_is_system (GDT s' ! task) \<and> desc_type (GDT s' ! task) = 11
    \<and> desc_limit (GDT s' ! task) = 103 \<and> system_base (GDT s' ! task) (GDT s' ! (task + 1)) = TSS_addr lk
    \<and> interrupt_stack_table (TSS s') ! 0 = DOUBLE_FAULT_STACK_addr lk + 16384
    \<and> (\<forall>i < 7. 0 < i \<longrightarrow> interrupt_stack_table (TSS s') ! i = interrupt_stack_table (TSS s) ! i)"
  using assms
  by (simp add: Let_def gdt_init_tables selector_indices kernel_segments tss_fields tss_base_decoded)

definition example_link :: link_map where
  "example_link = \<lparr>GDT_addr = 0xFFFFFFFF80010000, TSS_addr = 0xFFFFFFFF80010040, IDT_addr = 0xFFFFFFFF80011000,
     DOUBLE_FAULT_STACK_addr = 0xFFFFFFFF80012000, handler_addr = (\<lambda>v. 0xFFFFFFFF80001000 + 64 * of_nat v)\<rparr>"

theorem gdt_init_correct_witness:
  "code_segment (GDT (gdt_init example_link boot_interrupt_state) ! 1)
   \<and> interrupt_stack_table (TSS (gdt_init example_link boot_interrupt_state)) ! 0 = 0xFFFFFFFF80016000"
  using gdt_init_correct [of boot_interrupt_state example_link]
  by (simp add: boot_interrupt_state_def TSS_static_def Let_def selector_indices example_link_def)

end
