(* ===== verification/Idt.thy ===== *)
theory Idt
  imports Gdt
begin

unbundle bit_operations_syntax

text \<open>
  The entries of the interrupt table (\<open>arch/x86_64/idt.rs\<close>) and how the processor reads them. The
  handlers and the loading of the table are in the theories that follow.
\<close>

definition TYPE_ATTR_INTERRUPT_GATE :: u8 where "TYPE_ATTR_INTERRUPT_GATE = 0x8E"

definition set_handler :: "idt_entry \<Rightarrow> u64 \<Rightarrow> u8 \<Rightarrow> idt_entry" where
  "set_handler e handler i = e\<lparr>
     offset_low := ucast handler,
     offset_mid := ucast (drop_bit 16 handler),
     offset_high := ucast (drop_bit 32 handler),
     selector := KERNEL_CODE_SELECTOR,
     ist := i,
     type_attr := TYPE_ATTR_INTERRUPT_GATE\<rparr>"

definition set_entry :: "idt_entry list \<Rightarrow> nat \<Rightarrow> u64 \<Rightarrow> u8 \<Rightarrow> idt_entry list" where
  "set_entry idt vector handler i = idt[vector := set_handler (idt ! vector) handler i]"

section \<open>How the processor reads an entry\<close>

definition gate_offset :: "idt_entry \<Rightarrow> u64" where
  "gate_offset e = ucast (offset_low e) OR push_bit 16 (ucast (offset_mid e)) OR push_bit 32 (ucast (offset_high e))"

definition gate_present :: "idt_entry \<Rightarrow> bool" where
  "gate_present e \<longleftrightarrow> bit (type_attr e) 7"

definition gate_is_interrupt :: "idt_entry \<Rightarrow> bool" where
  "gate_is_interrupt e \<longleftrightarrow> type_attr e AND 0x1F = 0xE"

definition gate_ist :: "idt_entry \<Rightarrow> nat" where
  "gate_ist e = unat (ist e AND 7)"

lemma gate_offset_set: "gate_offset (set_handler e handler i) = handler"
  unfolding gate_offset_def set_handler_def
  apply (rule bit_word_eqI)
  subgoal for n
    by (cases "n < 16"; cases "n < 32") (auto simp: bit_simps)
  done

lemma set_handler_gate [simp]:
  "gate_present (set_handler e handler i)" "gate_is_interrupt (set_handler e handler i)"
  "selector (set_handler e handler i) = KERNEL_CODE_SELECTOR" "ist (set_handler e handler i) = i"
  by (simp_all add: gate_present_def gate_is_interrupt_def set_handler_def TYPE_ATTR_INTERRUPT_GATE_def)

lemma missing_not_present [simp]: "\<not> gate_present missing"
  by (simp add: gate_present_def missing_def)

end
