(* ===== verification/Serial.thy ===== *)
theory Serial
  imports Kernel_Prelude "HOL-Library.Monad_Syntax"
begin

unbundle bit_operations_syntax

text \<open>
  The early debug output (\<open>arch/x86_64/serial.rs\<close>). The kernel sees the device through port reads
  and writes; the state is the trace of them, newest first, and the value a read returns is given
  by a device \<open>dev\<close>, which may depend on all that happened before. What the writes mean is the
  register file of a 16550: \<open>uart_of\<close> replays a trace. The library shows that output appends
  exactly its bytes to the bytes transmitted, as the law of the interface \<open>console\<close>, and the
  properties follow at the end.
\<close>

section \<open>Registers\<close>

definition COM1 :: u16 where "COM1 = 0x3F8"

definition REG_DATA :: u16 where "REG_DATA = 0"
definition REG_INT_ENABLE :: u16 where "REG_INT_ENABLE = 1"
definition REG_FIFO_CTRL :: u16 where "REG_FIFO_CTRL = 2"
definition REG_LINE_CTRL :: u16 where "REG_LINE_CTRL = 3"
definition REG_MODEM_CTRL :: u16 where "REG_MODEM_CTRL = 4"
definition REG_LINE_STATUS :: u16 where "REG_LINE_STATUS = 5"

definition LCR_8N1 :: u8 where "LCR_8N1 = 0x03"
definition LCR_DLAB :: u8 where "LCR_DLAB = 0x80"

definition FCR_ENABLE_FIFO :: u8 where "FCR_ENABLE_FIFO = 0x01"
definition FCR_CLEAR_RX_FIFO :: u8 where "FCR_CLEAR_RX_FIFO = 0x02"
definition FCR_CLEAR_TX_FIFO :: u8 where "FCR_CLEAR_TX_FIFO = 0x04"
definition FCR_14BYTE_TRIGGER :: u8 where "FCR_14BYTE_TRIGGER = 0xC0"

definition MCR_DTR :: u8 where "MCR_DTR = 0x01"
definition MCR_RTS :: u8 where "MCR_RTS = 0x02"
definition MCR_OUT2 :: u8 where "MCR_OUT2 = 0x08"

definition LSR_TX_EMPTY :: u8 where "LSR_TX_EMPTY = 0x20"

definition BAUD_DIVISOR_38400 :: u16 where "BAUD_DIVISOR_38400 = 3"

lemmas serial_consts = COM1_def REG_DATA_def REG_INT_ENABLE_def REG_FIFO_CTRL_def REG_LINE_CTRL_def
  REG_MODEM_CTRL_def REG_LINE_STATUS_def LCR_8N1_def LCR_DLAB_def FCR_ENABLE_FIFO_def FCR_CLEAR_RX_FIFO_def
  FCR_CLEAR_TX_FIFO_def FCR_14BYTE_TRIGGER_def MCR_DTR_def MCR_RTS_def MCR_OUT2_def BAUD_DIVISOR_38400_def

section \<open>Port access\<close>

datatype port_op =
    In u16 u8
  | Out u16 u8

type_synonym ports = "port_op list"

type_synonym device = "ports \<Rightarrow> u16 \<Rightarrow> u8"

definition outb :: "u16 \<Rightarrow> u8 \<Rightarrow> ports \<Rightarrow> ports" where
  "outb port value t = Out port value # t"

definition inb :: "device \<Rightarrow> u16 \<Rightarrow> ports \<Rightarrow> u8 \<times> ports" where
  "inb dev port t = (let value = dev t port in (value, In port value # t))"

section \<open>The driver\<close>

definition serial_init :: "ports \<Rightarrow> ports" where
  "serial_init t =
     (let t = outb (COM1 + REG_INT_ENABLE) 0x00 t;
          t = outb (COM1 + REG_LINE_CTRL) LCR_DLAB t;
          t = outb (COM1 + REG_DATA) (ucast (BAUD_DIVISOR_38400 AND 0xFF)) t;
          t = outb (COM1 + REG_INT_ENABLE) (ucast (drop_bit 8 BAUD_DIVISOR_38400 AND 0xFF)) t;
          t = outb (COM1 + REG_LINE_CTRL) LCR_8N1 t;
          t = outb (COM1 + REG_FIFO_CTRL)
                (FCR_ENABLE_FIFO OR FCR_CLEAR_RX_FIFO OR FCR_CLEAR_TX_FIFO OR FCR_14BYTE_TRIGGER) t
      in outb (COM1 + REG_MODEM_CTRL) (MCR_DTR OR MCR_RTS OR MCR_OUT2) t)"

text \<open>The polling loop: \<open>None\<close> if the device never becomes ready.\<close>

partial_function (option) poll_tx :: "device \<Rightarrow> ports \<Rightarrow> ports option" where
  "poll_tx dev t =
     (let r = inb dev (COM1 + REG_LINE_STATUS) t
      in if fst r AND LSR_TX_EMPTY = 0 then poll_tx dev (snd r) else Some (snd r))"

function write_byte :: "device \<Rightarrow> u8 \<Rightarrow> ports \<Rightarrow> ports option" where
  "write_byte dev byte t =
     (case (if byte = 10 then write_byte dev 13 t else Some t) of
        None \<Rightarrow> None
      | Some t \<Rightarrow> do {
          t \<leftarrow> poll_tx dev t;
          Some (outb (COM1 + REG_DATA) byte t)
        })"
  by pat_completeness auto
termination
  by (relation "measure (\<lambda>(dev, byte, t). if byte = 10 then 1 else 0)") auto

declare write_byte.simps [simp del]

primrec write_bytes :: "device \<Rightarrow> u8 list \<Rightarrow> ports \<Rightarrow> ports option" where
  "write_bytes dev [] t = Some t"
| "write_bytes dev (b # bs) t = do { t \<leftarrow> write_byte dev b t; write_bytes dev bs t }"

text \<open>A \<open>&str\<close> is the list of its UTF-8 bytes.\<close>

definition ascii :: "string \<Rightarrow> u8 list" where
  "ascii s = List.map of_char s"

lemma ascii_append: "ascii (s @ s') = ascii s @ ascii s'"
  by (simp add: ascii_def)

definition write_str :: "device \<Rightarrow> u8 list \<Rightarrow> ports \<Rightarrow> ports option" where
  "write_str dev s t = write_bytes dev s t"

definition HEX_DIGITS :: "u8 list" where
  "HEX_DIGITS = ascii ''0123456789ABCDEF''"

text \<open>The loop over the slots of the buffer from the last one, with \<open>n\<close> slots left.\<close>

primrec hex_fill :: "nat \<Rightarrow> u64 \<Rightarrow> u8 list \<Rightarrow> u8 list" where
  "hex_fill 0 v buf = buf"
| "hex_fill (Suc n) v buf = hex_fill n (drop_bit 4 v) (buf[n := HEX_DIGITS ! unat (v AND 0xF)])"

definition write_hex64 :: "device \<Rightarrow> u64 \<Rightarrow> ports \<Rightarrow> ports option" where
  "write_hex64 dev value t = write_bytes dev (hex_fill 16 value (replicate 16 0)) t"

section \<open>What the device sees\<close>

text \<open>The registers of a 16550. With the divisor latch access bit set, the first two ports reach the divisor.\<close>

record uart =
  ier :: u8
  fcr :: u8
  lcr :: u8
  mcr :: u8
  dll :: u8
  dlm :: u8
  tx :: "u8 list"

definition dlab :: "uart \<Rightarrow> bool" where
  "dlab u \<longleftrightarrow> lcr u AND LCR_DLAB \<noteq> 0"

definition uart_out :: "u16 \<Rightarrow> u8 \<Rightarrow> uart \<Rightarrow> uart" where
  "uart_out port v u =
     (if port = 0x3F8 then if dlab u then u\<lparr>dll := v\<rparr> else u\<lparr>tx := tx u @ [v]\<rparr>
      else if port = 0x3F9 then if dlab u then u\<lparr>dlm := v\<rparr> else u\<lparr>ier := v\<rparr>
      else if port = 0x3FA then u\<lparr>fcr := v\<rparr>
      else if port = 0x3FB then u\<lparr>lcr := v\<rparr>
      else if port = 0x3FC then u\<lparr>mcr := v\<rparr>
      else u)"

primrec uart_of :: "uart \<Rightarrow> ports \<Rightarrow> uart" where
  "uart_of u [] = u"
| "uart_of u (x # t) = (case x of In _ _ \<Rightarrow> uart_of u t | Out port v \<Rightarrow> uart_out port v (uart_of u t))"

text \<open>Every byte transmitted was preceded by a read of the line status that found the transmitter empty.\<close>

definition ready_read :: "ports \<Rightarrow> bool" where
  "ready_read t \<longleftrightarrow> (\<exists>v t'. t = In 0x3FD v # t' \<and> v AND LSR_TX_EMPTY \<noteq> 0)"

primrec paced :: "uart \<Rightarrow> ports \<Rightarrow> bool" where
  "paced u [] \<longleftrightarrow> True"
| "paced u (x # t) \<longleftrightarrow> paced u t \<and> (case x of In _ _ \<Rightarrow> True
     | Out port v \<Rightarrow> port = 0x3F8 \<and> \<not> dlab (uart_of u t) \<longrightarrow> ready_read t)"

text \<open>The device becomes ready when it is polled often enough, whatever happened before.\<close>

primrec polled :: "device \<Rightarrow> nat \<Rightarrow> ports \<Rightarrow> ports" where
  "polled dev 0 t = t"
| "polled dev (Suc k) t = polled dev k (snd (inb dev (COM1 + REG_LINE_STATUS) t))"

definition responsive :: "device \<Rightarrow> bool" where
  "responsive dev \<longleftrightarrow> (\<forall>t. \<exists>k. dev (polled dev k t) (COM1 + REG_LINE_STATUS) AND LSR_TX_EMPTY \<noteq> 0)"

section \<open>Output\<close>

text \<open>
  \<open>f\<close> returns and appends \<open>bs\<close> to the bytes transmitted, provided the divisor latch is closed.
\<close>

definition transmits :: "uart \<Rightarrow> (ports \<Rightarrow> ports option) \<Rightarrow> u8 list \<Rightarrow> bool" where
  "transmits u f bs \<longleftrightarrow> (\<forall>t. \<not> dlab (uart_of u t) \<longrightarrow> (\<exists>t'. f t = Some t'
     \<and> uart_of u t' = (uart_of u t)\<lparr>tx := tx (uart_of u t) @ bs\<rparr> \<and> (paced u t \<longrightarrow> paced u t')))"

lemma dlab_tx [simp]: "dlab (u\<lparr>tx := x\<rparr>) = dlab u"
  by (simp add: dlab_def)

lemma transmitsE:
  assumes "transmits u f bs" and "\<not> dlab (uart_of u t)"
  obtains t' where "f t = Some t'" and "uart_of u t' = (uart_of u t)\<lparr>tx := tx (uart_of u t) @ bs\<rparr>"
    and "\<not> dlab (uart_of u t')" and "paced u t \<Longrightarrow> paced u t'"
  using assms unfolding transmits_def by (metis dlab_tx)

lemma transmits_Some: "transmits u Some []"
  by (simp add: transmits_def)

lemma transmits_bind:
  assumes f: "transmits u f as" and g: "transmits u g bs"
  shows "transmits u (\<lambda>t. f t \<bind> g) (as @ bs)"
  unfolding transmits_def
proof (intro allI impI)
  fix t
  assume t: "\<not> dlab (uart_of u t)"
  obtain t1 where t1: "f t = Some t1" "uart_of u t1 = (uart_of u t)\<lparr>tx := tx (uart_of u t) @ as\<rparr>"
    "\<not> dlab (uart_of u t1)" "paced u t \<Longrightarrow> paced u t1" using transmitsE [OF f t] by metis
  obtain t2 where "g t1 = Some t2" "uart_of u t2 = (uart_of u t1)\<lparr>tx := tx (uart_of u t1) @ bs\<rparr>"
    "paced u t1 \<Longrightarrow> paced u t2" using transmitsE [OF g t1(3)] by metis
  then show "\<exists>t'. f t \<bind> g = Some t' \<and> uart_of u t' = (uart_of u t)\<lparr>tx := tx (uart_of u t) @ as @ bs\<rparr>
      \<and> (paced u t \<longrightarrow> paced u t')" using t1 by simp
qed

lemma transmits_if:
  "transmits u f as \<Longrightarrow> transmits u g bs \<Longrightarrow> transmits u (\<lambda>t. if b then f t else g t) (if b then as else bs)"
  by simp

lemma poll_tx_ready:
  assumes "dev (polled dev k t) (COM1 + REG_LINE_STATUS) AND LSR_TX_EMPTY \<noteq> 0"
  shows "\<exists>t'. poll_tx dev t = Some t' \<and> ready_read t' \<and> uart_of u t' = uart_of u t \<and> (paced u t \<longrightarrow> paced u t')"
  using assms
proof (induction k arbitrary: t)
  case 0
  then show ?case
    by (subst poll_tx.simps) (simp add: inb_def Let_def ready_read_def serial_consts)
next
  case (Suc k)
  show ?case
  proof (cases "dev t (COM1 + REG_LINE_STATUS) AND LSR_TX_EMPTY = 0")
    case False
    then show ?thesis
      by (subst poll_tx.simps) (simp add: inb_def Let_def ready_read_def serial_consts)
  next
    case True
    let ?t = "snd (inb dev (COM1 + REG_LINE_STATUS) t)"
    have "poll_tx dev t = poll_tx dev ?t" using True by (subst poll_tx.simps) (simp add: inb_def Let_def)
    moreover have "uart_of u ?t = uart_of u t" "paced u ?t = paced u t" by (simp_all add: inb_def Let_def)
    ultimately show ?thesis using Suc(1) [of ?t] Suc(2) by simp
  qed
qed

lemma poll_tx_Some:
  assumes "poll_tx dev t = Some t'"
  shows "\<exists>k. dev (polled dev k t) (COM1 + REG_LINE_STATUS) AND LSR_TX_EMPTY \<noteq> 0"
proof (rule poll_tx.raw_induct [OF _ assms])
  fix poll dev t t'
  assume IH: "\<And>dev t t'. poll dev t = Some t' \<Longrightarrow> \<exists>k. dev (polled dev k t) (COM1 + REG_LINE_STATUS) AND LSR_TX_EMPTY \<noteq> 0"
    and eq: "(let r = inb dev (COM1 + REG_LINE_STATUS) t
      in if fst r AND LSR_TX_EMPTY = 0 then poll dev (snd r) else Some (snd r)) = Some t'"
  show "\<exists>k. dev (polled dev k t) (COM1 + REG_LINE_STATUS) AND LSR_TX_EMPTY \<noteq> 0"
  proof (cases "dev t (COM1 + REG_LINE_STATUS) AND LSR_TX_EMPTY = 0")
    case True
    then have "poll dev (snd (inb dev (COM1 + REG_LINE_STATUS) t)) = Some t'"
      using eq by (simp add: inb_def Let_def)
    then obtain k where "dev (polled dev (Suc k) t) (COM1 + REG_LINE_STATUS) AND LSR_TX_EMPTY \<noteq> 0"
      using IH by fastforce
    then show ?thesis by blast
  next
    case False
    then show ?thesis by (intro exI [of _ 0]) simp
  qed
qed

lemma poll_tx_returns:
  assumes "responsive dev"
  shows "\<exists>t'. poll_tx dev t = Some t' \<and> ready_read t' \<and> uart_of u t' = uart_of u t \<and> (paced u t \<longrightarrow> paced u t')"
proof -
  obtain k where "dev (polled dev k t) (COM1 + REG_LINE_STATUS) AND LSR_TX_EMPTY \<noteq> 0"
    using assms unfolding responsive_def by blast
  then show ?thesis by (rule poll_tx_ready)
qed

text \<open>One byte; a line feed is sent as carriage return and line feed.\<close>

definition on_wire :: "u8 list \<Rightarrow> u8 list" where
  "on_wire bs = concat (List.map (\<lambda>b. if b = 10 then [13, 10] else [b]) bs)"

lemma on_wire_simps [simp]:
  "on_wire [] = []" "on_wire (b # bs) = (if b = 10 then [13, 10] else [b]) @ on_wire bs"
  "on_wire (as @ bs) = on_wire as @ on_wire bs"
  by (simp_all add: on_wire_def)

text \<open>Text moved into the pieces it is written in, before literals are computed with.\<close>

lemma ascii_Nil: "ascii [] = []"
  by (simp add: ascii_def)

lemmas text_pieces = ascii_append ascii_Nil on_wire_simps(1,3) append_assoc append_Nil append_Nil2
  if_distrib [of ascii] if_distrib [of on_wire]

lemma transmits_put:
  assumes "responsive dev"
  shows "transmits u (\<lambda>t. poll_tx dev t \<bind> (\<lambda>t. Some (outb (COM1 + REG_DATA) b t))) [b]"
  unfolding transmits_def
proof (intro allI impI)
  fix t
  assume t: "\<not> dlab (uart_of u t)"
  obtain t1 where "poll_tx dev t = Some t1" "ready_read t1" "uart_of u t1 = uart_of u t" "paced u t \<longrightarrow> paced u t1"
    using poll_tx_returns [OF assms] by blast
  then show "\<exists>t'. poll_tx dev t \<bind> (\<lambda>t. Some (outb (COM1 + REG_DATA) b t)) = Some t'
      \<and> uart_of u t' = (uart_of u t)\<lparr>tx := tx (uart_of u t) @ [b]\<rparr> \<and> (paced u t \<longrightarrow> paced u t')"
    using t by (simp add: outb_def uart_out_def serial_consts)
qed

lemma transmits_write_byte:
  assumes "responsive dev"
  shows "transmits u (write_byte dev b) (on_wire [b])"
proof -
  let ?put = "\<lambda>b t. poll_tx dev t \<bind> (\<lambda>t. Some (outb (COM1 + REG_DATA) b t))"
  have plain: "write_byte dev b = ?put b" if "b \<noteq> 10" for b
    using that by (simp add: fun_eq_iff write_byte.simps)
  have nl: "write_byte dev 10 = (\<lambda>t. ?put 13 t \<bind> ?put 10)"
    using plain [of 13] by (simp add: fun_eq_iff write_byte.simps [of dev 10] split: option.splits bind_splits)
  show ?thesis
  proof (cases "b = 10")
    case True
    then show ?thesis using transmits_bind [OF transmits_put transmits_put, OF assms assms, of u 13 10] nl by simp
  next
    case False
    then show ?thesis using transmits_put [OF assms] plain by simp
  qed
qed

lemma transmits_write_bytes:
  assumes "responsive dev"
  shows "transmits u (write_bytes dev bs) (on_wire bs)"
proof (induction bs)
  case Nil
  have "write_bytes dev [] = Some" by (simp add: fun_eq_iff)
  then show ?case by (simp add: transmits_Some)
next
  case (Cons b bs)
  have "write_bytes dev (b # bs) = (\<lambda>t. write_byte dev b t \<bind> write_bytes dev bs)" by (simp add: fun_eq_iff)
  then show ?case using transmits_bind [OF transmits_write_byte [OF assms] Cons, of b] by (simp add: on_wire_def)
qed

section \<open>Initialisation\<close>

lemma serial_init_uart:
  "uart_of u (serial_init t) = (uart_of u t)\<lparr>
     ier := if dlab (uart_of u t) then ier (uart_of u t) else 0,
     dll := 3, dlm := 0, lcr := 0x03, fcr := 0xC7, mcr := 0x0B\<rparr>"
  by (simp add: serial_init_def Let_def outb_def uart_out_def serial_consts dlab_def)

lemma serial_init_closed: "\<not> dlab (uart_of u (serial_init t))"
  unfolding serial_init_uart by (simp add: dlab_def LCR_DLAB_def)

lemma serial_init_paced: "paced u t \<Longrightarrow> paced u (serial_init t)"
  by (simp add: serial_init_def Let_def outb_def uart_out_def serial_consts dlab_def)

section \<open>Hexadecimal numbers\<close>

lemma hex_digits: "HEX_DIGITS = [48, 49, 50, 51, 52, 53, 54, 55, 56, 57, 65, 66, 67, 68, 69, 70]"
  by (simp add: HEX_DIGITS_def ascii_def)

text \<open>The digits of a number, and how a reader of the log gets the number back.\<close>

primrec hex_digits_of :: "nat \<Rightarrow> nat \<Rightarrow> u8 list" where
  "hex_digits_of 0 m = []"
| "hex_digits_of (Suc n) m = hex_digits_of n (m div 16) @ [HEX_DIGITS ! (m mod 16)]"

abbreviation hex_text :: "u64 \<Rightarrow> u8 list" where
  "hex_text v \<equiv> hex_digits_of 16 (unat v)"

definition hex_value :: "u8 \<Rightarrow> nat" where
  "hex_value b = (if b \<le> 57 then unat b - 48 else unat b - 55)"

definition hex_decode :: "u8 list \<Rightarrow> nat" where
  "hex_decode bs = foldl (\<lambda>a b. a * 16 + hex_value b) 0 bs"

lemma hex_digit_facts:
  assumes "d < 16"
  shows "hex_value (HEX_DIGITS ! d) = d" and "HEX_DIGITS ! d \<noteq> 10" and "HEX_DIGITS ! d \<in> set HEX_DIGITS"
proof -
  have "list_all (\<lambda>d. hex_value (HEX_DIGITS ! d) = d \<and> HEX_DIGITS ! d \<noteq> 10) [0..<16]"
    by (simp add: hex_digits hex_value_def upt_rec)
  then show "hex_value (HEX_DIGITS ! d) = d" "HEX_DIGITS ! d \<noteq> 10" using assms by (simp_all add: list_all_iff)
  show "HEX_DIGITS ! d \<in> set HEX_DIGITS" using assms by (intro nth_mem) (simp add: hex_digits)
qed

lemma low_nibble: "unat (v AND 0xF :: u64) = unat v mod 16"
proof -
  have "v AND 0xF = take_bit 4 v" by (simp add: take_bit_eq_mask mask_eq_exp_minus_1)
  then show ?thesis by (simp add: take_bit_eq_mod unat_mod)
qed

lemma hex_fill_digits:
  "n \<le> length buf \<Longrightarrow> hex_fill n v buf = hex_digits_of n (unat v) @ drop n buf"
proof (induction n arbitrary: v buf)
  case (Suc n)
  have "unat (drop_bit 4 v) = unat v div 16" by (simp add: unsigned_drop_bit_eq drop_bit_eq_div unat_div)
  moreover have "drop n (buf[n := x]) = x # drop (Suc n) buf" for x
    using Suc(2) by (simp add: drop_update_swap Cons_nth_drop_Suc [symmetric])
  ultimately show ?case using Suc by (simp add: low_nibble)
qed simp

lemma hex_decode_digits: "hex_decode (hex_digits_of n m) = m mod 16 ^ n"
  unfolding hex_decode_def
  by (induction n arbitrary: m) (simp_all add: hex_digit_facts mod_mult2_eq)

lemma hex_digits_of_set: "set (hex_digits_of n m) \<subseteq> set HEX_DIGITS" and hex_digits_of_length [simp]: "length (hex_digits_of n m) = n"
  by (induction n arbitrary: m) (use hex_digit_facts(3) in auto)

lemma on_wire_hex: "on_wire (hex_digits_of n m) = hex_digits_of n m"
  by (induction n arbitrary: m) (simp_all add: hex_digit_facts)

section \<open>The console interface\<close>

text \<open>
  What the rest of the kernel relies on: printing a string and a number returns and puts exactly
  their text out, and so do sequences and choices of prints.
\<close>

locale console =
  fixes says :: "('s \<Rightarrow> 's option) \<Rightarrow> u8 list \<Rightarrow> bool"
    and put_str :: "u8 list \<Rightarrow> 's \<Rightarrow> 's option"
    and put_hex :: "u64 \<Rightarrow> 's \<Rightarrow> 's option"
  assumes says_str: "says (put_str s) (on_wire s)"
    and says_hex: "says (put_hex v) (hex_text v)"
    and says_done: "says Some []"
    and says_then: "says f as \<Longrightarrow> says g bs \<Longrightarrow> says (\<lambda>t. f t \<bind> g) (as @ bs)"
begin

lemma says_if: "says f as \<Longrightarrow> says g bs \<Longrightarrow> says (\<lambda>t. if b then f t else g t) (if b then as else bs)"
  by simp

lemma says_str_then: "says g bs \<Longrightarrow> says (\<lambda>t. put_str s t \<bind> g) (on_wire s @ bs)"
  by (rule says_then [OF says_str])

lemma says_hex_then: "says g bs \<Longrightarrow> says (\<lambda>t. put_hex v t \<bind> g) (hex_text v @ bs)"
  by (rule says_then [OF says_hex])

lemma says_eq: "says f as \<Longrightarrow> as = bs \<Longrightarrow> says f bs"
  by simp

lemmas says_intros = says_str_then says_hex_then says_then says_if says_str says_hex says_done

end

abbreviation serial_says :: "device \<Rightarrow> uart \<Rightarrow> (ports \<Rightarrow> ports option) \<Rightarrow> u8 list \<Rightarrow> bool" where
  "serial_says dev u f bs \<equiv> responsive dev \<longrightarrow> transmits u f bs"

interpretation con: console "serial_says dev u" "write_str dev" "write_hex64 dev" for dev u
proof
  show "serial_says dev u (write_str dev s) (on_wire s)" for s
    using transmits_write_bytes [of dev u s] by (simp add: write_str_def [abs_def])
  have "write_hex64 dev v = write_bytes dev (hex_text v)" for v
    by (simp add: fun_eq_iff write_hex64_def hex_fill_digits)
  then show "serial_says dev u (write_hex64 dev v) (hex_text v)" for v
    using transmits_write_bytes [of dev u "hex_text v"] by (simp add: on_wire_hex)
qed (use transmits_Some transmits_bind in blast)+

section \<open>Properties\<close>

text \<open>A device that is ready on every third read, and a closed divisor latch.\<close>

definition slow_device :: device where
  "slow_device t port = (if length t mod 3 = 2 then 0x60 else 0)"

definition idle_uart :: uart where
  "idle_uart = \<lparr>ier = 0, fcr = 0, lcr = 3, mcr = 0, dll = 3, dlm = 0, tx = []\<rparr>"

lemma slow_responsive: "responsive slow_device"
proof -
  have len: "length (polled slow_device k t) = length t + k" for k t
    by (induction k arbitrary: t) (simp_all add: inb_def Let_def)
  have "slow_device (polled slow_device (2 * length t + 2) t) p AND LSR_TX_EMPTY \<noteq> 0" for t p
  proof -
    have "(length t + (2 * length t + 2)) mod 3 = 2" by presburger
    then show ?thesis unfolding slow_device_def len by (simp add: LSR_TX_EMPTY_def)
  qed
  then show ?thesis unfolding responsive_def by blast
qed

text \<open>
  C36. The polling loop returns exactly if some number of reads of the line status ends with the
  transmitter empty; on a device that never becomes ready the kernel hangs.
\<close>

theorem poll_tx_terminates_iff:
  "(\<exists>t'. poll_tx dev t = Some t') \<longleftrightarrow> (\<exists>k. dev (polled dev k t) (COM1 + REG_LINE_STATUS) AND LSR_TX_EMPTY \<noteq> 0)"
  using poll_tx_ready poll_tx_Some by blast

text \<open>
  C33. Whatever the state of the device, after \<open>init\<close> it is programmed for 38400 baud (divisor 3),
  eight data bits, no parity and one stop bit, with the divisor latch closed, the buffers cleared
  and enabled and the modem lines on; interrupts are off unless the divisor latch was open before,
  in which case the first write reaches the divisor instead. If the device becomes ready when
  polled often enough, \<open>write_str\<close> then returns and transmits the bytes of the string in order, each
  line feed as carriage return and line feed, without sending a byte before the transmitter was
  seen empty. A string that already ends in carriage return and line feed therefore goes out with
  two carriage returns.
\<close>

theorem serial_output:
  assumes "responsive dev"
  shows "\<exists>t'. write_str dev s (serial_init t) = Some t' \<and> (paced u t \<longrightarrow> paced u t')
    \<and> uart_of u t' = (uart_of u t)\<lparr>ier := if dlab (uart_of u t) then ier (uart_of u t) else 0,
        dll := 3, dlm := 0, lcr := 0x03, fcr := 0xC7, mcr := 0x0B, tx := tx (uart_of u t) @ on_wire s\<rparr>"
proof -
  obtain t' where "write_str dev s (serial_init t) = Some t'" "paced u (serial_init t) \<longrightarrow> paced u t'"
    "uart_of u t' = (uart_of u (serial_init t))\<lparr>tx := tx (uart_of u (serial_init t)) @ on_wire s\<rparr>"
    using con.says_str [of dev u s] assms serial_init_closed [of u t] by (auto simp: transmits_def)
  then show ?thesis using serial_init_paced [of u t] by (auto simp: serial_init_uart)
qed

theorem serial_output_witness:
  "\<exists>t. write_str slow_device [79, 75, 13, 10] (serial_init []) = Some t
    \<and> tx (uart_of idle_uart t) = [79, 75, 13, 13, 10] \<and> dll (uart_of idle_uart t) = 3"
  using serial_output [OF slow_responsive, of "[79, 75, 13, 10]" "[]" idle_uart]
  by (auto simp: idle_uart_def)

text \<open>
  \<open>write_hex64\<close> returns and transmits sixteen hexadecimal digits, from which the number can be
  read back.
\<close>

theorem write_hex64_roundtrip:
  assumes "responsive dev" and "\<not> dlab (uart_of u t)"
  shows "\<exists>t' ds. write_hex64 dev v t = Some t' \<and> tx (uart_of u t') = tx (uart_of u t) @ ds
    \<and> length ds = 16 \<and> set ds \<subseteq> set HEX_DIGITS \<and> hex_decode ds = unat v"
proof -
  obtain t' where "write_hex64 dev v t = Some t'" "tx (uart_of u t') = tx (uart_of u t) @ hex_text v"
    using con.says_hex [of dev u v] assms by (auto simp: transmits_def)
  moreover have "hex_decode (hex_text v) = unat v" using unsigned_less [of v] by (simp add: hex_decode_digits)
  ultimately show ?thesis using hex_digits_of_set by (intro exI [of _ t'] exI [of _ "hex_text v"]) simp
qed

theorem write_hex64_roundtrip_witness:
  "\<exists>t ds. write_hex64 slow_device 0xDEADBEEFCAFEBABE [] = Some t \<and> tx (uart_of idle_uart t) = ds
    \<and> hex_decode ds = 0xDEADBEEFCAFEBABE"
  using write_hex64_roundtrip [OF slow_responsive, where u = idle_uart and t = "[]" and v = "0xDEADBEEFCAFEBABE"]
  by (auto simp: dlab_def idle_uart_def LCR_DLAB_def)

end
