(* ===== verification/Exceptions.thy ===== *)
theory Exceptions
  imports Idt Serial
begin

unbundle bit_operations_syntax

text \<open>
  The handlers of the processor exceptions and their report on the serial line
  (\<open>arch/x86_64/exceptions.rs\<close>). A report either resumes the interrupted code or halts.
\<close>

section \<open>Reports\<close>

record interrupt_stack_frame =
  rip :: u64
  frame_cs :: u64
  rflags :: u64
  rsp :: u64
  frame_ss :: u64

datatype control = Resumed | Halted

definition CRLF :: string where
  "CRLF = [CHR 0x0D, CHR 0x0A]"

definition report_page_fault_error_code :: "device \<Rightarrow> u64 \<Rightarrow> ports \<Rightarrow> ports option" where
  "report_page_fault_error_code dev error_code t = do {
     t \<leftarrow> write_str dev (ascii ''  Cause: '') t;
     t \<leftarrow> write_str dev (if error_code AND 1 \<noteq> 0 then ascii ''protection violation (page present)''
                          else ascii ''non-present page'') t;
     t \<leftarrow> write_str dev (ascii '', '') t;
     t \<leftarrow> write_str dev (if error_code AND 0b10 \<noteq> 0 then ascii ''write'' else ascii ''read'') t;
     t \<leftarrow> write_str dev (ascii '', '') t;
     t \<leftarrow> write_str dev (if error_code AND 0b100 \<noteq> 0 then ascii ''user-mode'' else ascii ''supervisor-mode'') t;
     t \<leftarrow> (if error_code AND 0b1000 \<noteq> 0 then write_str dev (ascii '', reserved-bit-set page table entry'') t else Some t);
     t \<leftarrow> (if error_code AND 0b10000 \<noteq> 0 then write_str dev (ascii '', instruction fetch'') t else Some t);
     write_str dev (ascii CRLF) t
   }"

text \<open>\<open>cr2\<close> is what reading the register returns.\<close>

definition report_output ::
    "device \<Rightarrow> u8 \<Rightarrow> u8 list \<Rightarrow> u64 option \<Rightarrow> interrupt_stack_frame \<Rightarrow> u64 \<Rightarrow> ports \<Rightarrow> ports option" where
  "report_output dev vector name error_code frame cr2 t = do {
     t \<leftarrow> write_str dev (ascii (CRLF @ ''!!! CPU EXCEPTION !!!'' @ CRLF)) t;
     t \<leftarrow> write_str dev (ascii ''Vector: 0x'') t;
     t \<leftarrow> write_hex64 dev (ucast vector) t;
     t \<leftarrow> write_str dev (ascii '' ('') t;
     t \<leftarrow> write_str dev name t;
     t \<leftarrow> write_str dev (ascii ('')'' @ CRLF)) t;
     t \<leftarrow> (case error_code of
            Some code \<Rightarrow> do {
              t \<leftarrow> write_str dev (ascii ''Error code: 0x'') t;
              t \<leftarrow> write_hex64 dev code t;
              t \<leftarrow> write_str dev (ascii CRLF) t;
              (if vector = 14 then report_page_fault_error_code dev code t else Some t)
            }
          | None \<Rightarrow> Some t);
     t \<leftarrow> (if vector = 14 then do {
              t \<leftarrow> write_str dev (ascii ''CR2 (faulting address): 0x'') t;
              t \<leftarrow> write_hex64 dev cr2 t;
              write_str dev (ascii CRLF) t
            } else Some t);
     t \<leftarrow> write_str dev (ascii ''RIP: 0x'') t;
     t \<leftarrow> write_hex64 dev (rip frame) t;
     t \<leftarrow> write_str dev (ascii ''  CS: 0x'') t;
     t \<leftarrow> write_hex64 dev (frame_cs frame) t;
     t \<leftarrow> write_str dev (ascii (CRLF @ ''RFLAGS: 0x'')) t;
     t \<leftarrow> write_hex64 dev (rflags frame) t;
     t \<leftarrow> write_str dev (ascii (CRLF @ ''RSP: 0x'')) t;
     t \<leftarrow> write_hex64 dev (rsp frame) t;
     t \<leftarrow> write_str dev (ascii ''  SS: 0x'') t;
     t \<leftarrow> write_hex64 dev (frame_ss frame) t;
     write_str dev (ascii CRLF) t
   }"

text \<open>The dash in the message for breakpoints is the three bytes of its UTF-8 encoding.\<close>

definition report ::
    "device \<Rightarrow> u8 \<Rightarrow> u8 list \<Rightarrow> u64 option \<Rightarrow> interrupt_stack_frame \<Rightarrow> u64 \<Rightarrow> ports \<Rightarrow> (control \<times> ports) option" where
  "report dev vector name error_code frame cr2 t = do {
     t \<leftarrow> report_output dev vector name error_code frame cr2 t;
     (if vector = 3 then do {
        t \<leftarrow> write_str dev (ascii ''(Breakpoint '' @ [0xE2, 0x80, 0x94] @ ascii ('' resuming execution.)'' @ CRLF)) t;
        Some (Resumed, t)
      } else do {
        t \<leftarrow> write_str dev (ascii (''Kernel halted.'' @ CRLF)) t;
        Some (Halted, t)
      })
   }"

section \<open>Handlers\<close>

text \<open>The instances of the two macros: the vector, the name, and whether there is an error code.\<close>

definition handlers :: "(u8 \<times> string \<times> bool) list" where
  "handlers = [
     (0, ''Divide Error (#DE)'', False),
     (1, ''Debug (#DB)'', False),
     (2, ''Non-Maskable Interrupt'', False),
     (3, ''Breakpoint (#BP)'', False),
     (4, ''Overflow (#OF)'', False),
     (5, ''Bound Range Exceeded (#BR)'', False),
     (6, ''Invalid Opcode (#UD)'', False),
     (7, ''Device Not Available (#NM)'', False),
     (8, ''Double Fault (#DF)'', True),
     (9, ''Reserved (legacy Coprocessor Segment Overrun)'', False),
     (10, ''Invalid TSS (#TS)'', True),
     (11, ''Segment Not Present (#NP)'', True),
     (12, ''Stack-Segment Fault (#SS)'', True),
     (13, ''General Protection Fault (#GP)'', True),
     (14, ''Page Fault (#PF)'', True),
     (15, ''Reserved'', False),
     (16, ''x87 Floating-Point Exception (#MF)'', False),
     (17, ''Alignment Check (#AC)'', True),
     (18, ''Machine Check (#MC)'', False),
     (19, ''SIMD Floating-Point Exception (#XM)'', False),
     (20, ''Virtualization Exception (#VE)'', False),
     (21, ''Control Protection Exception (#CP)'', True),
     (22, ''Reserved'', False),
     (23, ''Reserved'', False),
     (24, ''Reserved'', False),
     (25, ''Reserved'', False),
     (26, ''Reserved'', False),
     (27, ''Reserved'', False),
     (28, ''Hypervisor Injection Exception (#HV)'', False),
     (29, ''VMM Communication Exception (#VC)'', True),
     (30, ''Security Exception (#SX)'', True),
     (31, ''Reserved'', False)]"

definition handler_with_error :: "nat \<Rightarrow> bool" where
  "handler_with_error i = snd (snd (handlers ! i))"

text \<open>Running handler \<open>i\<close>; \<open>error_code\<close> is the word the processor pushed, for the handlers that take one.\<close>

definition handler ::
    "device \<Rightarrow> nat \<Rightarrow> interrupt_stack_frame \<Rightarrow> u64 \<Rightarrow> u64 \<Rightarrow> ports \<Rightarrow> (control \<times> ports) option" where
  "handler dev i stack_frame error_code cr2 t =
     (case handlers ! i of (vector, name, with_error) \<Rightarrow>
        report dev vector (ascii name) (if with_error then Some error_code else None) stack_frame cr2 t)"

text \<open>The calls of \<open>install_handlers\<close>: the vector, the handler and the stack.\<close>

definition installed :: "(nat \<times> nat \<times> u8) list" where
  "installed = [
     (0, 0, 0), (1, 1, 0), (2, 2, 0), (3, 3, 0), (4, 4, 0), (5, 5, 0), (6, 6, 0), (7, 7, 0),
     (8, 8, ucast DOUBLE_FAULT_IST_INDEX),
     (9, 9, 0), (10, 10, 0), (11, 11, 0), (12, 12, 0), (13, 13, 0), (14, 14, 0), (15, 15, 0),
     (16, 16, 0), (17, 17, 0), (18, 18, 0), (19, 19, 0), (20, 20, 0), (21, 21, 0), (22, 22, 0), (23, 23, 0),
     (24, 24, 0), (25, 25, 0), (26, 26, 0), (27, 27, 0), (28, 28, 0), (29, 29, 0), (30, 30, 0), (31, 31, 0)]"

definition install_handlers :: "link_map \<Rightarrow> idt_entry list \<Rightarrow> idt_entry list" where
  "install_handlers lk idt =
     fold (\<lambda>(vector, fn, i) idt. set_entry idt vector (handler_addr lk fn) i) installed idt"

section \<open>The text of a report\<close>

text \<open>The cause of a page fault, as text.\<close>

definition cause_text :: "u64 \<Rightarrow> string" where
  "cause_text c =
     ''  Cause: ''
     @ (if bit c 0 then ''protection violation (page present)'' else ''non-present page'') @ '', ''
     @ (if bit c 1 then ''write'' else ''read'') @ '', ''
     @ (if bit c 2 then ''user-mode'' else ''supervisor-mode'')
     @ (if bit c 3 then '', reserved-bit-set page table entry'' else '''')
     @ (if bit c 4 then '', instruction fetch'' else '''') @ CRLF"

lemma error_bits:
  "c AND 1 \<noteq> 0 \<longleftrightarrow> bit c 0" "c AND 0b10 \<noteq> 0 \<longleftrightarrow> bit c 1" "c AND 0b100 \<noteq> 0 \<longleftrightarrow> bit c 2"
  "c AND 0b1000 \<noteq> 0 \<longleftrightarrow> bit c 3" "c AND 0b10000 \<noteq> 0 \<longleftrightarrow> bit (c :: u64) 4"
  using and_exp_eq_0_iff_not_bit [of c 0] and_exp_eq_0_iff_not_bit [of c 1] and_exp_eq_0_iff_not_bit [of c 2]
    and_exp_eq_0_iff_not_bit [of c 3] and_exp_eq_0_iff_not_bit [of c 4] by simp_all

lemma says_cause:
  "serial_says dev u (report_page_fault_error_code dev c) (on_wire (ascii (cause_text c)))"
  unfolding report_page_fault_error_code_def [abs_def] error_bits cause_text_def
  by (rule con.says_eq, (rule con.says_intros)+) (simp only: text_pieces)

text \<open>The whole report: the registers by name.\<close>

definition labelled :: "string \<Rightarrow> u64 \<Rightarrow> u8 list" where
  "labelled l v = on_wire (ascii l) @ hex_text v"

definition error_text :: "u8 \<Rightarrow> u64 \<Rightarrow> u8 list" where
  "error_text vector c = labelled ''Error code: 0x'' c @ on_wire (ascii CRLF)
     @ (if vector = 14 then on_wire (ascii (cause_text c)) else [])"

definition report_text :: "u8 \<Rightarrow> u8 list \<Rightarrow> u64 option \<Rightarrow> interrupt_stack_frame \<Rightarrow> u64 \<Rightarrow> u8 list" where
  "report_text vector name error_code frame cr2 =
     on_wire (ascii (CRLF @ ''!!! CPU EXCEPTION !!!'' @ CRLF))
     @ labelled ''Vector: 0x'' (ucast vector) @ on_wire (ascii '' ('' @ name @ ascii ('')'' @ CRLF))
     @ (case error_code of None \<Rightarrow> [] | Some c \<Rightarrow> error_text vector c)
     @ (if vector = 14 then labelled ''CR2 (faulting address): 0x'' cr2 @ on_wire (ascii CRLF) else [])
     @ labelled ''RIP: 0x'' (rip frame) @ labelled ''  CS: 0x'' (frame_cs frame)
     @ labelled (CRLF @ ''RFLAGS: 0x'') (rflags frame)
     @ labelled (CRLF @ ''RSP: 0x'') (rsp frame) @ labelled ''  SS: 0x'' (frame_ss frame)
     @ on_wire (ascii CRLF)"

lemma says_report:
  "serial_says dev u (report_output dev vector name error_code frame cr2) (report_text vector name error_code frame cr2)"
proof (cases error_code)
  case None
  show ?thesis
    unfolding report_output_def [abs_def] report_text_def None option.case labelled_def
    by (rule con.says_eq, (rule con.says_intros)+) (simp only: text_pieces)
next
  case (Some c)
  show ?thesis
    unfolding report_output_def [abs_def] report_text_def Some option.case error_text_def labelled_def
    by (rule con.says_eq, (rule says_cause con.says_intros)+) (simp only: text_pieces)
qed

end
