(* ===== verification/Interrupts.thy ===== *)
theory Interrupts
  imports Exceptions
begin

unbundle bit_operations_syntax

text \<open>
  Loading the interrupt table (\<open>idt::init\<close>), how the processor delivers an exception through the
  two tables, and the properties of the exception path: every exception reaches its own handler
  on the right stack, and its report says what happened.
\<close>

section \<open>Loading\<close>

definition size_of_IdtEntry :: nat where
  "size_of_IdtEntry = 2 + 2 + 1 + 1 + 2 + 4 + 4"

definition lidt :: "descriptor_table_pointer \<Rightarrow> interrupt_state \<Rightarrow> interrupt_state" where
  "lidt p s = s\<lparr>idtr := p\<rparr>"

definition idt_init :: "link_map \<Rightarrow> interrupt_state \<Rightarrow> interrupt_state" where
  "idt_init lk s =
     (let s = s\<lparr>IDT := install_handlers lk (IDT s)\<rparr>;
          idt_ptr = \<lparr>pointer_limit = of_nat (256 * size_of_IdtEntry - 1), pointer_base = IDT_addr lk\<rparr>
      in lidt idt_ptr s)"

section \<open>Delivery\<close>

text \<open>
  The processor finds the gate through the table register, the code segment through the segment
  table and, for a gate with a stack number, the stack through the task register. \<open>None\<close> is a fault
  during delivery.
\<close>

definition gdt_word :: "link_map \<Rightarrow> interrupt_state \<Rightarrow> nat \<Rightarrow> u64 option" where
  "gdt_word lk s i =
     (if pointer_base (gdtr s) = GDT_addr lk \<and> i * 8 + 7 \<le> unat (pointer_limit (gdtr s)) then Some (GDT s ! i) else None)"

definition gate :: "link_map \<Rightarrow> interrupt_state \<Rightarrow> nat \<Rightarrow> idt_entry option" where
  "gate lk s v =
     (if pointer_base (idtr s) = IDT_addr lk \<and> v * 16 + 15 \<le> unat (pointer_limit (idtr s))
        \<and> gate_present (IDT s ! v) \<and> gate_is_interrupt (IDT s ! v) then Some (IDT s ! v) else None)"

definition interrupt_stack :: "link_map \<Rightarrow> interrupt_state \<Rightarrow> nat \<Rightarrow> u64 option option" where
  "interrupt_stack lk s i =
     (if i = 0 then Some None else do {
        low \<leftarrow> gdt_word lk s (selector_index (tr s));
        high \<leftarrow> gdt_word lk s (selector_index (tr s) + 1);
        (if desc_present low \<and> desc_is_system low \<and> desc_type low = 11 \<and> system_base low high = TSS_addr lk
         then Some (Some (interrupt_stack_table (TSS s) ! (i - 1))) else None)
      })"

definition delivered :: "link_map \<Rightarrow> interrupt_state \<Rightarrow> nat \<Rightarrow> (u64 \<times> u16 \<times> u64 option) option" where
  "delivered lk s v = do {
     e \<leftarrow> gate lk s v;
     code \<leftarrow> gdt_word lk s (selector_index (selector e));
     stack \<leftarrow> interrupt_stack lk s (gate_ist e);
     (if code_segment code then Some (gate_offset e, selector e, stack) else None)
   }"

section \<open>The installed table\<close>

lemma installed_upt: "installed = List.map (\<lambda>v. (v, v, if v = 8 then 1 else 0)) [0..<32]"
  by (simp add: installed_def upt_rec DOUBLE_FAULT_IST_INDEX_def)

lemma length_fold_set_entry:
  "length (fold (\<lambda>(v, fn, i) idt. set_entry idt v (addr fn) i) xs idt) = length idt"
  by (induction xs arbitrary: idt) (auto simp: set_entry_def)

lemma fold_set_entry:
  assumes "distinct (List.map fst xs)" and "\<forall>x \<in> set xs. fst x < length idt"
  shows "fold (\<lambda>(v, fn, i) idt. set_entry idt v (addr fn) i) xs idt ! v
      = (case map_of xs v of None \<Rightarrow> idt ! v | Some (fn, i) \<Rightarrow> set_handler (idt ! v) (addr fn) i)"
  using assms
proof (induction xs arbitrary: idt)
  case (Cons x xs)
  obtain w fn i where x: "x = (w, fn, i)" by (cases x)
  have "map_of xs w = None" "w < length idt" using Cons.prems x by (auto simp: map_of_eq_None_iff)
  then show ?case
    using Cons.IH [of "set_entry idt w (addr fn) i"] Cons.prems x by (auto simp: set_entry_def split: option.splits)
qed simp

lemma install_handlers_nth:
  assumes "length idt = 256"
  shows "length (install_handlers lk idt) = 256"
    and "install_handlers lk idt ! v
      = (if v < 32 then set_handler (idt ! v) (handler_addr lk v) (if v = 8 then 1 else 0) else idt ! v)"
proof -
  let ?xs = "List.map (\<lambda>v. (v, v, if v = 8 then 1 else 0)) [0..<32] :: (nat \<times> nat \<times> u8) list"
  have xs: "distinct (List.map fst ?xs)" "\<forall>x \<in> set ?xs. fst x < length idt" using assms by (simp_all add: comp_def)
  have "map_of ?xs v = (if v < 32 then Some (v, if v = 8 then 1 else 0) else None)"
    by (simp add: map_of_map_restrict restrict_map_def)
  then show "length (install_handlers lk idt) = 256" "install_handlers lk idt ! v
      = (if v < 32 then set_handler (idt ! v) (handler_addr lk v) (if v = 8 then 1 else 0) else idt ! v)"
    using fold_set_entry [OF xs, of "handler_addr lk"] assms
    by (simp_all add: install_handlers_def installed_upt length_fold_set_entry)
qed

lemma idt_init_simps [simp]:
  "GDT (idt_init lk s) = GDT s" "TSS (idt_init lk s) = TSS s" "gdtr (idt_init lk s) = gdtr s" "tr (idt_init lk s) = tr s"
  "IDT (idt_init lk s) = install_handlers lk (IDT s)"
  "idtr (idt_init lk s) = \<lparr>pointer_limit = 4095, pointer_base = IDT_addr lk\<rparr>"
  by (simp_all add: idt_init_def lidt_def size_of_IdtEntry_def)

lemma delivered_tables:
  assumes "statics_ok s" and "v < 32"
  shows "delivered lk (idt_init lk (gdt_init lk s)) v = Some (handler_addr lk v, KERNEL_CODE_SELECTOR,
    if v = 8 then Some (DOUBLE_FAULT_STACK_addr lk + 16384) else None)"
proof -
  let ?s = "idt_init lk (gdt_init lk s)"
  have g: "gate lk ?s v = Some (IDT ?s ! v)"
    using assms by (auto simp: gate_def install_handlers_nth)
  have "gdt_word lk ?s 1 = Some (segment_descriptor ACCESS_KERNEL_CODE True)"
    "gdt_word lk ?s 3 = Some (tss_low (TSS_addr lk) True)" "gdt_word lk ?s 4 = Some (snd (tss_descriptor (TSS_addr lk)))"
    using assms(1) by (simp_all add: gdt_word_def gdt_init_tables)
  then show ?thesis
    using assms
    by (simp add: delivered_def g install_handlers_nth interrupt_stack_def gate_ist_def selector_indices kernel_segments gate_offset_set
        tss_fields tss_base_decoded)
qed

section \<open>Reports\<close>

text \<open>The exceptions for which the architecture pushes an error code.\<close>

definition pushes_error_code :: "nat \<Rightarrow> bool" where
  "pushes_error_code v \<longleftrightarrow> v \<in> {8, 10, 11, 12, 13, 14, 17, 21, 29, 30}"

definition handler_name :: "nat \<Rightarrow> string" where
  "handler_name v = fst (snd (handlers ! v))"

lemma handlers_nth:
  assumes "v < 32"
  shows "handlers ! v = (of_nat v, handler_name v, pushes_error_code v)"
proof -
  have "list_all (\<lambda>v. fst (handlers ! v) = of_nat v \<and> snd (snd (handlers ! v)) = pushes_error_code v) [0..<32]"
    by (simp add: handlers_def pushes_error_code_def upt_rec)
  then show ?thesis using assms by (simp add: list_all_iff handler_name_def prod_eq_iff)
qed

definition closing_text :: "u8 \<Rightarrow> u8 list" where
  "closing_text vector = on_wire (if vector = 3
     then ascii ''(Breakpoint '' @ [0xE2, 0x80, 0x94] @ ascii ('' resuming execution.)'' @ CRLF)
     else ascii (''Kernel halted.'' @ CRLF))"

lemma report_returns:
  assumes dev: "responsive dev" and t: "\<not> dlab (uart_of u t)"
  obtains t' where "report dev vector name e frame cr2 t = Some (if vector = 3 then Resumed else Halted, t')"
    and "uart_of u t' = (uart_of u t)\<lparr>tx := tx (uart_of u t) @ report_text vector name e frame cr2 @ closing_text vector\<rparr>"
    and "paced u t \<Longrightarrow> paced u t'"
proof -
  let ?close = "if vector = 3 then ascii ''(Breakpoint '' @ [0xE2, 0x80, 0x94] @ ascii ('' resuming execution.)'' @ CRLF)
    else ascii (''Kernel halted.'' @ CRLF)"
  have "serial_says dev u (\<lambda>t. report_output dev vector name e frame cr2 t \<bind> write_str dev ?close)
      (report_text vector name e frame cr2 @ closing_text vector)"
    unfolding closing_text_def by (rule con.says_then [OF says_report con.says_str])
  then obtain t' where "report_output dev vector name e frame cr2 t \<bind> write_str dev ?close = Some t'"
    "uart_of u t' = (uart_of u t)\<lparr>tx := tx (uart_of u t) @ report_text vector name e frame cr2 @ closing_text vector\<rparr>"
    "paced u t \<longrightarrow> paced u t'"
    using dev t unfolding transmits_def by blast
  then show thesis
    using that [of t'] by (cases "vector = 3") (auto simp: report_def bind_eq_Some_conv)
qed




section \<open>Properties\<close>

text \<open>
  C31. After both tables are loaded every processor exception is delivered to the entry point of
  its own handler, in the kernel's code segment, on the stack that was running, except the double
  fault, which starts at the top of its own stack; all other vectors have no handler.
\<close>

theorem exceptions_delivered:
  assumes "statics_ok s" and "\<And>w. 32 \<le> w \<Longrightarrow> w < 256 \<Longrightarrow> \<not> gate_present (IDT s ! w)" and "v < 256"
  shows "delivered lk (idt_init lk (gdt_init lk s)) v =
    (if v < 32 then Some (handler_addr lk v, KERNEL_CODE_SELECTOR,
       if v = 8 then Some (DOUBLE_FAULT_STACK_addr lk + 16384) else None) else None)"
proof (cases "v < 32")
  case True
  then show ?thesis using delivered_tables [OF assms(1)] by simp
next
  case False
  then show ?thesis using assms by (simp add: delivered_def gate_def install_handlers_nth)
qed

theorem exceptions_delivered_witness:
  "delivered example_link (idt_init example_link (gdt_init example_link boot_interrupt_state)) 8
    = Some (0xFFFFFFFF80001200, 8, Some 0xFFFFFFFF80016000)"
proof -
  have "statics_ok boot_interrupt_state" "\<And>w. w < 256 \<Longrightarrow> \<not> gate_present (IDT boot_interrupt_state ! w)"
    by (simp_all add: boot_interrupt_state_def TSS_static_def)
  then show ?thesis
    using exceptions_delivered [of boot_interrupt_state 8 example_link]
    by (simp add: example_link_def KERNEL_CODE_SELECTOR_def)
qed



text \<open>
  C32. Each exception handler prints its own vector and name, takes an error code exactly if the
  architecture pushes one for its vector, prints the registers and, for a page fault, the faulting
  address and the cause; then it resumes the interrupted code if the exception is the breakpoint
  and halts otherwise. It needs nothing but a serial device that becomes ready.
\<close>

theorem exception_reported:
  assumes "v < 32" and "responsive dev" and "\<not> dlab (uart_of u t)"
  shows "\<exists>t'. handler dev v frame error_code cr2 t = Some (if v = 3 then Resumed else Halted, t')
    \<and> tx (uart_of u t') = tx (uart_of u t)
        @ report_text (of_nat v) (ascii (handler_name v)) (if pushes_error_code v then Some error_code else None) frame cr2
        @ closing_text (of_nat v)"
proof -
  have three: "(of_nat v :: u8) = 3 \<longleftrightarrow> v = 3"
    using assms(1) of_nat_inverse [of v 3] by (auto simp: unat_of_nat word_unat_eq_iff)
  show ?thesis
    by (rule report_returns [OF assms(2,3), of "of_nat v" "ascii (handler_name v)"
        "if pushes_error_code v then Some error_code else None" frame cr2])
      (simp add: handler_def handlers_nth [OF assms(1)] three)
qed

text \<open>A page fault by a write to a present page of the kernel.\<close>

definition example_frame :: interrupt_stack_frame where
  "example_frame = \<lparr>rip = 0xFFFFFFFF80001234, frame_cs = 8, rflags = 2, rsp = 0xFFFFFFFF80020000, frame_ss = 16\<rparr>"

theorem exception_reported_witness:
  "\<exists>t. handler slow_device 14 example_frame 3 0xFFFF880010000000 [] = Some (Halted, t)
    \<and> tx (uart_of idle_uart t) = report_text 14 (ascii ''Page Fault (#PF)'') (Some 3) example_frame 0xFFFF880010000000
        @ closing_text 14"
  using exception_reported [OF _ slow_responsive, of 14 idle_uart "[]" example_frame 3 "0xFFFF880010000000"]
  by (simp add: idle_uart_def dlab_def LCR_DLAB_def handler_name_def handlers_def pushes_error_code_def)



end
