(* ===== verification/Boot_Monad.thy ===== *)
theory Boot_Monad
  imports Cpu_Access Kernel_Heap Interrupts
begin

unbundle bit_operations_syntax

text \<open>
  How the boot code of \<open>main.rs\<close> runs: on one state of the whole machine, printing as it goes, until
  it halts, panics or hangs. The rules at the end carry a property of the outcome through prints
  and steps, so that the proofs about the boot code follow its text.
\<close>

section \<open>State\<close>

record world =
  kern :: kernel
  ALLOCATOR :: kernel_heap
  io :: ports
  ints :: interrupt_state

text \<open>
  What the boot code finds: the serial device, the addresses of the linked image, the bytes of the
  memory map, the boot information by address, the address of the function the paging test looks
  up, the write-protect bit, the registers at an exception and the places panics report.
\<close>

record platform =
  uart_dev :: device
  uart_before :: uart
  links :: link_map
  map_bytes :: byte_mem
  boot_info_at :: "u64 \<Rightarrow> boot_info"
  self_fn_vaddr :: u64
  write_protect :: bool
  saved_frame :: "nat \<Rightarrow> interrupt_stack_frame"
  panic_location :: "panic \<Rightarrow> (u8 list \<times> u32) option"

text \<open>Where the kernel stops: which call of \<open>halt\<close>, an exception, or a fault before handlers exist.\<close>

datatype halt_site =
    NullBootInfo
  | InvalidBootInfo
  | FrameAllocatorInit init_error
  | FrameSelfTest
  | VmmSelfTest
  | HeapSelfTest
  | AfterPanic panic
  | InHandler nat
  | EndOfBoot

datatype ending =
    Halt halt_site
  | EarlyFault

type_synonym 'a boot = "world \<Rightarrow> (world \<times> (ending + 'a)) option"

section \<open>Steps\<close>

definition ret :: "'a \<Rightarrow> 'a boot" where
  "ret x w = Some (w, Inr x)"

definition stop :: "ending \<Rightarrow> 'a boot" where
  "stop e w = Some (w, Inl e)"

definition bindB :: "'a boot \<Rightarrow> ('a \<Rightarrow> 'b boot) \<Rightarrow> 'b boot" where
  "bindB m f w = (case m w of None \<Rightarrow> None
     | Some (w, r) \<Rightarrow> (case r of Inl e \<Rightarrow> Some (w, Inl e) | Inr x \<Rightarrow> f x w))"

text \<open>\<open>halt\<close> never returns.\<close>

definition halt :: "halt_site \<Rightarrow> 'a boot" where
  "halt site = stop (Halt site)"

text \<open>Printing, and what follows.\<close>

definition emit :: "(ports \<Rightarrow> ports option) \<Rightarrow> 'a boot \<Rightarrow> 'a boot" where
  "emit f m w = (case f (io w) of None \<Rightarrow> None | Some t \<Rightarrow> m (w\<lparr>io := t\<rparr>))"

definition say :: "platform \<Rightarrow> string \<Rightarrow> 'a boot \<Rightarrow> 'a boot" where
  "say pf s = emit (write_str (uart_dev pf) (ascii s))"

definition say_hex :: "platform \<Rightarrow> u64 \<Rightarrow> 'a boot \<Rightarrow> 'a boot" where
  "say_hex pf v = emit (write_hex64 (uart_dev pf) v)"

text \<open>The two kinds of line a self-test prints.\<close>

definition fail :: "platform \<Rightarrow> string \<Rightarrow> 'a \<Rightarrow> (bool \<times> 'a) boot" where
  "fail pf msg x = say pf (''  FAIL: '' @ msg @ CRLF) (ret (False, x))"

definition passed :: "platform \<Rightarrow> string \<Rightarrow> 'a boot \<Rightarrow> 'a boot" where
  "passed pf msg = say pf (''  [OK] '' @ msg @ CRLF)"

text \<open>The panic handler.\<close>

definition panic_handler :: "platform \<Rightarrow> panic \<Rightarrow> 'a boot" where
  "panic_handler pf e =
     say pf (CRLF @ ''!!! KERNEL PANIC !!!'' @ CRLF)
       (case panic_location pf e of
          Some (name, line) \<Rightarrow>
            say pf ''Location: ''
              (emit (write_str (uart_dev pf) name)
                (say pf '':'' (say_hex pf (ucast line) (say pf CRLF (halt (AfterPanic e))))))
        | None \<Rightarrow> halt (AfterPanic e))"

text \<open>A call that may panic.\<close>

definition call :: "platform \<Rightarrow> 'a exec \<Rightarrow> ('a \<Rightarrow> 'b boot) \<Rightarrow> 'b boot" where
  "call pf m f = (case m of Inl e \<Rightarrow> panic_handler pf e | Inr x \<Rightarrow> f x)"

definition set_cpu :: "cpu \<Rightarrow> world \<Rightarrow> world" where
  "set_cpu c w = w\<lparr>kern := (kern w)\<lparr>machine := c\<rparr>\<rparr>"

abbreviation the_cpu :: "world \<Rightarrow> cpu" where
  "the_cpu w \<equiv> machine (kern w)"

text \<open>Using the processor as it is, and continuing with the processor as a call left it.\<close>

definition on_cpu :: "(cpu \<Rightarrow> 'a boot) \<Rightarrow> 'a boot" where
  "on_cpu f w = f (the_cpu w) w"

definition with_cpu :: "cpu \<Rightarrow> 'a boot \<Rightarrow> 'a boot" where
  "with_cpu c m w = m (set_cpu c w)"

section \<open>Outcomes\<close>

definition ends :: "'a boot \<Rightarrow> (ending + 'a \<Rightarrow> world \<Rightarrow> bool) \<Rightarrow> world \<Rightarrow> bool" where
  "ends m Q w \<longleftrightarrow> (\<exists>w' r. m w = Some (w', r) \<and> Q r w')"

definition console_ready :: "platform \<Rightarrow> world \<Rightarrow> bool" where
  "console_ready pf w \<longleftrightarrow> responsive (uart_dev pf) \<and> \<not> dlab (uart_of (uart_before pf) (io w))"

text \<open>Two states that differ in the serial line only.\<close>

definition quietly :: "world \<Rightarrow> world \<Rightarrow> bool" where
  "quietly w w' \<longleftrightarrow> w' = w\<lparr>io := io w'\<rparr>"

lemma quietly_refl [simp]: "quietly w w"
  by (simp add: quietly_def)

lemma quietly_io [simp]: "quietly w (w'\<lparr>io := t\<rparr>) \<longleftrightarrow> quietly w w'"
  by (cases w; cases w') (simp add: quietly_def)

lemma quietly_set_cpu [simp]: "quietly (set_cpu c w) (set_cpu c' (w\<lparr>io := t\<rparr>)) \<longleftrightarrow> c = c'"
  by (cases w; cases "kern w") (auto simp: quietly_def set_cpu_def)

lemma quietlyD: "quietly w w' \<Longrightarrow> kern w' = kern w \<and> ALLOCATOR w' = ALLOCATOR w \<and> ints w' = ints w"
  by (cases w; cases w') (simp add: quietly_def)

named_theorems ends_rules

lemma ends_ret [ends_rules]: "Q (Inr x) w \<Longrightarrow> ends (ret x) Q w"
  by (simp add: ends_def ret_def)

lemma ends_stop [ends_rules]: "Q (Inl e) w \<Longrightarrow> ends (stop e) Q w"
  by (simp add: ends_def stop_def)

lemma ends_halt [ends_rules]: "Q (Inl (Halt s)) w \<Longrightarrow> ends (halt s) Q w"
  by (simp add: halt_def ends_stop)

lemma ends_on_cpu [ends_rules]: "ends (f (the_cpu w)) Q w \<Longrightarrow> ends (on_cpu f) Q w"
  by (simp add: ends_def on_cpu_def)

lemma ends_with_cpu [ends_rules]: "ends m Q (set_cpu c w) \<Longrightarrow> ends (with_cpu c m) Q w"
  by (simp add: ends_def with_cpu_def)

lemma set_cpu_simps [simp]:
  "the_cpu (set_cpu c w) = c" "set_cpu c (set_cpu c' w) = set_cpu c w" "io (set_cpu c w) = io w"
  "console_ready pf (set_cpu c w) \<longleftrightarrow> console_ready pf w" "(set_cpu c w)\<lparr>io := t\<rparr> = set_cpu c (w\<lparr>io := t\<rparr>)"
  "the_cpu (w\<lparr>io := t\<rparr>) = the_cpu w"
  by (simp_all add: set_cpu_def console_ready_def)

lemma ends_bind:
  assumes "ends m P w" and "\<And>e w. P (Inl e) w \<Longrightarrow> Q (Inl e) w" and "\<And>x w. P (Inr x) w \<Longrightarrow> ends (f x) Q w"
  shows "ends (bindB m f) Q w"
proof -
  obtain w' r where m: "m w = Some (w', r)" "P r w'" using assms(1) by (auto simp: ends_def)
  then show ?thesis using assms(2) assms(3) by (cases r) (fastforce simp: ends_def bindB_def)+
qed

lemma ends_mono: "ends m P w \<Longrightarrow> (\<And>r w. P r w \<Longrightarrow> Q r w) \<Longrightarrow> ends m Q w"
  by (auto simp: ends_def)

lemma ends_emit:
  assumes "console_ready pf w" and "serial_says (uart_dev pf) (uart_before pf) f bs"
    and "\<And>t. console_ready pf (w\<lparr>io := t\<rparr>) \<Longrightarrow> ends m Q (w\<lparr>io := t\<rparr>)"
  shows "ends (emit f m) Q w"
proof -
  have c: "transmits (uart_before pf) f bs" "\<not> dlab (uart_of (uart_before pf) (io w))" "responsive (uart_dev pf)"
    using assms(1,2) by (simp_all add: console_ready_def)
  obtain t where "f (io w) = Some t" "\<not> dlab (uart_of (uart_before pf) t)"
    using transmitsE [OF c(1,2)] by metis
  then show ?thesis using assms(3) [of t] c(3) by (simp add: ends_def emit_def console_ready_def)
qed

lemma ends_say [ends_rules]:
  "console_ready pf w \<Longrightarrow> (\<And>t. console_ready pf (w\<lparr>io := t\<rparr>) \<Longrightarrow> ends m Q (w\<lparr>io := t\<rparr>)) \<Longrightarrow> ends (say pf s m) Q w"
  unfolding say_def by (rule ends_emit [OF _ con.says_str])

lemma ends_say_hex [ends_rules]:
  "console_ready pf w \<Longrightarrow> (\<And>t. console_ready pf (w\<lparr>io := t\<rparr>) \<Longrightarrow> ends m Q (w\<lparr>io := t\<rparr>)) \<Longrightarrow> ends (say_hex pf v m) Q w"
  unfolding say_hex_def by (rule ends_emit [OF _ con.says_hex])

text \<open>The simplifier leaves texts and what follows them alone until they are reached.\<close>

lemma say_cong [cong]: "say pf s m = say pf s m" "say_hex pf v m = say_hex pf v m"
  by (rule refl)+

lemma ends_passed [ends_rules]:
  "console_ready pf w \<Longrightarrow> (\<And>t. console_ready pf (w\<lparr>io := t\<rparr>) \<Longrightarrow> ends m Q (w\<lparr>io := t\<rparr>)) \<Longrightarrow> ends (passed pf s m) Q w"
  unfolding passed_def by (rule ends_say)

lemma ends_fail [ends_rules]:
  "console_ready pf w \<Longrightarrow> (\<And>t. console_ready pf (w\<lparr>io := t\<rparr>) \<Longrightarrow> Q (Inr (False, x)) (w\<lparr>io := t\<rparr>)) \<Longrightarrow> ends (fail pf s x) Q w"
  unfolding fail_def by (rule ends_say) (simp_all add: ends_ret)

lemma passed_cong [cong]: "passed pf s m = passed pf s m" "fail pf s x = fail pf s x"
  by (rule refl)+

lemma call_simps [simp]: "call pf (Inl e) f = panic_handler pf e" "call pf (Inr x) f = f x"
  by (simp_all add: call_def)

lemma ends_panic_handler:
  assumes "console_ready pf w"
  shows "ends (panic_handler pf e) (\<lambda>r w'. r = Inl (Halt (AfterPanic e)) \<and> console_ready pf w' \<and> quietly w w') w"
proof (cases "panic_location pf e")
  case None
  then show ?thesis
    unfolding panic_handler_def using assms by (auto intro!: ends_rules)
next
  case (Some l)
  obtain name line where l: "l = (name, line)" by (cases l)
  show ?thesis
    unfolding panic_handler_def Some l option.case prod.case
    by (rule ends_rules assms ends_emit [OF _ con.says_str] | assumption | simp)+
qed

end
