(* ===== verification/Frame_Test.thy ===== *)
theory Frame_Test
  imports Boot_Monad Frame_Allocator_Props
begin

unbundle bit_operations_syntax

text \<open>
  The boot self-test of the frame allocator (\<open>run_frame_allocator_boot_self_test\<close> in \<open>main.rs\<close>):
  it takes sixteen frames, compares them, and gives them back.
\<close>

section \<open>The test\<close>

definition TEST_COUNT :: nat where
  "TEST_COUNT = 16"

text \<open>The dash in messages, by its UTF-8 bytes.\<close>

definition dash :: string where
  "dash = [CHR 0xE2, CHR 0x80, CHR 0x94]"

text \<open>The loop that fills the slots: \<open>None\<close> if a slot could not be filled.\<close>

primrec fill_slots :: "nat \<Rightarrow> frame_allocator \<Rightarrow> (u64 list option \<times> frame_allocator) exec" where
  "fill_slots 0 a = Inr (Some [], a)"
| "fill_slots (Suc n) a = bindE (allocate a) (\<lambda>(r, a).
     case r of
       None \<Rightarrow> Inr (None, a)
     | Some addr \<Rightarrow> bindE (fill_slots n a) (\<lambda>(rs, a). Inr (map_option ((#) (phys_as_u64 addr)) rs, a)))"

text \<open>The comparison of all pairs.\<close>

definition same_twice :: "u64 list \<Rightarrow> bool" where
  "same_twice xs = list_ex (\<lambda>i. list_ex (\<lambda>j. xs ! i = xs ! j) [i + 1..<length xs]) [0..<length xs]"

text \<open>The loop that frees the slots: false if a frame is refused.\<close>

primrec free_slots :: "u64 list \<Rightarrow> frame_allocator \<Rightarrow> (bool \<times> frame_allocator) exec" where
  "free_slots [] a = Inr (True, a)"
| "free_slots (x # xs) a = bindE (deallocate a (PhysAddr x)) (\<lambda>(r, a).
     case r of Inl _ \<Rightarrow> Inr (False, a) | Inr _ \<Rightarrow> free_slots xs a)"

definition run_frame_allocator_boot_self_test :: "platform \<Rightarrow> frame_allocator \<Rightarrow> (bool \<times> frame_allocator) boot" where
  "run_frame_allocator_boot_self_test pf a =
     say pf (CRLF @ ''Running frame allocator boot self-test...'' @ CRLF) (
     let free_before = frames_free a in
     if free_before = 0
     then fail pf (''zero free frames reported '' @ dash @ '' memory map parsing likely broken.'') a
     else
       say pf ''  [OK] Free frames after init: 0x'' (say_hex pf free_before (say pf CRLF (
       call pf (fill_slots TEST_COUNT a) (\<lambda>(slots, a).
       case slots of
         None \<Rightarrow> fail pf ''allocate() returned None unexpectedly early.'' a
       | Some allocated \<Rightarrow>
         if same_twice allocated then fail pf ''allocate() returned the same frame twice.'' a
         else passed pf ''16 allocations, all frames distinct.'' (
           if frames_free a \<noteq> free_before - of_nat TEST_COUNT
           then fail pf ''frames_free() bookkeeping incorrect after allocation.'' a
           else passed pf ''frames_free() bookkeeping correct after allocation.'' (
             call pf (free_slots allocated a) (\<lambda>(ok, a).
             if \<not> ok then fail pf ''deallocate() rejected a frame this test just allocated.'' a
             else if frames_free a \<noteq> free_before
             then fail pf ''frames_free() did not return to its pre-test value after freeing everything.'' a
             else passed pf ''All 16 frames freed; frames_free() returned to its original value.'' (
               say pf (''Frame allocator boot self-test: ALL CHECKS PASSED.'' @ CRLF) (ret (True, a)))))))))))"

section \<open>The loops\<close>

definition frame_at :: "u64 \<Rightarrow> nat" where
  "frame_at x = unat (frame_number (PhysAddr x))"

lemma fill_slots_spec:
  assumes "fa_inv a"
  obtains (short) a' where "fill_slots n a = Inr (None, a')" "card (free_frames a) < n" "fa_inv a'" "same_pool a a'"
  | (full) xs a' where "fill_slots n a = Inr (Some xs, a')" "n \<le> card (free_frames a)" "fa_inv a'" "same_pool a a'"
      "length xs = n" "distinct (List.map frame_at xs)" "frame_at ` set xs \<subseteq> free_frames a"
      "free_frames a' = free_frames a - frame_at ` set xs"
proof -
  have "(\<exists>a'. fill_slots n a = Inr (None, a') \<and> card (free_frames a) < n \<and> fa_inv a' \<and> same_pool a a')
    \<or> (\<exists>xs a'. fill_slots n a = Inr (Some xs, a') \<and> n \<le> card (free_frames a) \<and> fa_inv a' \<and> same_pool a a'
        \<and> length xs = n \<and> distinct (List.map frame_at xs) \<and> frame_at ` set xs \<subseteq> free_frames a
        \<and> free_frames a' = free_frames a - frame_at ` set xs)"
    using assms
  proof (induction n arbitrary: a)
    case 0
    then show ?case by (simp add: same_pool_def)
  next
    case (Suc n)
    show ?case
    proof (cases rule: fa.alloc_cases [OF Suc(2)])
      case (1 a')
      then show ?thesis using allocate_returns(3) [OF Suc(2) 1(1)] by simp
    next
      case (2 p a')
      let ?f = "unat (frame_number p)"
      have p: "frame_at (phys_as_u64 p) = ?f" by (simp add: frame_at_def)
      have pool: "same_pool a a'" using allocate_returns(3) [OF Suc(2) 2(1)] .
      have card: "card (free_frames a) = Suc (card (free_frames a'))"
        using card_Suc_Diff1 [OF finite_free_frames 2(5)] 2(6) by simp
      from Suc.IH [OF 2(2)] show ?thesis
      proof (elim disjE exE conjE)
        fix a''
        assume r: "fill_slots n a' = Inr (None, a'')" "card (free_frames a') < n" "fa_inv a''" "same_pool a' a''"
        have "fill_slots (Suc n) a = Inr (None, a'')" using 2(1) r(1) by simp
        then show ?thesis using card r(2,3) same_pool_trans [OF pool r(4)] by simp
      next
        fix xs a''
        assume r: "fill_slots n a' = Inr (Some xs, a'')" "n \<le> card (free_frames a')" "fa_inv a''"
          "same_pool a' a''" "length xs = n" "distinct (List.map frame_at xs)"
          "frame_at ` set xs \<subseteq> free_frames a'" "free_frames a'' = free_frames a' - frame_at ` set xs"
        have "fill_slots (Suc n) a = Inr (Some (phys_as_u64 p # xs), a'')" using 2(1) r(1) by simp
        moreover have "Suc n \<le> card (free_frames a)" using card r(2) by simp
        moreover have "distinct (List.map frame_at (phys_as_u64 p # xs))" using r(6,7) 2(6) by (auto simp: p)
        moreover have "frame_at ` set (phys_as_u64 p # xs) \<subseteq> free_frames a" using r(7) 2(5,6) by (auto simp: p)
        moreover have "free_frames a'' = free_frames a - frame_at ` set (phys_as_u64 p # xs)" using r(8) 2(6) by (auto simp: p)
        moreover have "length (phys_as_u64 p # xs) = Suc n" using r(5) by simp
        ultimately show ?thesis using r(3) same_pool_trans [OF pool r(4)] by blast
      qed
    qed
  qed
  then show thesis
  proof
    assume "\<exists>a'. fill_slots n a = Inr (None, a') \<and> card (free_frames a) < n \<and> fa_inv a' \<and> same_pool a a'"
    then show thesis by (elim exE conjE) (rule short)
  qed (elim exE conjE, rule full)
qed

lemma free_slots_spec:
  assumes "fa_inv a" and "distinct (List.map frame_at xs)" and "frame_at ` set xs \<inter> free_frames a = {}"
    and "\<And>x. x \<in> set xs \<Longrightarrow> frame_at x < unat (total_frames a)"
  obtains a' where "free_slots xs a = Inr (True, a')" and "fa_inv a'" and "same_pool a a'"
    and "free_frames a' = free_frames a \<union> frame_at ` set xs"
proof -
  have "\<exists>a'. free_slots xs a = Inr (True, a') \<and> fa_inv a' \<and> same_pool a a' \<and> free_frames a' = free_frames a \<union> frame_at ` set xs"
    using assms
  proof (induction xs arbitrary: a)
    case Nil
    then show ?case by (simp add: same_pool_def)
  next
    case (Cons x xs)
    have x: "frame_at x < unat (total_frames a)" "frame_at x \<notin> free_frames a" using Cons.prems by auto
    obtain a' where d: "deallocate a (PhysAddr x) = Inr (Inr (), a')" "fa_inv a'" "same_pool a a'"
      "free_frames a' = insert (frame_at x) (free_frames a)"
      using deallocate_Ok [OF Cons.prems(1), of "PhysAddr x"] x by (auto simp: frame_at_def)
    have "\<exists>a''. free_slots xs a' = Inr (True, a'') \<and> fa_inv a'' \<and> same_pool a' a''
        \<and> free_frames a'' = free_frames a' \<union> frame_at ` set xs"
      using Cons.prems d by (intro Cons.IH) (auto simp: same_pool_def)
    then show ?case using d same_pool_trans [OF d(3)] by auto
  qed
  then show thesis using that by blast
qed

lemma not_same_twice:
  assumes "distinct (List.map f xs)"
  shows "\<not> same_twice xs"
proof -
  have "distinct xs" using assms by (simp add: distinct_map)
  then show ?thesis by (auto simp: same_twice_def list_ex_iff nth_eq_iff_index_eq)
qed

lemma fa_inv_count: "fa_inv a \<Longrightarrow> unat (frames_free a) = card (free_frames a)"
  by (simp add: fa_inv_def)

text \<open>The test passes exactly if there are sixteen free frames, and then leaves the free frames as they were.\<close>

lemma frame_self_test:
  assumes inv: "fa_inv a" and con: "console_ready pf w"
  shows "ends (run_frame_allocator_boot_self_test pf a)
    (\<lambda>r w'. console_ready pf w' \<and> quietly w w' \<and> (\<exists>a'. r = Inr (16 \<le> card (free_frames a), a') \<and> fa_inv a' \<and> same_pool a a'
      \<and> (16 \<le> card (free_frames a) \<longrightarrow> free_frames a' = free_frames a))) w"
proof -
  have count: "unat (frames_free a) = card (free_frames a)" by (rule fa_inv_count [OF inv])
  have zero: "frames_free a = 0 \<longleftrightarrow> free_frames a = {}" using count by (auto simp: unat_eq_0 [symmetric])
  show ?thesis
  proof (cases rule: fill_slots_spec [OF inv, of TEST_COUNT])
    case (1 a')
    then have "\<not> 16 \<le> card (free_frames a)" by (simp add: TEST_COUNT_def)
    then show ?thesis
      unfolding run_frame_allocator_boot_self_test_def Let_def
      using 1 con inv by (auto intro!: ends_rules simp: same_pool_def zero)
  next
    case (2 xs a')
    have n: "16 \<le> card (free_frames a)" "frames_free a \<noteq> 0" using 2(2) zero by (auto simp: TEST_COUNT_def)
    have "card (frame_at ` set xs) = 16"
      using distinct_card [OF 2(6)] 2(5) by (simp add: TEST_COUNT_def)
    then have "card (free_frames a') = card (free_frames a) - 16"
      using 2(7,8) card_Diff_subset [of "frame_at ` set xs" "free_frames a"] by simp
    then have taken: "frames_free a' = frames_free a - 16"
      using fa_inv_count [OF 2(3)] count n(1) by (simp add: word_unat_eq_iff unat_sub_if')
    obtain a'' where f: "free_slots xs a' = Inr (True, a'')" "fa_inv a''" "same_pool a' a''"
      "free_frames a'' = free_frames a' \<union> frame_at ` set xs"
      using free_slots_spec [OF 2(3,6)] 2(4,7,8) by (auto simp: same_pool_def free_frames_def)
    have free: "free_frames a'' = free_frames a" using f(4) 2(7,8) by auto
    then have restored: "frames_free a'' = frames_free a"
      using fa_inv_count [OF f(2)] count by (simp add: word_unat_eq_iff)
    show ?thesis
      unfolding run_frame_allocator_boot_self_test_def Let_def
      using 2(1) n not_same_twice [OF 2(6)] taken f(1,2) free restored same_pool_trans [OF 2(4) f(3)] con
      by (auto intro!: ends_rules simp: TEST_COUNT_def)
  qed
qed

end
