(* ===== verification/Vmm_Test.thy ===== *)
theory Vmm_Test
  imports Frame_Test
begin

unbundle bit_operations_syntax

text \<open>
  The boot self-test of the virtual memory manager (\<open>run_vmm_boot_self_test\<close> in \<open>main.rs\<close>): it looks
  up its own code, maps a page, writes and reads through the mapping, and checks the flags, the
  translation and the refusals of \<open>map\<close> and \<open>unmap\<close>.
\<close>

section \<open>The test\<close>

definition TEST_VADDR :: u64 where
  "TEST_VADDR = 0xFFFF880000000000"

definition TEST_PATTERN :: u64 where
  "TEST_PATTERN = 0xDEADBEEFCAFEBABE"

text \<open>Check 1, on the kernel's own code.\<close>

definition code_in_range :: "boot_info \<Rightarrow> phys_addr \<Rightarrow> bool" where
  "code_in_range bi phys \<longleftrightarrow> kernel_physical_base bi \<le> phys_as_u64 phys
     \<and> phys_as_u64 phys < kernel_physical_base bi + kernel_size_bytes bi"

text \<open>Check 2: a pattern written through the new mapping and read again.\<close>

definition pattern_test :: "platform \<Rightarrow> frame_allocator \<Rightarrow> (bool \<times> frame_allocator) boot \<Rightarrow> (bool \<times> frame_allocator) boot" where
  "pattern_test pf a m = on_cpu (\<lambda>c.
     case write_volatile (write_protect pf) c TEST_VADDR TEST_PATTERN of
       Inl _ \<Rightarrow> stop EarlyFault
     | Inr c \<Rightarrow>
       (case read_volatile c TEST_VADDR of
          Inl _ \<Rightarrow> with_cpu c (stop EarlyFault)
        | Inr (readback, c) \<Rightarrow> with_cpu c (
          if readback \<noteq> TEST_PATTERN
          then fail pf ''read-back through the new mapping did not match what was written.'' a
          else passed pf ''Write-then-read-back through the new mapping round-tripped correctly.'' m)))"

text \<open>Checks 3a and 3: the flags and the frame.\<close>

definition mapping_test ::
    "platform \<Rightarrow> vmm \<Rightarrow> frame_allocator \<Rightarrow> phys_addr \<Rightarrow> (bool \<times> frame_allocator) boot \<Rightarrow> (bool \<times> frame_allocator) boot" where
  "mapping_test pf v a test_frame m = on_cpu (\<lambda>c.
     case flags_at v c (VirtAddr TEST_VADDR) of
       None \<Rightarrow> fail pf ''flags_at() found no mapping immediately after a successful map().'' a
     | Some flags \<Rightarrow>
       if \<not> (writable flags \<and> \<not> no_execute flags)
       then fail pf ''stored permission flags do not match what map() was asked for.'' a
       else passed pf ''Stored permission flags match exactly what map() was asked for.'' (
         if translate v c (VirtAddr TEST_VADDR) \<noteq> Some test_frame
         then fail pf ''translate() did not report the frame map() was given.'' a
         else passed pf ''translate() reports the correct physical frame for the new mapping.'' m))"

text \<open>Check 4: mapping the page a second time.\<close>

definition remap_test ::
    "platform \<Rightarrow> vmm \<Rightarrow> frame_allocator \<Rightarrow> (frame_allocator \<Rightarrow> (bool \<times> frame_allocator) boot) \<Rightarrow> (bool \<times> frame_allocator) boot" where
  "remap_test pf v a m =
     call pf (allocate a) (\<lambda>(second_frame, a).
       case second_frame of
         None \<Rightarrow> passed pf ''map() correctly rejects an already-mapped address.'' (m a)
       | Some sf \<Rightarrow> on_cpu (\<lambda>c.
         call pf (vmm_map v c a (VirtAddr TEST_VADDR) sf read_write) (\<lambda>(result, c, a). with_cpu c (
         call pf (deallocate a sf) (\<lambda>(_, a).
           if \<not> isl result then fail pf ''map() allowed mapping an already-mapped address.'' a
           else passed pf ''map() correctly rejects an already-mapped address.'' (m a))))))"

text \<open>Checks 5 and 6: unmapping, and unmapping again.\<close>

definition unmap_test ::
    "platform \<Rightarrow> vmm \<Rightarrow> phys_addr \<Rightarrow> (frame_allocator \<Rightarrow> (bool \<times> frame_allocator) boot) \<Rightarrow> frame_allocator
      \<Rightarrow> (bool \<times> frame_allocator) boot" where
  "unmap_test pf v test_frame m a = on_cpu (\<lambda>c.
     case vmm_unmap v c (VirtAddr TEST_VADDR) of (r, c) \<Rightarrow> with_cpu c (
       if r \<noteq> Inr test_frame
       then fail pf ''unmap() did not return the originally-mapped frame.'' a
       else if translate v c (VirtAddr TEST_VADDR) \<noteq> None
       then fail pf ''translate() still resolves the address after unmap().'' a
       else passed pf ''unmap() succeeded; translate() now correctly reports no mapping.'' (
         case vmm_unmap v c (VirtAddr TEST_VADDR) of (r, c) \<Rightarrow> with_cpu c (
           if \<not> isl r
           then fail pf ''unmap() succeeded on an address that was already unmapped.'' a
           else passed pf ''unmap() correctly rejects an already-unmapped address.'' (m a)))))"

definition return_frame :: "platform \<Rightarrow> phys_addr \<Rightarrow> frame_allocator \<Rightarrow> (bool \<times> frame_allocator) boot" where
  "return_frame pf test_frame a =
     call pf (deallocate a test_frame) (\<lambda>(r, a).
       if isl r then fail pf ''could not free the test frame back to the allocator after unmap().'' a
       else say pf (''  NOTE: WRITABLE/NO_EXECUTE flags are set correctly (see mm/page_table_entry.rs'' @ CRLF)
        (say pf (''        unit tests) but hardware ENFORCEMENT of them is not verified here '' @ dash @ CRLF)
        (say pf (''        that requires a page-fault handler, which does not exist yet.'' @ CRLF)
        (say pf (''Virtual memory manager boot self-test: ALL CHECKS PASSED.'' @ CRLF) (ret (True, a))))))"

definition run_vmm_boot_self_test :: "platform \<Rightarrow> vmm \<Rightarrow> frame_allocator \<Rightarrow> boot_info \<Rightarrow> (bool \<times> frame_allocator) boot" where
  "run_vmm_boot_self_test pf v a bi =
     say pf (CRLF @ ''Running virtual memory manager boot self-test...'' @ CRLF) (on_cpu (\<lambda>c.
     case translate v c (VirtAddr (self_fn_vaddr pf)) of
       None \<Rightarrow> fail pf ''translate() could not resolve a kernel code address (huge-page walk broken).'' a
     | Some phys \<Rightarrow>
       if \<not> code_in_range bi phys
       then fail pf (''translate() of kernel code address landed outside the kernel'' @ [CHR 0x27] @
         ''s own physical image.'') a
       else passed pf (''translate() correctly resolves an address inside the bootloader'' @ [CHR 0x27] @
         ''s existing higher-half (2 MiB huge-page) kernel mapping.'') (
         call pf (allocate a) (\<lambda>(f, a).
         case f of
           None \<Rightarrow> fail pf ''frame allocator exhausted before the VMM self-test could run.'' a
         | Some test_frame \<Rightarrow>
           call pf (vmm_map v c a (VirtAddr TEST_VADDR) test_frame read_write) (\<lambda>(r, c, a). with_cpu c (
           if isl r then fail pf ''map() of a fresh page in the kernel heap region failed.'' a
           else passed pf ''map() succeeded for a fresh page in the (previously unmapped) kernel heap region.'' (
             pattern_test pf a (
             mapping_test pf v a test_frame (
             remap_test pf v a (unmap_test pf v test_frame (return_frame pf test_frame)))))))))))"

section \<open>The operations of the test\<close>

text \<open>\<open>map\<close> on a mapped page changes nothing.\<close>

lemma descend_existing:
  "table_at (mem c) t is = Some u \<Longrightarrow> descend c a t is = Inr (Inr u, c, a)"
  by (induction "is" arbitrary: t)
    (auto simp: get_or_create_table_def table_access split: if_splits)

lemma map_mapped:
  assumes "walk (mem c) (pml4_phys v) (indices virt) = Leaf e" and "is_page_aligned virt" and "is_frame_aligned phys"
  shows "vmm_map v c a virt phys flags = Inr (Inl AlreadyMapped, c, a)"
proof -
  obtain u where u: "table_at (mem c) (pml4_phys v) (table_path virt) = Some u" "low_table u"
    "entry_at (mem c) u (pt_index virt) = e" "is_present e"
    using walk_Leaf [of "mem c" "pml4_phys v" "table_path virt" "pt_index virt" e] assms(1) by auto
  then show ?thesis using assms(2,3) by (simp add: map_descend descend_existing)
qed

text \<open>
  From the state \<open>s0\<close> the test page has been mapped to the frame \<open>p\<close>, and the frames \<open>T\<close> have been
  taken for tables.
\<close>

definition test_mapped :: "vmm \<Rightarrow> cpu \<times> frame_allocator \<Rightarrow> phys_addr \<Rightarrow> nat set \<Rightarrow> cpu \<times> frame_allocator \<Rightarrow> bool" where
  "test_mapped v s0 p T s \<longleftrightarrow> vm_state_inv v s \<and> tlb_coherent v (fst s) \<and> hw_vmm (fst s) = v
     \<and> walks_updated (pml4_phys v) (mem (fst s0)) (mem (fst s)) (indices (VirtAddr TEST_VADDR)) (Leaf (new_leaf p read_write))
     \<and> same_pool (snd s0) (snd s) \<and> entry_holds p \<and> frame_of p \<in> free_frames (snd s0)
     \<and> free_frames (snd s) = free_frames (snd s0) - insert (frame_of p) T
     \<and> T \<subseteq> low_free (snd s0) - {frame_of p} \<and> card T \<le> 3
     \<and> tables_from (pml4_phys v) (mem (fst s0)) T (mem (fst s))"

text \<open>And after it has been unmapped again.\<close>

definition test_done :: "vmm \<Rightarrow> cpu \<times> frame_allocator \<Rightarrow> cpu \<times> frame_allocator \<Rightarrow> bool" where
  "test_done v s0 s \<longleftrightarrow> vm_state_inv v s \<and> tlb_coherent v (fst s) \<and> hw_vmm (fst s) = v
     \<and> same_walks (pml4_phys v) (mem (fst s0)) (mem (fst s)) \<and> same_pool (snd s0) (snd s)
     \<and> free_frames (snd s) \<subseteq> free_frames (snd s0)
     \<and> free_frames (snd s0) - free_frames (snd s) \<subseteq> low_free (snd s0)
     \<and> card (free_frames (snd s0) - free_frames (snd s)) \<le> 3"

lemma TEST_VADDR_simps [simp]:
  "is_page_aligned (VirtAddr TEST_VADDR)" "canonical TEST_VADDR" "TEST_VADDR mod FRAME_SIZE = 0"
  "page_offset (VirtAddr TEST_VADDR) = 0"
  by (simp_all add: TEST_VADDR_def is_page_aligned_def FRAME_SIZE_def canonical_def page_offset_def)

lemma hw_vmm_mem [simp]: "hw_vmm (c\<lparr>mem := m\<rparr>) = hw_vmm c" "hw_vmm (invlpg c x) = hw_vmm c"
  by (simp_all add: hw_vmm_def)

lemma test_map:
  assumes inv: "vm_state_inv v (c, a)" and coh: "tlb_coherent v c" and hw: "hw_vmm c = v"
    and walk: "walk (mem c) (pml4_phys v) (indices (VirtAddr TEST_VADDR)) = Missing" and low: "4 \<le> card (low_free a)"
  obtains p a1 c' a' T where "allocate a = Inr (Some p, a1)"
    and "vmm_map v c a1 (VirtAddr TEST_VADDR) p read_write = Inr (Inr (), c', a')" and "test_mapped v (c, a) p T (c', a')"
proof -
  let ?root = "pml4_phys v" and ?virt = "VirtAddr TEST_VADDR"
  have fa: "fa_inv a" using vm_invD(1) inv by auto
  obtain p a1 c' a' where m: "allocate a = Inr (Some p, a1)" "vmm_map v c a1 ?virt p read_write = Inr (Inr (), c', a')"
    using map_round [OF inv TEST_VADDR_simps(1) walk low, of read_write] by metis
  note ret = allocate_returns [OF fa m(1)]
  have p: "is_frame_aligned p" "frame_of p \<in> free_frames a" "free_frames a1 = free_frames a - {frame_of p}"
    using fa.alloc_Some [OF fa m(1)] by (simp_all add: frame_of_def)
  have hold: "entry_holds p" by (rule allocated_entry_holds [OF fa p(1,2)])
  have inv0: "vm_inv ?root (mem c) a" using inv by simp
  have inv1: "vm_inv ?root (mem c) a1" using vm_inv_smaller [OF inv0 ret(2)] p(3) by simp
  obtain c1 where s: "grown ?root (c, a1) (c1, a')" "vm_inv ?root (mem c') a'" "c' = invlpg (c\<lparr>mem := mem c'\<rparr>) TEST_VADDR"
    "walks_updated ?root (mem c) (mem c') (indices ?virt) (Leaf (new_leaf p read_write))"
    "card (low_free a') + tables_missing (mem c) ?root (table_path ?virt) = card (low_free a1)"
    "tables_from ?root (mem c) (free_frames a1 - free_frames a') (mem c')"
    using m(2) by (cases rule: map_spec [OF inv1, of ?virt p read_write]) auto
  let ?T = "free_frames a1 - free_frames a'"
  have g: "free_frames a' \<subseteq> free_frames a1" "?T \<subseteq> low_free a1" "same_pool a1 a'" using s(1) by (simp_all add: grown_def)
  have "?T = low_free a1 - low_free a'" using g(2) by (auto simp: low_free_def)
  moreover have "low_free a' \<subseteq> low_free a1" using g(1) by (auto simp: low_free_def)
  ultimately have "card ?T = card (low_free a1) - card (low_free a')" by (simp add: card_Diff_subset)
  then have card: "card ?T \<le> 3"
    using s(5) tables_missing_length [of "mem c" ?root "table_path ?virt"] by simp
  have "tlb_coherent v c'"
    using tlb_coherent_update [OF coh inv0 s(2,4), unfolded virt_addr.sel, OF s(3)] by simp
  moreover have "hw_vmm c' = v" by (subst s(3)) (simp add: hw)
  moreover have "free_frames a' = free_frames a - insert (frame_of p) ?T" using g(1) p(3) by auto
  moreover have "?T \<subseteq> low_free a - {frame_of p}" using g(2) p(3) by (auto simp: low_free_def)
  ultimately have "test_mapped v (c, a) p ?T (c', a')"
    using s(2,4,6) p(2) hold card same_pool_trans [OF ret(3) g(3)] by (simp add: test_mapped_def)
  then show thesis by (rule that [OF m])
qed

lemma test_mapped_views:
  assumes "test_mapped v s0 p T (c, a)" and "vm_state_inv v s0"
  shows "walk (mem c) (pml4_phys v) (indices (VirtAddr TEST_VADDR)) = Leaf (new_leaf p read_write)"
    and "translate v c (VirtAddr TEST_VADDR) = Some p"
    and "flags_at v c (VirtAddr TEST_VADDR) = Some \<lparr>writable = True, no_execute = False\<rparr>"
proof -
  have inv: "vm_inv (pml4_phys v) (mem c) a" and hold: "entry_holds p"
    using assms(1) by (simp_all add: test_mapped_def)
  show w: "walk (mem c) (pml4_phys v) (indices (VirtAddr TEST_VADDR)) = Leaf (new_leaf p read_write)"
    using assms(1) by (simp add: test_mapped_def walks_updated_def)
  show "translate v c (VirtAddr TEST_VADDR) = Some p"
    using w resolve_new_leaf [OF hold] translate_walk [OF vm_invD(2) [OF inv]] by simp
  show "flags_at v c (VirtAddr TEST_VADDR) = Some \<lparr>writable = True, no_execute = False\<rparr>"
    using w flags_at_walk [OF vm_invD(2) [OF inv]] by (simp add: read_write_def)
qed

text \<open>The page's frame holds no table.\<close>

lemma test_frame_no_table:
  assumes "test_mapped v s0 p T (c, a)" and "vm_state_inv v s0"
    and "valid_path q" "length q \<le> 3" "low_table u" "table_at (mem c) (pml4_phys v) q = Some u"
  shows "frame_of u \<noteq> frame_of p"
proof -
  consider "table_at (mem (fst s0)) (pml4_phys v) q = Some u" | "frame_of u \<in> T"
    using assms(1,3,4,6) unfolding test_mapped_def tables_from_def frame_of_def by auto
  then show ?thesis
  proof cases
    case 1
    then show ?thesis using vm_invD(3) [OF assms(2,3,4,5)] assms(1) by (auto simp: test_mapped_def frame_of_def)
  qed (use assms(1) in \<open>auto simp: test_mapped_def\<close>)
qed

text \<open>The volatile accesses reach the frame, and leave the tables alone.\<close>

lemma test_fill_tlb:
  assumes "test_mapped v s0 p T (c, a)"
  shows "test_mapped v s0 p T (fill_tlb c x, a)"
proof -
  have "tlb_coherent v (fill_tlb c x)" using assms by (intro fill_tlb_coherent) (auto simp: test_mapped_def)
  then show ?thesis using assms by (simp add: test_mapped_def)
qed

lemma test_store:
  assumes t: "test_mapped v s0 p T (c, a)" and s0: "vm_state_inv v s0"
  shows "test_mapped v s0 p T (c\<lparr>mem := (mem c)(phys_as_u64 p := x)\<rparr>, a)"
proof -
  let ?m = "(mem c)(phys_as_u64 p := x)" and ?root = "pml4_phys v"
  have inv: "vm_inv ?root (mem c) a" using t by (simp add: test_mapped_def)
  have low: "low_table ?root"
    using test_mapped_views(1) [OF t s0] walk_Leaf [of "mem c" ?root "table_path (VirtAddr TEST_VADDR)"]
      table_at_low [of "mem c" ?root "table_path (VirtAddr TEST_VADDR)"]
    by (metis table_path_simps(2,3) length_0_conv zero_neq_numeral)
  have no: "unat (frame_number u) \<noteq> unat (phys_as_u64 p) div 4096"
    if "valid_path q" "length q \<le> 3" "low_table u" "table_at (mem c) ?root q = Some u" for q u
    using test_frame_no_table [OF t s0 that] by (simp add: frame_of_def unat_frame_number)
  note d = data_write [OF inv low no, where w = x]
  have "translate v (c\<lparr>mem := ?m\<rparr>) w = translate v c w" for w
    using translate_mem_cong(1) [OF inv, of "c\<lparr>mem := ?m\<rparr>" a w] d by simp
  then have "tlb_coherent v (c\<lparr>mem := ?m\<rparr>)" using t by (simp add: test_mapped_def tlb_coherent_def)
  moreover have "walks_updated ?root (mem (fst s0)) ?m (indices (VirtAddr TEST_VADDR)) (Leaf (new_leaf p read_write))"
    using t d(2) by (simp add: test_mapped_def walks_updated_def same_walks_def)
  moreover have "tables_from ?root (mem (fst s0)) T ?m"
    using t by (intro tables_from_trans [OF _ d(3)]) (auto simp: test_mapped_def)
  ultimately show ?thesis using t d(1) by (simp add: test_mapped_def)
qed

lemma test_write:
  assumes t: "test_mapped v s0 p T (c, a)" and s0: "vm_state_inv v s0"
  obtains c' where "write_volatile wp c TEST_VADDR x = Inr c'" and "test_mapped v s0 p T (c', a)"
    and "mem c' (phys_as_u64 p) = x"
proof -
  have c: "tlb_coherent v c" "v = hw_vmm c" using t by (auto simp: test_mapped_def)
  have "hw_translate c TEST_VADDR = Some p"
    using hw_translate_coherent [OF c] test_mapped_views(2) [OF t s0] by simp
  moreover have "\<not> read_only c TEST_VADDR" using test_mapped_views(3) [OF t s0] c(2) by (simp add: read_only_def)
  ultimately show thesis
    using that test_store [OF test_fill_tlb [OF t] s0, of TEST_VADDR x] by (simp add: write_volatile_def Let_def)
qed

lemma test_read:
  assumes t: "test_mapped v s0 p T (c, a)" and s0: "vm_state_inv v s0"
  obtains c' where "read_volatile c TEST_VADDR = Inr (mem c (phys_as_u64 p), c')" and "test_mapped v s0 p T (c', a)"
proof -
  have c: "tlb_coherent v c" "v = hw_vmm c" using t by (auto simp: test_mapped_def)
  have "hw_translate c TEST_VADDR = Some p"
    using hw_translate_coherent [OF c] test_mapped_views(2) [OF t s0] by simp
  then show thesis using that test_fill_tlb [OF t, of TEST_VADDR] by (simp add: read_volatile_def)
qed

text \<open>A second frame is refused and goes back.\<close>

lemma test_remap:
  assumes t: "test_mapped v s0 p T (c, a)" and s0: "vm_state_inv v s0"
  obtains (none) a' where "allocate a = Inr (None, a')" "test_mapped v s0 p T (c, a')"
  | (some) sf a' a'' where "allocate a = Inr (Some sf, a')"
      "vmm_map v c a' (VirtAddr TEST_VADDR) sf read_write = Inr (Inl AlreadyMapped, c, a')"
      "deallocate a' sf = Inr (Inr (), a'')" "test_mapped v s0 p T (c, a'')"
proof -
  have inv: "vm_inv (pml4_phys v) (mem c) a" using t by (simp add: test_mapped_def)
  note fa = vm_invD(1) [OF inv]
  have keep: "test_mapped v s0 p T (c, b)" if "fa_inv b" "same_pool a b" "free_frames b = free_frames a" for b
    using t that vm_inv_smaller [OF inv that(1)] by (auto simp: test_mapped_def intro: same_pool_trans)
  show thesis
  proof (cases rule: fa.alloc_cases [OF fa])
    case (1 a')
    then show thesis using none keep allocate_returns(3) [OF fa 1(1)] by simp
  next
    case (2 sf a')
    have pool: "same_pool a a'" using allocate_returns(3) [OF fa 2(1)] .
    have "unat (frame_number sf) < unat (total_frames a')"
      using 2(5) pool by (auto simp: free_frames_def same_pool_def)
    then obtain a'' where d: "deallocate a' sf = Inr (Inr (), a'')" "fa_inv a''" "same_pool a' a''"
      "free_frames a'' = insert (unat (frame_number sf)) (free_frames a')"
      using deallocate_Ok [OF 2(2), of sf] 2(6) by auto
    have "free_frames a'' = free_frames a" using d(4) 2(5,6) by auto
    then show thesis
      using some [OF 2(1) map_mapped [OF test_mapped_views(1) [OF t s0]] d(1)] 2(3) keep d(2) same_pool_trans [OF pool d(3)]
      by simp
  qed
qed

text \<open>Unmapping, and returning the frame.\<close>

lemma test_unmap:
  assumes t: "test_mapped v s0 p T (c, a)" and s0: "vm_state_inv v s0"
    and walk: "walk (mem (fst s0)) (pml4_phys v) (indices (VirtAddr TEST_VADDR)) = Missing"
  obtains c' a' where "vmm_unmap v c (VirtAddr TEST_VADDR) = (Inr p, c')" and "translate v c' (VirtAddr TEST_VADDR) = None"
    and "vmm_unmap v c' (VirtAddr TEST_VADDR) = (Inl NotMapped, c')"
    and "deallocate a p = Inr (Inr (), a')" and "test_done v s0 (c', a')"
proof -
  let ?root = "pml4_phys v" and ?virt = "VirtAddr TEST_VADDR"
  have inv: "vm_inv ?root (mem c) a" and hold: "entry_holds p" and coh: "tlb_coherent v c"
    using t by (simp_all add: test_mapped_def)
  note fa = vm_invD(1) [OF inv]
  note leaf = test_mapped_views(1) [OF t s0]
  obtain c' where c': "vmm_unmap v c ?virt = (Inr p, c')" "c' = invlpg (c\<lparr>mem := mem c'\<rparr>) TEST_VADDR"
    "vm_inv ?root (mem c') a" "walks_updated ?root (mem c) (mem c') (indices ?virt) Missing"
    "tables_from ?root (mem c) {} (mem c')"
    using leaf entry_addr_of_new [OF hold]
    by (cases rule: unmap_spec [OF inv, of ?virt]) (auto simp: unmap_refused_def split: unmap_error.splits)
  have gone: "walk (mem c') ?root (indices ?virt) = Missing" using c'(4) by (simp add: walks_updated_def)
  then have u: "vmm_unmap v c' ?virt = (Inl NotMapped, c')" "translate v c' ?virt = None"
    using unmap_walk [OF vm_invD(2) [OF c'(3)], of ?virt] translate_walk [OF vm_invD(2) [OF c'(3)]] by simp_all
  have lost: "free_frames a = free_frames (snd s0) - insert (frame_of p) T" "frame_of p \<in> free_frames (snd s0)"
    "same_pool (snd s0) a" "T \<subseteq> low_free (snd s0) - {frame_of p}" "card T \<le> 3" "hw_vmm c = v"
    using t by (simp_all add: test_mapped_def)
  then have "unat (frame_number p) < unat (total_frames a)" "unat (frame_number p) \<notin> free_frames a"
    by (auto simp: free_frames_def same_pool_def frame_of_def)
  then obtain a' where a': "deallocate a p = Inr (Inr (), a')" "fa_inv a'" "same_pool a a'"
    "free_frames a' = insert (frame_of p) (free_frames a)"
    using deallocate_Ok [OF fa, of p] by (auto simp: frame_of_def)
  have "frame_of u \<notin> free_frames a'"
    if q: "valid_path q" "length q \<le> 3" "low_table u" "table_at (mem c') ?root q = Some u" for q u
  proof -
    have "table_at (mem c) ?root q = Some u" using c'(5) q by (auto simp: tables_from_def)
    then show ?thesis
      using test_frame_no_table [OF t s0 q(1-3)] vm_invD(3) [OF inv q(1-3)] a'(4) by (simp add: frame_of_def)
  qed
  then have "vm_inv ?root (mem c') a'" using vm_invD(2) [OF c'(3)] a'(2) by (auto simp: vm_inv_def frame_of_def)
  moreover have "tlb_coherent v c'"
    using tlb_coherent_update [OF coh inv c'(3,4), unfolded virt_addr.sel, OF c'(2)] by simp
  moreover have "hw_vmm c' = v" by (subst c'(2)) (simp add: lost(6))
  moreover have "same_walks ?root (mem (fst s0)) (mem c')"
    using t walk c'(4) by (auto simp: test_mapped_def same_walks_def walks_updated_def)
  moreover have "free_frames a' = free_frames (snd s0) - T" using a'(4) lost(1,2,4) by auto
  moreover have "free_frames (snd s0) - free_frames a' = T" using calculation(5) lost(4) by (auto simp: low_free_def)
  ultimately have "test_done v s0 (c', a')"
    using lost(4,5) same_pool_trans [OF lost(3) a'(3)] by (auto simp: test_done_def)
  then show thesis using that c'(1) u a'(1) by blast
qed

section \<open>The outcome\<close>

lemma vmm_self_test:
  assumes inv: "vm_inv (pml4_phys v) (mem c) a" and coh: "tlb_coherent v c" and hw: "v = hw_vmm c"
    and walk: "walk (mem c) (pml4_phys v) (indices (VirtAddr TEST_VADDR)) = Missing" and low: "4 \<le> card (low_free a)"
    and self: "translate v c (VirtAddr (self_fn_vaddr pf)) = Some phys" "code_in_range bi phys"
    and con: "console_ready pf w" and cpu: "the_cpu w = c"
  shows "ends (run_vmm_boot_self_test pf v a bi)
    (\<lambda>r w'. console_ready pf w' \<and> (\<exists>c' a'. r = Inr (True, a') \<and> quietly (set_cpu c' w) w' \<and> test_done v (c, a) (c', a'))) w"
proof -
  have s0: "vm_state_inv v (c, a)" using inv by simp
  obtain p a1 c1 a2 T where m: "allocate a = Inr (Some p, a1)"
    "vmm_map v c a1 (VirtAddr TEST_VADDR) p read_write = Inr (Inr (), c1, a2)" "test_mapped v (c, a) p T (c1, a2)"
    using test_map [OF s0 coh _ walk low] hw by metis
  obtain c2 where c2: "write_volatile (write_protect pf) c1 TEST_VADDR TEST_PATTERN = Inr c2"
    "test_mapped v (c, a) p T (c2, a2)" "mem c2 (phys_as_u64 p) = TEST_PATTERN" by (rule test_write [OF m(3) s0])
  obtain c3 where c3: "read_volatile c2 TEST_VADDR = Inr (TEST_PATTERN, c3)" "test_mapped v (c, a) p T (c3, a2)"
    using test_read [OF c2(2) s0] c2(3) by metis
  note views = test_mapped_views [OF c3(2) s0]
  let ?Q = "\<lambda>r w'. console_ready pf w' \<and> (\<exists>c' a'. r = Inr (True, a') \<and> quietly (set_cpu c' w) w' \<and> test_done v (c, a) (c', a'))"
  have tail: "ends (unmap_test pf v p (return_frame pf p) b) ?Q (set_cpu c3 (w\<lparr>io := t\<rparr>))"
    if b: "test_mapped v (c, a) p T (c3, b)" and t: "console_ready pf (w\<lparr>io := t\<rparr>)" for b t
  proof -
    obtain c4 b' where u: "vmm_unmap v c3 (VirtAddr TEST_VADDR) = (Inr p, c4)" "translate v c4 (VirtAddr TEST_VADDR) = None"
      "vmm_unmap v c4 (VirtAddr TEST_VADDR) = (Inl NotMapped, c4)" "deallocate b p = Inr (Inr (), b')"
      "test_done v (c, a) (c4, b')" by (rule test_unmap [OF b s0]) (use walk in simp)
    show ?thesis
      unfolding unmap_test_def return_frame_def by (rule ends_rules | simp add: u t)+
  qed
  have remap: "ends (remap_test pf v a2 (unmap_test pf v p (return_frame pf p))) ?Q (set_cpu c3 (w\<lparr>io := t\<rparr>))"
    if t: "console_ready pf (w\<lparr>io := t\<rparr>)" for t
  proof (cases rule: test_remap [OF c3(2) s0])
    case (1 a')
    show ?thesis unfolding remap_test_def by (rule ends_rules | simp add: 1(1) t tail [OF 1(2)])+
  next
    case (2 sf a' a'')
    show ?thesis unfolding remap_test_def by (rule ends_rules | simp add: 2(1-3) t tail [OF 2(4)])+
  qed
  have accesses: "ends (pattern_test pf a2 (mapping_test pf v a2 p (remap_test pf v a2 (unmap_test pf v p (return_frame pf p)))))
      ?Q (set_cpu c1 (w\<lparr>io := t\<rparr>))" if t: "console_ready pf (w\<lparr>io := t\<rparr>)" for t
    unfolding pattern_test_def mapping_test_def
    by (rule ends_rules | simp add: t c2(1) c3(1) views remap)+
  show ?thesis
    unfolding run_vmm_boot_self_test_def
    by (rule ends_rules | simp add: con cpu self m(1,2) accesses)+
qed

end
