(* ===== verification/Heap_Words.thy ===== *)
theory Heap_Words
  imports Kernel_Heap
begin

unbundle bit_operations_syntax

text \<open>
  Arrays in heap memory. The memory is a store of aligned words; elements of one, four or eight bytes
  are parts of a word. The lemmas say that elements of an array are independent of one another and
  that copying bytes copies elements.
\<close>

section \<open>Elements in words\<close>

definition heap_load :: "nat \<Rightarrow> qmem \<Rightarrow> u64 \<Rightarrow> u64" where
  "heap_load sz m x = take_bit (8 * sz) (drop_bit (8 * unat (x mod 8)) (m (x - x mod 8)))"

definition heap_store :: "nat \<Rightarrow> qmem \<Rightarrow> u64 \<Rightarrow> u64 \<Rightarrow> qmem" where
  "heap_store sz m x val =
     (let w = x - x mod 8; s = 8 * unat (x mod 8)
      in m(w := (m w AND NOT (push_bit s (mask (8 * sz)))) OR push_bit s (take_bit (8 * sz) val)))"

definition elem :: "u64 \<Rightarrow> nat \<Rightarrow> nat \<Rightarrow> u64" where
  "elem p sz i = p + of_nat (i * sz)"

text \<open>An array of \<open>n\<close> elements that starts at a word and does not wrap around.\<close>

definition array_ok :: "u64 \<Rightarrow> nat \<Rightarrow> nat \<Rightarrow> bool" where
  "array_ok p sz n \<longleftrightarrow> sz \<in> {1, 4, 8} \<and> unat p mod 8 = 0 \<and> unat p + n * sz \<le> 2 ^ 64"

lemma elem_place:
  assumes "array_ok p sz n" and "i < n"
  shows "unat (elem p sz i) = unat p + i * sz"
    and "unat (elem p sz i mod 8) = i * sz mod 8"
    and "unat (elem p sz i - elem p sz i mod 8) = unat p + i * sz div 8 * 8"
proof -
  have sz: "sz \<in> {1, 4, 8}" "unat p mod 8 = 0" and "i * sz + sz \<le> n * sz" "unat p + n * sz \<le> 2 ^ 64"
    using assms mult_le_mono1 [of "Suc i" n sz] by (auto simp: array_ok_def)
  then have b: "unat p + i * sz < 2 ^ 64" by auto
  then have "unat (of_nat (i * sz) :: u64) = i * sz" by (simp add: unat_of_nat del: of_nat_mult)
  then show u: "unat (elem p sz i) = unat p + i * sz" using b by (simp add: elem_def unat_add_no_wrap)
  show m: "unat (elem p sz i mod 8) = i * sz mod 8" using sz(2) by (simp add: unat_mod u mod_add_left_eq [symmetric])
  have "unat (elem p sz i - elem p sz i mod 8) = unat (elem p sz i) - unat (elem p sz i mod 8)"
    by (rule unat_sub) (simp add: word_le_nat_alt unat_mod)
  also have "\<dots> = unat p + i * sz div 8 * 8" using u m by (simp add: minus_mod_eq_div_mult [symmetric])
  finally show "unat (elem p sz i - elem p sz i mod 8) = unat p + i * sz div 8 * 8" .
qed

lemma elem_fits:
  assumes "sz \<in> {1, 4, 8 :: nat}"
  shows "i * sz mod 8 + sz \<le> 8" and "0 < sz"
proof -
  have "i * 4 mod 8 = i mod 2 * 4" by (simp add: mult_mod_left)
  then show "i * sz mod 8 + sz \<le> 8" "0 < sz" using assms by (auto simp: Suc_leI)
qed

lemma elems_apart:
  assumes "i < j" and "i * sz div 8 = j * sz div 8"
  shows "i * sz mod 8 + sz \<le> j * sz mod (8 :: nat)"
proof -
  have "sz + i * sz \<le> j * sz" using assms(1) mult_le_mono1 [of "Suc i" j sz] by simp
  then show ?thesis
    using div_mult_mod_eq [of "i * sz" 8] div_mult_mod_eq [of "j * sz" 8] assms(2) by linarith
qed

lemma heap_load_store_same:
  assumes "unat (x mod 8) + sz \<le> 8"
  shows "heap_load sz (heap_store sz m x v) x = take_bit (8 * sz) v"
proof -
  have "8 * unat (x mod 8) + 8 * sz \<le> 64" using assms by simp
  then show ?thesis
    unfolding heap_load_def heap_store_def Let_def
    by (intro bit_word_eqI) (auto simp: bit_simps)
qed

lemma heap_load_store_other:
  assumes "x - x mod 8 \<noteq> y - y mod 8 \<or> unat (x mod 8) + sz \<le> unat (y mod 8) \<or> unat (y mod 8) + sz \<le> unat (x mod 8)"
  shows "heap_load sz (heap_store sz m x v) y = heap_load sz m y"
proof (cases "x - x mod 8 = y - y mod 8")
  case False
  then show ?thesis by (simp add: heap_load_def heap_store_def Let_def)
next
  case True
  then have "8 * unat (x mod 8) + 8 * sz \<le> 8 * unat (y mod 8) \<or> 8 * unat (y mod 8) + 8 * sz \<le> 8 * unat (x mod 8)"
    using assms by auto
  then show ?thesis
    unfolding heap_load_def heap_store_def Let_def True
    by (intro bit_word_eqI) (auto simp: bit_simps dest: bit_imp_le_length)
qed

lemma load_elem_store:
  assumes "array_ok p sz n" and "i < n" and "j < n"
  shows "heap_load sz (heap_store sz m (elem p sz i) v) (elem p sz j)
    = (if i = j then take_bit (8 * sz) v else heap_load sz m (elem p sz j))"
proof (cases "i = j")
  case True
  then show ?thesis
    using heap_load_store_same elem_place(2) [OF assms(1,2)] elem_fits(1) [of sz i] assms(1) by (simp add: array_ok_def)
next
  case False
  note e = elem_place [OF assms(1,2)] elem_place [OF assms(1,3)]
  have sz: "sz \<in> {1, 4, 8}" using assms(1) by (simp add: array_ok_def)
  have "elem p sz i - elem p sz i mod 8 \<noteq> elem p sz j - elem p sz j mod 8
      \<or> i * sz mod 8 + sz \<le> j * sz mod 8 \<or> j * sz mod 8 + sz \<le> i * sz mod 8"
  proof (cases "i * sz div 8 = j * sz div 8")
    case True
    then have "i * sz mod 8 + sz \<le> j * sz mod 8 \<or> j * sz mod 8 + sz \<le> i * sz mod 8"
      using elems_apart [of i j sz] elems_apart [of j i sz] False by (auto simp: neq_iff)
    then show ?thesis by blast
  next
    case False
    then show ?thesis using e(3,6) by (metis add_left_cancel mult_cancel2 zero_neq_numeral)
  qed
  then show ?thesis using False heap_load_store_other e(2,5) by simp
qed

text \<open>Only the words of the array are read and written.\<close>

definition array_bytes :: "u64 \<Rightarrow> nat \<Rightarrow> nat \<Rightarrow> nat set" where
  "array_bytes p sz n = {unat p..<unat p + n * sz}"

lemma elem_word_in:
  assumes "array_ok p sz n" and "i < n"
  shows "unat (elem p sz i - elem p sz i mod 8) \<in> array_bytes p sz n"
proof -
  have "i * sz div 8 * 8 \<le> i * sz" by simp
  moreover have "i * sz < n * sz" using assms elem_fits(2) [of sz] by (auto simp: array_ok_def)
  ultimately have "i * sz div 8 * 8 < n * sz" by (rule le_less_trans)
  then show ?thesis using elem_place(3) [OF assms] by (simp add: array_bytes_def)
qed

lemma heap_load_cong:
  assumes "array_ok p sz n" and "i < n" and "\<And>x. unat x \<in> array_bytes p sz n \<Longrightarrow> m' x = m x"
  shows "heap_load sz m' (elem p sz i) = heap_load sz m (elem p sz i)"
  using assms(3) [OF elem_word_in [OF assms(1,2)]] by (simp add: heap_load_def)

lemma heap_store_outside:
  assumes "array_ok p sz n" and "i < n" and "unat x \<notin> array_bytes p sz n"
  shows "heap_store sz m (elem p sz i) v x = m x"
  using elem_word_in [OF assms(1,2)] assms(3) by (auto simp: heap_store_def Let_def)

definition elements :: "qmem \<Rightarrow> u64 \<Rightarrow> nat \<Rightarrow> nat \<Rightarrow> u64 list" where
  "elements m p sz n = List.map (\<lambda>i. heap_load sz m (elem p sz i)) [0..<n]"

lemma elements_simps [simp]: "length (elements m p sz n) = n" "i < n \<Longrightarrow> elements m p sz n ! i = heap_load sz m (elem p sz i)"
  by (simp_all add: elements_def)

lemma elements_cong:
  assumes "array_ok p sz n" and "\<And>x. unat x \<in> array_bytes p sz n \<Longrightarrow> m' x = m x" and "k \<le> n"
  shows "elements m' p sz k = elements m p sz k"
  using heap_load_cong [OF assms(1) _ assms(2)] assms(3) by (simp add: elements_def)

lemma elements_store:
  assumes "array_ok p sz n" and "k < n"
  shows "elements (heap_store sz m (elem p sz k) v) p sz (Suc k) = elements m p sz k @ [take_bit (8 * sz) v]"
  using load_elem_store [OF assms(1,2)] assms(2) by (simp add: elements_def)

text \<open>Copying byte by byte.\<close>

definition heap_copy :: "qmem \<Rightarrow> u64 \<Rightarrow> u64 \<Rightarrow> nat \<Rightarrow> qmem" where
  "heap_copy m dst src n = fold (\<lambda>i m. heap_store 1 m (elem dst 1 i) (heap_load 1 m (elem src 1 i))) [0..<n] m"

lemma heap_copy_bytes:
  assumes dst: "array_ok dst 1 n" and src: "array_ok src 1 n" and dj: "array_bytes dst 1 n \<inter> array_bytes src 1 n = {}" and "k \<le> n"
  shows "(\<forall>i<k. heap_load 1 (heap_copy m dst src k) (elem dst 1 i) = heap_load 1 m (elem src 1 i))
    \<and> (\<forall>x. unat x \<notin> array_bytes dst 1 n \<longrightarrow> heap_copy m dst src k x = m x)"
  using assms(4)
proof (induction k)
  case (Suc k)
  let ?m = "heap_copy m dst src k"
  have step: "heap_copy m dst src (Suc k) = heap_store 1 ?m (elem dst 1 k) (heap_load 1 ?m (elem src 1 k))"
    by (simp add: heap_copy_def)
  have k: "k < n" and IH: "\<And>i. i < k \<Longrightarrow> heap_load 1 ?m (elem dst 1 i) = heap_load 1 m (elem src 1 i)"
    "\<And>x. unat x \<notin> array_bytes dst 1 n \<Longrightarrow> ?m x = m x" using Suc by auto
  have src_k: "heap_load 1 ?m (elem src 1 k) = heap_load 1 m (elem src 1 k)"
    using IH(2) dj by (intro heap_load_cong [OF src k]) blast
  have "heap_load 1 (heap_copy m dst src (Suc k)) (elem dst 1 i) = heap_load 1 m (elem src 1 i)" if "i < Suc k" for i
  proof (cases "i = k")
    case True
    then show ?thesis using load_elem_store [OF dst k k] src_k unfolding step by (simp add: heap_load_def)
  next
    case False
    then show ?thesis using load_elem_store [OF dst k, of i] that k IH(1) [of i] unfolding step by simp
  qed
  moreover have "heap_copy m dst src (Suc k) x = m x" if "unat x \<notin> array_bytes dst 1 n" for x
    unfolding step using heap_store_outside [OF dst k that] IH(2) [OF that] by simp
  ultimately show ?case by blast
qed (simp add: heap_copy_def)

lemma byte_of_word:
  assumes "array_ok p 1 (8 * n)" and "j < n" and "b < 8"
  shows "heap_load 1 m (elem p 1 (8 * j + b)) = take_bit 8 (drop_bit (8 * b) (m (elem p 8 j)))"
proof -
  have ok: "array_ok p 8 n" using assms(1) by (simp add: array_ok_def mult.commute)
  have "8 * j + b < 8 * n" using assms(2,3) by simp
  note e = elem_place [OF assms(1) this]
  have "elem p 1 (8 * j + b) - elem p 1 (8 * j + b) mod 8 = elem p 8 j"
    using e(3) elem_place(1) [OF ok assms(2)] assms(3) by (simp add: word_unat_eq_iff)
  then show ?thesis using e(2) assms(3) by (simp add: heap_load_def)
qed

lemma word_by_bytes:
  fixes v w :: u64
  assumes "\<And>b. b < 8 \<Longrightarrow> take_bit 8 (drop_bit (8 * b) v) = take_bit 8 (drop_bit (8 * b) w)"
  shows "v = w"
proof (rule bit_word_eqI)
  fix n assume "n < LENGTH(64)"
  then have "bit (take_bit 8 (drop_bit (8 * (n div 8)) v)) (n mod 8) = bit (take_bit 8 (drop_bit (8 * (n div 8)) w)) (n mod 8)"
    using assms [of "n div 8"] by (simp add: div_less_iff_less_mult)
  then show "bit v n = bit w n" by (simp add: bit_simps)
qed

lemma heap_copy_elements:
  assumes dst: "array_ok dst sz n" and src: "array_ok src sz n" and words: "8 dvd n * sz"
    and dj: "array_bytes dst sz n \<inter> array_bytes src sz n = {}" and "k \<le> n"
  shows "elements (heap_copy m dst src (n * sz)) dst sz k = elements m src sz k"
proof (rule nth_equalityI)
  let ?m = "heap_copy m dst src (n * sz)"
  obtain q where q: "n * sz = 8 * q" using words by blast
  have ok: "array_ok dst 1 (8 * q)" "array_ok src 1 (8 * q)" "array_bytes dst 1 (8 * q) \<inter> array_bytes src 1 (8 * q) = {}"
    using dst src dj q by (simp_all add: array_ok_def array_bytes_def)
  have word: "?m (elem dst 8 j) = m (elem src 8 j)" if "j < q" for j
  proof (rule word_by_bytes)
    fix b :: nat assume b: "b < 8"
    have "8 * j + b < 8 * q" using that b by simp
    then have "heap_load 1 ?m (elem dst 1 (8 * j + b)) = heap_load 1 m (elem src 1 (8 * j + b))"
      using heap_copy_bytes [OF ok order_refl, of m] unfolding q by blast
    then show "take_bit 8 (drop_bit (8 * b) (?m (elem dst 8 j))) = take_bit 8 (drop_bit (8 * b) (m (elem src 8 j)))"
      unfolding byte_of_word [OF ok(1) that b] byte_of_word [OF ok(2) that b] .
  qed
  show "elements ?m dst sz k ! i = elements m src sz k ! i" if "i < length (elements ?m dst sz k)" for i
  proof -
    have i: "i < n" "i < k" using that assms(5) by auto
    have "i * sz < 8 * q" using i(1) q elem_fits(2) [of sz] dst by (auto simp: array_ok_def simp flip: q)
    then have j: "i * sz div 8 < q" by (simp add: div_less_iff_less_mult mult.commute)
    have ok8: "array_ok dst 8 q" "array_ok src 8 q" using ok by (simp_all add: array_ok_def mult.commute)
    have base: "elem p sz i - elem p sz i mod 8 = elem p 8 (i * sz div 8)" if "array_ok p sz n" "array_ok p 8 q" for p
      using elem_place(3) [OF that(1) i(1)] elem_place(1) [OF that(2) j] by (simp add: word_unat_eq_iff)
    show ?thesis
      using i word [OF j] elem_place(2) [OF dst i(1)] elem_place(2) [OF src i(1)] base [OF dst ok8(1)] base [OF src ok8(2)]
      by (simp add: heap_load_def)
  qed
qed simp

end
