(* ===== verification/Alloc_Crate.thy ===== *)
theory Alloc_Crate
  imports Heap_Words Boot_Monad
begin

unbundle bit_operations_syntax

text \<open>
  What the boot code uses of the \<open>alloc\<close> crate, on the kernel heap: \<open>Box\<close>, \<open>Vec\<close> with its amortised
  growth, and the default \<open>realloc\<close> of a global allocator. A null pointer from the allocator makes
  the crate panic.
\<close>

section \<open>Blocks\<close>

definition set_heap :: "qmem \<Rightarrow> world \<Rightarrow> world" where
  "set_heap m w = w\<lparr>kern := (kern w)\<lparr>heap_mem := m\<rparr>\<rparr>"

abbreviation the_heap :: "world \<Rightarrow> qmem" where
  "the_heap w \<equiv> heap_mem (kern w)"

definition alloc_block :: "platform \<Rightarrow> layout \<Rightarrow> u64 boot" where
  "alloc_block pf l w =
     (case heap_alloc (ALLOCATOR w) (kern w) l of
        None \<Rightarrow> None
      | Some (Inl e) \<Rightarrow> panic_handler pf e w
      | Some (Inr (p, h, k)) \<Rightarrow>
        (if p = 0 then panic_handler pf AllocError else ret p) (w\<lparr>ALLOCATOR := h, kern := k\<rparr>))"

definition free_block :: "platform \<Rightarrow> u64 \<Rightarrow> layout \<Rightarrow> unit boot" where
  "free_block pf p l w =
     (case heap_dealloc (ALLOCATOR w) (kern w) p l of
        None \<Rightarrow> None
      | Some (Inl e) \<Rightarrow> panic_handler pf e w
      | Some (Inr (h, k)) \<Rightarrow> ret () (w\<lparr>ALLOCATOR := h, kern := k\<rparr>))"

definition update_heap :: "(qmem \<Rightarrow> qmem) \<Rightarrow> unit boot" where
  "update_heap f w = ret () (set_heap (f (the_heap w)) w)"

definition on_heap :: "(qmem \<Rightarrow> 'a boot) \<Rightarrow> 'a boot" where
  "on_heap f w = f (the_heap w) w"

text \<open>The default \<open>realloc\<close>: a new block, a copy, and the old block returned.\<close>

definition realloc :: "platform \<Rightarrow> u64 \<Rightarrow> layout \<Rightarrow> usize \<Rightarrow> u64 boot" where
  "realloc pf p l new_size =
     bindB (alloc_block pf \<lparr>layout_size = new_size, layout_align = layout_align l\<rparr>) (\<lambda>new_ptr.
     bindB (update_heap (\<lambda>m. heap_copy m new_ptr p (unat (min (layout_size l) new_size)))) (\<lambda>_.
     bindB (free_block pf p l) (\<lambda>_. ret new_ptr)))"

section \<open>\<open>Box\<close>\<close>

definition box_layout :: layout where
  "box_layout = \<lparr>layout_size = 8, layout_align = 8\<rparr>"

definition box_new :: "platform \<Rightarrow> u64 \<Rightarrow> u64 boot" where
  "box_new pf val = bindB (alloc_block pf box_layout) (\<lambda>p. bindB (update_heap (\<lambda>m. heap_store 8 m p val)) (\<lambda>_. ret p))"

definition box_drop :: "platform \<Rightarrow> u64 \<Rightarrow> unit boot" where
  "box_drop pf p = free_block pf p box_layout"

section \<open>\<open>Vec\<close>\<close>

text \<open>\<open>sz\<close> is the size of an element, which is also its alignment for the types used here.\<close>

record vec =
  vec_ptr :: u64
  vec_cap :: nat
  vec_len :: nat

definition vec_layout :: "nat \<Rightarrow> nat \<Rightarrow> layout" where
  "vec_layout sz cap = \<lparr>layout_size = of_nat (cap * sz), layout_align = of_nat sz\<rparr>"

definition vec_new :: "nat \<Rightarrow> vec" where
  "vec_new sz = \<lparr>vec_ptr = of_nat sz, vec_cap = 0, vec_len = 0\<rparr>"

definition min_non_zero_cap :: "nat \<Rightarrow> nat" where
  "min_non_zero_cap sz = (if sz = 1 then 8 else if sz \<le> 1024 then 4 else 1)"

definition grown_cap :: "nat \<Rightarrow> nat \<Rightarrow> nat" where
  "grown_cap sz cap = max (min_non_zero_cap sz) (max (cap * 2) (cap + 1))"

definition grow_one :: "platform \<Rightarrow> nat \<Rightarrow> vec \<Rightarrow> vec boot" where
  "grow_one pf sz v =
     (let cap = grown_cap sz (vec_cap v) in
      if 2 ^ 63 \<le> cap * sz then panic_handler pf AllocError
      else bindB (if vec_cap v = 0 then alloc_block pf (vec_layout sz cap)
                  else realloc pf (vec_ptr v) (vec_layout sz (vec_cap v)) (of_nat (cap * sz)))
        (\<lambda>p. ret (v\<lparr>vec_ptr := p, vec_cap := cap\<rparr>)))"

definition vec_push :: "platform \<Rightarrow> nat \<Rightarrow> vec \<Rightarrow> u64 \<Rightarrow> vec boot" where
  "vec_push pf sz v val =
     bindB (if vec_len v = vec_cap v then grow_one pf sz v else ret v) (\<lambda>v.
     bindB (update_heap (\<lambda>m. heap_store sz m (elem (vec_ptr v) sz (vec_len v)) val)) (\<lambda>_.
     ret (v\<lparr>vec_len := vec_len v + 1\<rparr>)))"

definition vec_drop :: "platform \<Rightarrow> nat \<Rightarrow> vec \<Rightarrow> unit boot" where
  "vec_drop pf sz v = (if vec_cap v = 0 then ret () else free_block pf (vec_ptr v) (vec_layout sz (vec_cap v)))"

text \<open>\<open>vec![x; n]\<close> for bytes.\<close>

definition vec_filled :: "platform \<Rightarrow> u8 \<Rightarrow> nat \<Rightarrow> vec boot" where
  "vec_filled pf x n =
     bindB (alloc_block pf (vec_layout 1 n)) (\<lambda>p.
     bindB (update_heap (\<lambda>m. fold (\<lambda>i m. heap_store 1 m (elem p 1 i) (ucast x)) [0..<n] m)) (\<lambda>_.
     ret \<lparr>vec_ptr = p, vec_cap = n, vec_len = n\<rparr>))"

abbreviation vec_elements :: "qmem \<Rightarrow> nat \<Rightarrow> vec \<Rightarrow> u64 list" where
  "vec_elements m sz v \<equiv> elements m (vec_ptr v) sz (vec_len v)"

section \<open>What the boot code has to go on\<close>

text \<open>
  \<open>spare\<close> is a page that stays unmapped, \<open>N\<close> bounds the pages the heap may take. With \<open>n\<close> pages taken
  there is enough for \<open>g\<close> more, and for a mapping elsewhere.
\<close>

definition provided :: "virt_addr \<Rightarrow> nat \<Rightarrow> nat \<Rightarrow> kernel \<Rightarrow> nat \<Rightarrow> bool" where
  "provided spare N g k n \<longleftrightarrow> n + g \<le> N \<and> (\<exists>a v. guard_deref (FRAME_ALLOCATOR k) = Some a \<and> guard_deref (VMM k) = Some v
     \<and> 4 * g + 4 \<le> card (low_free a)
     \<and> (\<forall>i. n \<le> i \<and> i < N \<longrightarrow> walk (mem (machine k)) (pml4_phys v) (indices (page_of HEAP_REGION_START i)) = Missing)
     \<and> walk (mem (machine k)) (pml4_phys v) (indices spare) = Missing
     \<and> tlb_coherent v (machine k) \<and> hw_vmm (machine k) = v)"

definition outside_heap :: "virt_addr \<Rightarrow> nat \<Rightarrow> bool" where
  "outside_heap spare N \<longleftrightarrow> N \<le> HEAP_PAGES \<and> (\<forall>i<N. indices spare \<noteq> indices (page_of HEAP_REGION_START i))"

lemma heap_page_canonical: "i \<le> HEAP_PAGES \<Longrightarrow> canonical (virt_as_u64 (page_of HEAP_REGION_START i))"
  using page_of_word(1) [OF heap_page_run, of i] by (simp add: canonical_def HEAP_REGION_START_def)

lemma provided_supply:
  assumes "provided spare N g k n" and "outside_heap spare N" and "d \<le> g"
  shows "growth_supply k n d"
  using assms by (auto simp: provided_def growth_supply_def outside_heap_def page_of_heap_next)

lemma provided_extended:
  assumes p: "provided spare N (d + g) k n" and x: "outside_heap spare N"
    and e: "kernel_extended k n k' n'" "n \<le> n'" "n' \<le> n + d"
  shows "provided spare N g k' n'"
proof -
  obtain a v where av: "guard_deref (FRAME_ALLOCATOR k) = Some a" "guard_deref (VMM k) = Some v"
    "4 * (d + g) + 4 \<le> card (low_free a)"
    "\<And>i. n \<le> i \<Longrightarrow> i < N \<Longrightarrow> walk (mem (machine k)) (pml4_phys v) (indices (page_of HEAP_REGION_START i)) = Missing"
    "walk (mem (machine k)) (pml4_phys v) (indices spare) = Missing" "tlb_coherent v (machine k)" "hw_vmm (machine k) = v"
    using p unfolding provided_def by blast
  have N: "n + (d + g) \<le> N" "N \<le> HEAP_PAGES" using p x by (simp_all add: provided_def outside_heap_def)
  have "growth_supply k n (n' - n)" using provided_supply [OF p x, of "n' - n"] e(3) by simp
  then obtain a' where a': "guard_deref (FRAME_ALLOCATOR k') = Some a'" "guard_deref (VMM k') = Some v"
    "pages_added v (heap_next n) {..<n' - n} (machine k, a) (machine k', a')"
    using e(1) av(1,2) unfolding kernel_extended_def by blast
  have pages: "page_of (heap_next n) i = page_of HEAP_REGION_START (n + i)" for i by (rule page_of_heap_next)
  have ne: "indices (page_of HEAP_REGION_START j) \<noteq> indices (page_of HEAP_REGION_START (n + i))"
    if "n' \<le> j" "j < N" "i < n' - n" for i j
    using page_of_distinct [OF heap_page_run, of j "n + i"] that e(2) N by (simp add: indices_eq_iff)
  have "card (low_free a) \<le> card (low_free a') + 4 * (n' - n)" "cr3 (machine k') = cr3 (machine k)"
    using a'(3) by (simp_all add: pages_added_def)
  moreover have "tlb_coherent v (machine k')"
    using a'(3) av(6) heap_page_canonical N e(3) by (auto simp: pages_added_def pages)
  moreover have "walk (mem (machine k')) (pml4_phys v) (indices (page_of HEAP_REGION_START j)) = Missing" if "n' \<le> j" "j < N" for j
    using a'(3) ne [OF that] av(4) [of j] that e(2) by (simp add: pages_added_def pages)
  moreover have "walk (mem (machine k')) (pml4_phys v) (indices spare) = Missing"
    using a'(3) av(5) x N e(3) by (auto simp: pages_added_def pages outside_heap_def)
  ultimately show ?thesis
    using a'(1,2) av(3,7) N e(2,3) unfolding provided_def by (intro conjI exI [of _ a'] exI [of _ v]) (auto simp: hw_vmm_def)
qed

lemma provided_less: "provided spare N g k n \<Longrightarrow> g' \<le> g \<Longrightarrow> provided spare N g' k n"
  by (auto simp: provided_def)

lemma provided_heap_mem [simp]: "provided spare N g (k\<lparr>heap_mem := m\<rparr>) n \<longleftrightarrow> provided spare N g k n"
  by (simp add: provided_def)

end
