(* ===== verification/Alloc_Rules.thy ===== *)
theory Alloc_Rules
  imports Alloc_Crate
begin

unbundle bit_operations_syntax

text \<open>
  The laws of \<open>Box\<close> and \<open>Vec\<close> on the kernel heap, as rules for programs that use them. Such a program
  either achieves its postcondition or, if the memory it needs was not provided, panics because an
  allocation failed.
\<close>

section \<open>Outcomes\<close>

text \<open>\<open>enough\<close> says that the memory was provided.\<close>

definition achieves :: "platform \<Rightarrow> bool \<Rightarrow> 'a boot \<Rightarrow> ('a \<Rightarrow> world \<Rightarrow> bool) \<Rightarrow> world \<Rightarrow> bool" where
  "achieves pf enough m P w \<longleftrightarrow> ends m (\<lambda>r w'. console_ready pf w' \<and>
     (case r of Inl e \<Rightarrow> \<not> enough \<and> e = Halt (AfterPanic AllocError) | Inr x \<Rightarrow> P x w')) w"

lemma achieves_ret: "console_ready pf w \<Longrightarrow> P x w \<Longrightarrow> achieves pf enough (ret x) P w"
  by (simp add: achieves_def ends_ret)

lemma achieves_bind:
  assumes "achieves pf enough m P w" and "\<And>x w'. console_ready pf w' \<Longrightarrow> P x w' \<Longrightarrow> achieves pf enough (f x) Q w'"
  shows "achieves pf enough (bindB m f) Q w"
  unfolding achieves_def
  by (rule ends_bind [OF assms(1) [unfolded achieves_def]]) (use assms(2) in \<open>auto simp: achieves_def\<close>)

lemma achieves_mono:
  "achieves pf enough m P w \<Longrightarrow> (\<And>x w'. console_ready pf w' \<Longrightarrow> P x w' \<Longrightarrow> Q x w') \<Longrightarrow> achieves pf enough m Q w"
  unfolding achieves_def by (erule ends_mono) (auto split: sum.splits)

lemma achieves_panic: "console_ready pf w \<Longrightarrow> \<not> enough \<Longrightarrow> achieves pf enough (panic_handler pf AllocError) P w"
  unfolding achieves_def by (rule ends_mono [OF ends_panic_handler]) auto

section \<open>The state of the heap\<close>

record provision =
  spare_page :: virt_addr
  page_limit :: nat
  provision_made :: bool

text \<open>The heap is in order with the blocks \<open>live\<close>, and if memory was provided, there is enough for \<open>g\<close> more pages.\<close>

definition heap_world :: "provision \<Rightarrow> nat \<Rightarrow> (u64 \<times> layout) set \<Rightarrow> world \<Rightarrow> bool" where
  "heap_world pv g live w \<longleftrightarrow> outside_heap (spare_page pv) (page_limit pv)
     \<and> (\<exists>n. heap_ok (ALLOCATOR w) (kern w) live n \<and> kernel_ok (kern w) n
          \<and> (provision_made pv \<longrightarrow> provided (spare_page pv) (page_limit pv) g (kern w) n))"

lemma heap_world_less: "heap_world pv g live w \<Longrightarrow> g' \<le> g \<Longrightarrow> heap_world pv g' live w"
  unfolding heap_world_def using provided_less by blast

lemma heap_world_io [simp]: "heap_world pv g live (w\<lparr>io := t\<rparr>) \<longleftrightarrow> heap_world pv g live w"
  by (simp add: heap_world_def)

definition blocks_kept :: "(u64 \<times> layout) set \<Rightarrow> world \<Rightarrow> world \<Rightarrow> bool" where
  "blocks_kept B w w' \<longleftrightarrow> ints w' = ints w \<and> (\<forall>b \<in> B. block_kept b (the_heap w) (the_heap w'))"

lemma blocks_kept_refl [simp]: "blocks_kept B w w" "blocks_kept B w (w\<lparr>io := t\<rparr>)"
  by (simp_all add: blocks_kept_def block_kept_def)

lemma blocks_kept_trans: "blocks_kept B w w' \<Longrightarrow> blocks_kept C w' w'' \<Longrightarrow> D \<subseteq> B \<inter> C \<Longrightarrow> blocks_kept D w w''"
  unfolding blocks_kept_def using block_kept_trans by (metis IntD1 IntD2 subsetD)

lemma heap_world_block:
  assumes "heap_world pv g live w" and "(p, l) \<in> live"
  shows "p \<noteq> 0" and "unat p mod 8 = 0" and "{unat p..<unat p + unat (layout_size l)} \<subseteq> block_bytes p l"
    and "block_bytes p l \<subseteq> {0xFFFF880000000000..<0xFFFFFFFF80000000}" and "unat p + unat (layout_size l) \<le> 2 ^ 64"
    and "(q, k) \<in> live \<Longrightarrow> (p, l) \<noteq> (q, k) \<Longrightarrow> block_bytes p l \<inter> block_bytes q k = {}"
proof -
  obtain n F where h: "held_ok live (heap_bytes n) F" "n \<le> HEAP_PAGES"
    using assms(1) by (auto simp: heap_world_def heap_ok_def)
  have b: "held_block (heap_bytes n) F (p, l)" by (rule held_ok_block [OF h(1) assms(2)])
  then have s: "servable l" "region_ok p (extent l)" by (simp_all add: held_block_def)
  then show "p \<noteq> 0" "unat p mod 8 = 0" by (auto simp: region_ok_def)
  have "unat (layout_size l) \<le> extent l" using servable_facts(5) [OF s(1)] .
  then show "{unat p..<unat p + unat (layout_size l)} \<subseteq> block_bytes p l" by (auto simp: block_bytes_def)
  have "heap_bytes n \<subseteq> {0xFFFF880000000000..<0xFFFFFFFF80000000}" using h(2) by (auto simp: heap_bytes_def HEAP_PAGES_def)
  then show "block_bytes p l \<subseteq> {0xFFFF880000000000..<0xFFFFFFFF80000000}" using b by (auto simp: held_block_def)
  show "unat p + unat (layout_size l) \<le> 2 ^ 64"
    using \<open>unat (layout_size l) \<le> extent l\<close> s(2) by (simp add: region_ok_def)
  show "block_bytes p l \<inter> block_bytes q k = {}" if "(q, k) \<in> live" "(p, l) \<noteq> (q, k)"
    using held_ok_disjoint [OF h(1) assms(2) that] .
qed

section \<open>Blocks\<close>

lemma achieves_alloc:
  assumes con: "console_ready pf w" and hw: "heap_world pv (growth_pages l + g) live w" and l: "servable l" "boundary l \<le> 4096"
  shows "achieves pf (provision_made pv) (alloc_block pf l)
    (\<lambda>p w'. heap_world pv g (insert (p, l) live) w' \<and> (p, l) \<notin> live \<and> blocks_kept live w w') w"
proof -
  obtain n where n: "heap_ok (ALLOCATOR w) (kern w) live n" "kernel_ok (kern w) n"
    "provision_made pv \<Longrightarrow> provided (spare_page pv) (page_limit pv) (growth_pages l + g) (kern w) n"
    and x: "outside_heap (spare_page pv) (page_limit pv)" using hw by (auto simp: heap_world_def)
  have "boundary l \<le> 2 ^ 31" using l(2) by simp
  then obtain p h' k' n' where r: "heap_alloc (ALLOCATOR w) (kern w) l = Some (Inr (p, h', k'))" "n \<le> n'"
    "heap_ok h' k' (handed_out live p l) n'" "kernel_ok k' n'"
    "\<And>b. b \<in> live \<Longrightarrow> block_kept b (the_heap w) (heap_mem k')" "p \<noteq> 0 \<Longrightarrow> (p, l) \<notin> live"
    "p = 0 \<Longrightarrow> boundary l \<le> 4096 \<Longrightarrow> n' = n \<and> \<not> growth_possible (kern w) n l"
    "n' \<le> n + growth_pages l" "p \<noteq> 0 \<Longrightarrow> kernel_extended (kern w) n k' n'"
    using heap_alloc_spec [OF n(1,2) l(1)] by metis
  let ?w = "w\<lparr>ALLOCATOR := h', kern := k'\<rparr>"
  have con': "console_ready pf ?w" using con by (simp add: console_ready_def)
  show ?thesis
  proof (cases "p = 0")
    case True
    have "\<not> provision_made pv"
    proof
      assume "provision_made pv"
      then have "growth_possible (kern w) n l" using provided_supply [OF n(3) x, of "growth_pages l"] by simp
      then show False using r(7) True l(2) by blast
    qed
    then show ?thesis
      using achieves_panic [OF con', of "provision_made pv"] r(1) True by (simp add: achieves_def ends_def alloc_block_def)
  next
    case False
    have "heap_world pv g (insert (p, l) live) ?w"
      using r(3,4) False x provided_extended [OF n(3) x r(9) r(2,8)] by (auto simp: heap_world_def handed_out_def)
    then show ?thesis
      using r(1,5,6) False con' by (simp add: achieves_def ends_def alloc_block_def ret_def blocks_kept_def)
  qed
qed

lemma achieves_free:
  assumes con: "console_ready pf w" and hw: "heap_world pv g live w" and b: "(p, l) \<in> live"
  shows "achieves pf (provision_made pv) (free_block pf p l)
    (\<lambda>_ w'. heap_world pv g (live - {(p, l)}) w' \<and> blocks_kept (live - {(p, l)}) w w') w"
proof -
  obtain n where n: "heap_ok (ALLOCATOR w) (kern w) live n" "kernel_ok (kern w) n"
    "provision_made pv \<Longrightarrow> provided (spare_page pv) (page_limit pv) g (kern w) n"
    and x: "outside_heap (spare_page pv) (page_limit pv)" using hw by (auto simp: heap_world_def)
  obtain h' m' where r: "heap_dealloc (ALLOCATOR w) (kern w) p l = Some (Inr (h', (kern w)\<lparr>heap_mem := m'\<rparr>))"
    "heap_ok h' ((kern w)\<lparr>heap_mem := m'\<rparr>) (live - {(p, l)}) n"
    "\<And>c. c \<in> live - {(p, l)} \<Longrightarrow> block_kept c (the_heap w) m'" using heap_dealloc_spec [OF n(1) b] by metis
  have "heap_world pv g (live - {(p, l)}) (w\<lparr>ALLOCATOR := h', kern := (kern w)\<lparr>heap_mem := m'\<rparr>\<rparr>)"
    using r(2) n(2,3) x by (auto simp: heap_world_def)
  then show ?thesis
    using r(1,3) con by (simp add: achieves_def ends_def free_block_def ret_def blocks_kept_def console_ready_def)
qed

text \<open>A write inside a block.\<close>

lemma achieves_update:
  assumes con: "console_ready pf w" and hw: "heap_world pv g live w" and b: "(p, l) \<in> live"
    and upd: "\<And>x. unat x \<notin> block_bytes p l \<Longrightarrow> f (the_heap w) x = the_heap w x"
  shows "achieves pf (provision_made pv) (update_heap f)
    (\<lambda>_ w'. heap_world pv g live w' \<and> the_heap w' = f (the_heap w) \<and> blocks_kept (live - {(p, l)}) w w') w"
proof -
  let ?m = "f (the_heap w)"
  obtain n F where n: "heap_ok (ALLOCATOR w) (kern w) live n" "kernel_ok (kern w) n"
    "provision_made pv \<Longrightarrow> provided (spare_page pv) (page_limit pv) g (kern w) n"
    and x: "outside_heap (spare_page pv) (page_limit pv)"
    and F: "free_rep (allocator (guard_deref (ALLOCATOR w))) (the_heap w) F" "held_ok live (heap_bytes n) F"
    using hw by (auto simp: heap_world_def heap_ok_def)
  have "free_rep (allocator (guard_deref (ALLOCATOR w))) ?m F"
    using held_not_free [OF F(2) b] by (intro free_rep_frame [OF F(1)] upd) auto
  then have "heap_world pv g live (set_heap ?m w)"
    using n F(2) x by (auto simp: heap_world_def heap_ok_def set_heap_def)
  moreover have "block_kept c (the_heap w) ?m" if c: "c \<in> live - {(p, l)}" for c
    using heap_world_block(6) [OF hw b, of "fst c" "snd c"] upd c by (fastforce simp: block_kept_def)
  ultimately show ?thesis
    using con by (simp add: achieves_def ends_def update_heap_def ret_def blocks_kept_def console_ready_def set_heap_def)
qed

section \<open>\<open>Box\<close>\<close>

lemma box_layout_facts [simp]: "servable box_layout" "boundary box_layout \<le> 4096" "unat (layout_size box_layout) = 8"
  by (simp_all add: box_layout_def servable_def valid_layout_def from_size_align_def boundary_def is_power_of_two_def)

lemma box_array:
  assumes "heap_world pv g live w" and "(p, box_layout) \<in> live"
  shows "array_ok p 8 1" and "array_bytes p 8 1 \<subseteq> block_bytes p box_layout"
  using heap_world_block(2,3,5) [OF assms] by (simp_all add: array_ok_def array_bytes_def)

lemma elem_0 [simp]: "elem p sz 0 = p"
  by (simp add: elem_def)

lemma box_load_kept:
  assumes "heap_world pv g live w" and "(p, box_layout) \<in> live" and "blocks_kept {(p, box_layout)} w w'"
  shows "heap_load 8 (the_heap w') p = heap_load 8 (the_heap w) p"
  using heap_load_cong [OF box_array(1) [OF assms(1,2)], of 0 "the_heap w'" "the_heap w"] box_array(2) [OF assms(1,2)] assms(3)
  by (force simp: blocks_kept_def block_kept_def)

lemma achieves_box_new:
  assumes con: "console_ready pf w" and hw: "heap_world pv (growth_pages box_layout + g) live w"
  shows "achieves pf (provision_made pv) (box_new pf val)
    (\<lambda>p w'. heap_world pv g (insert (p, box_layout) live) w' \<and> (p, box_layout) \<notin> live \<and> blocks_kept live w w'
      \<and> heap_load 8 (the_heap w') p = val) w"
  unfolding box_new_def
proof (rule achieves_bind [OF achieves_alloc [OF con hw box_layout_facts(1,2)]], elim conjE)
  fix p w1
  assume w1: "console_ready pf w1" "heap_world pv g (insert (p, box_layout) live) w1" "(p, box_layout) \<notin> live" "blocks_kept live w w1"
  have arr: "array_ok p 8 1" "array_bytes p 8 1 \<subseteq> block_bytes p box_layout" using box_array [OF w1(2)] by simp_all
  have out: "heap_store 8 (the_heap w1) p val x = the_heap w1 x" if "unat x \<notin> block_bytes p box_layout" for x
    using heap_store_outside [OF arr(1), of 0 x] arr(2) that by auto
  have here: "heap_load 8 (heap_store 8 (the_heap w1) p val) p = val"
    using load_elem_store [OF arr(1), of 0 0] take_bit_length_eq [of val] by simp
  show "achieves pf (provision_made pv) (bindB (update_heap (\<lambda>m. heap_store 8 m p val)) (\<lambda>_. ret p))
    (\<lambda>p w'. heap_world pv g (insert (p, box_layout) live) w' \<and> (p, box_layout) \<notin> live \<and> blocks_kept live w w'
      \<and> heap_load 8 (the_heap w') p = val) w1"
    by (rule achieves_bind [OF achieves_update [OF w1(1,2), of p box_layout] achieves_ret])
      (use w1 out here in \<open>auto intro: blocks_kept_trans\<close>)
qed

section \<open>\<open>Vec\<close>\<close>

definition vec_buf :: "nat \<Rightarrow> vec \<Rightarrow> (u64 \<times> layout) set" where
  "vec_buf sz v = (if vec_cap v = 0 then {} else {(vec_ptr v, vec_layout sz (vec_cap v))})"

text \<open>The vector \<open>v\<close> holds \<open>xs\<close>, beside the blocks \<open>L\<close> of others.\<close>

definition vec_state :: "provision \<Rightarrow> nat \<Rightarrow> (u64 \<times> layout) set \<Rightarrow> nat \<Rightarrow> vec \<Rightarrow> u64 list \<Rightarrow> world \<Rightarrow> bool" where
  "vec_state pv g L sz v xs w \<longleftrightarrow> heap_world pv g (L \<union> vec_buf sz v) w \<and> L \<inter> vec_buf sz v = {}
     \<and> sz \<in> {1, 4, 8} \<and> vec_len v = length xs \<and> length xs \<le> vec_cap v \<and> vec_cap v \<le> 2 ^ 33 \<and> 8 dvd vec_cap v * sz
     \<and> vec_elements (the_heap w) sz v = xs"

lemma vec_stateD:
  assumes "vec_state pv g L sz v xs w"
  shows "vec_elements (the_heap w) sz v = xs" and "vec_len v = length xs"
  using assms unfolding vec_state_def by blast+

lemma vec_state_io [simp]: "vec_state pv g L sz v xs (w\<lparr>io := t\<rparr>) \<longleftrightarrow> vec_state pv g L sz v xs w"
  unfolding vec_state_def by simp

lemma vec_layout_facts:
  assumes "sz \<in> {1, 4, 8}" and "cap \<le> 2 ^ 33"
  shows "servable (vec_layout sz cap)" and "boundary (vec_layout sz cap) \<le> 4096" and "unat (layout_size (vec_layout sz cap)) = cap * sz"
proof -
  have b: "cap * sz \<le> 2 ^ 36" using assms by auto
  then show u: "unat (layout_size (vec_layout sz cap)) = cap * sz"
    by (simp add: vec_layout_def unat_of_nat del: of_nat_mult)
  have "from_size_align (of_nat (cap * sz)) (2 ^ k) = Some \<lparr>layout_size = of_nat (cap * sz), layout_align = 2 ^ k\<rparr>" if "k < 4" for k
    using from_size_align_pow2 [of k "of_nat (cap * sz)"] that b u power_strict_increasing [OF that, of "2 :: nat"]
    by (simp add: vec_layout_def del: of_nat_mult)
  from this [of 0] this [of 2] this [of 3] show "servable (vec_layout sz cap)" "boundary (vec_layout sz cap) \<le> 4096"
    using assms(1) b u by (auto simp: servable_def valid_layout_def boundary_def vec_layout_def)
qed

lemma vec_array:
  assumes "heap_world pv g live w" and "(p, vec_layout sz cap) \<in> live" and "sz \<in> {1, 4, 8}" and "cap \<le> 2 ^ 33"
  shows "array_ok p sz cap" and "array_bytes p sz cap \<subseteq> block_bytes p (vec_layout sz cap)"
  using heap_world_block(2,3,5) [OF assms(1,2)] vec_layout_facts(3) [OF assms(3,4)] assms(3)
  by (simp_all add: array_ok_def array_bytes_def)

lemma elements_kept:
  assumes "heap_world pv g live w" and "(p, vec_layout sz cap) \<in> live" and "sz \<in> {1, 4, 8}" and "cap \<le> 2 ^ 33"
    and "blocks_kept {(p, vec_layout sz cap)} w w'" and "n \<le> cap"
  shows "elements (the_heap w') p sz n = elements (the_heap w) p sz n"
  using elements_cong [OF vec_array(1) [OF assms(1-4)], of "the_heap w'" "the_heap w" n] vec_array(2) [OF assms(1-4)] assms(5,6)
  by (force simp: blocks_kept_def block_kept_def)

lemma vec_state_kept:
  assumes "vec_state pv g L sz v xs w" and "blocks_kept (vec_buf sz v) w w'" and "heap_world pv g' (L' \<union> vec_buf sz v) w'"
    and "L' \<inter> vec_buf sz v = {}"
  shows "vec_state pv g' L' sz v xs w'"
proof (cases "vec_cap v = 0")
  case True
  then show ?thesis using assms by (simp add: vec_state_def elements_def)
next
  case False
  then have "vec_elements (the_heap w') sz v = vec_elements (the_heap w) sz v"
    using assms(1,2) by (intro elements_kept [of pv g "L \<union> vec_buf sz v" w _ sz "vec_cap v"]) (auto simp: vec_state_def vec_buf_def)
  then show ?thesis using assms unfolding vec_state_def by metis
qed

text \<open>Copying the elements of one block into a larger one.\<close>

lemma achieves_copy:
  assumes con: "console_ready pf w" and hw: "heap_world pv g live w"
    and b: "(p, vec_layout sz cap) \<in> live" "(q, vec_layout sz cap') \<in> live" "(q, vec_layout sz cap') \<noteq> (p, vec_layout sz cap)"
    and sz: "sz \<in> {1, 4, 8}" and cap: "cap \<le> cap'" "cap' \<le> 2 ^ 33" "8 dvd cap * sz"
  shows "achieves pf (provision_made pv) (update_heap (\<lambda>m. heap_copy m q p (cap * sz)))
    (\<lambda>_ w'. heap_world pv g live w' \<and> blocks_kept (live - {(q, vec_layout sz cap')}) w w'
      \<and> (\<forall>k\<le>cap. elements (the_heap w') q sz k = elements (the_heap w) p sz k)) w"
proof -
  let ?f = "\<lambda>m. heap_copy m q p (cap * sz)"
  have c: "cap \<le> 2 ^ 33" using cap by simp
  note arr = vec_array [OF hw b(1) sz c] vec_array [OF hw b(2) sz cap(2)]
  have sub: "array_ok q sz cap" "array_bytes q sz cap \<subseteq> block_bytes q (vec_layout sz cap')"
    using arr(3,4) mult_le_mono1 [OF cap(1), of sz] by (auto simp: array_ok_def array_bytes_def)
  have dj: "array_bytes q sz cap \<inter> array_bytes p sz cap = {}"
    using heap_world_block(6) [OF hw b(2,1,3)] sub(2) arr(2) by blast
  have bytes: "array_ok r 1 (cap * sz) \<longleftrightarrow> array_ok r sz cap" "array_bytes r 1 (cap * sz) = array_bytes r sz cap" for r
    using sz by (auto simp: array_ok_def array_bytes_def)
  have "?f (the_heap w) x = the_heap w x" if "unat x \<notin> block_bytes q (vec_layout sz cap')" for x
    using heap_copy_bytes [of q "cap * sz" p "cap * sz" "the_heap w", unfolded bytes] sub arr(1) dj that by blast
  moreover have "elements (?f (the_heap w)) q sz k = elements (the_heap w) p sz k" if "k \<le> cap" for k
    by (rule heap_copy_elements [OF sub(1) arr(1) cap(3) dj that])
  ultimately show ?thesis by (intro achieves_mono [OF achieves_update [OF con hw b(2)]]) auto
qed

lemma achieves_realloc:
  assumes con: "console_ready pf w" and hw: "heap_world pv (growth_pages (vec_layout sz cap') + g) live w"
    and b: "(p, vec_layout sz cap) \<in> live" and sz: "sz \<in> {1, 4, 8}" and cap: "cap \<le> cap'" "cap' \<le> 2 ^ 33" "8 dvd cap * sz"
  shows "achieves pf (provision_made pv) (realloc pf p (vec_layout sz cap) (of_nat (cap' * sz)))
    (\<lambda>q w'. heap_world pv g (insert (q, vec_layout sz cap') (live - {(p, vec_layout sz cap)})) w'
      \<and> (q, vec_layout sz cap') \<notin> live \<and> blocks_kept (live - {(p, vec_layout sz cap)}) w w'
      \<and> (\<forall>k\<le>cap. elements (the_heap w') q sz k = elements (the_heap w) p sz k)) w"
    (is "achieves pf ?e _ ?P w")
proof -
  let ?l = "vec_layout sz cap" and ?l' = "vec_layout sz cap'"
  have lay: "\<lparr>layout_size = of_nat (cap' * sz), layout_align = layout_align ?l\<rparr> = ?l'" by (simp add: vec_layout_def)
  have c: "cap \<le> 2 ^ 33" using cap by simp
  have "unat (layout_size ?l) = cap * sz" "unat (of_nat (cap' * sz) :: u64) = cap' * sz"
    using vec_layout_facts(3) [OF sz c] vec_layout_facts(3) [OF sz cap(2)] by (simp_all add: vec_layout_def)
  then have size: "unat (min (layout_size ?l) (of_nat (cap' * sz))) = cap * sz"
    using cap(1) by (simp add: min_def word_le_nat_alt del: of_nat_mult)
  show ?thesis
    unfolding realloc_def lay size
  proof (rule achieves_bind [OF achieves_alloc [OF con hw vec_layout_facts(1,2) [OF sz cap(2)]]], elim conjE)
    fix q w1
    assume w1: "console_ready pf w1" "heap_world pv g (insert (q, ?l') live) w1" "(q, ?l') \<notin> live" "blocks_kept live w w1"
    have b1: "(p, ?l) \<in> insert (q, ?l') live" "(q, ?l') \<noteq> (p, ?l)" using b w1(3) by auto
    have e1: "elements (the_heap w1) p sz k = elements (the_heap w) p sz k" if "k \<le> cap" for k
      using w1(4) b by (intro elements_kept [OF hw b sz c _ that]) (auto simp: blocks_kept_def)
    show "achieves pf ?e (bindB (update_heap (\<lambda>m. heap_copy m q p (cap * sz))) (\<lambda>_. bindB (free_block pf p ?l) (\<lambda>_. ret q))) ?P w1"
    proof (rule achieves_bind [OF achieves_copy [OF w1(1,2) b1(1) insertI1 b1(2) sz cap]], elim conjE)
      fix w2
      assume w2: "console_ready pf w2" "heap_world pv g (insert (q, ?l') live) w2" "blocks_kept (insert (q, ?l') live - {(q, ?l')}) w1 w2"
        and e2: "\<forall>k\<le>cap. elements (the_heap w2) q sz k = elements (the_heap w1) p sz k"
      have "?P q w3" if w3: "heap_world pv g (insert (q, ?l') live - {(p, ?l)}) w3"
        "blocks_kept (insert (q, ?l') live - {(p, ?l)}) w2 w3" for w3
      proof -
        have "insert (q, ?l') live - {(p, ?l)} = insert (q, ?l') (live - {(p, ?l)})" using b1(2) by auto
        moreover have "blocks_kept (live - {(p, ?l)}) w w3"
          using blocks_kept_trans [OF blocks_kept_trans [OF w1(4) w2(3) subset_refl] w3(2), of "live - {(p, ?l)}"] w1(3) by blast
        moreover have "elements (the_heap w3) q sz k = elements (the_heap w2) q sz k" if "k \<le> cap" for k
          by (rule elements_kept [OF w2(2) insertI1 sz cap(2)]) (use w3(2) b1(2) that cap(1) in \<open>auto simp: blocks_kept_def\<close>)
        ultimately show ?thesis using w3(1) w1(3) e1 e2 by simp
      qed
      then show "achieves pf ?e (bindB (free_block pf p ?l) (\<lambda>_. ret q)) ?P w2"
        by (intro achieves_bind [OF achieves_free [OF w2(1,2) b1(1)]] achieves_ret) blast+
    qed
  qed
qed

section \<open>Vectors grow\<close>

lemma grown_cap_facts:
  assumes "sz \<in> {1, 4, 8}" and "cap \<le> 2 ^ 32" and "8 dvd cap * sz"
  shows "cap < grown_cap sz cap" and "grown_cap sz cap \<le> 2 ^ 33" and "8 dvd grown_cap sz cap * sz" and "grown_cap sz cap * sz < 2 ^ 63"
proof -
  have g: "grown_cap sz cap = (if cap = 0 then if sz = 1 then 8 else 4 else max (if sz = 1 then 8 else 4) (cap * 2))"
    using assms(1) by (auto simp: grown_cap_def min_non_zero_cap_def)
  show "cap < grown_cap sz cap" by (auto simp: grown_cap_def)
  show le: "grown_cap sz cap \<le> 2 ^ 33" using assms(2) by (simp add: g)
  show "grown_cap sz cap * sz < 2 ^ 63" using le assms(1) by auto
  show "8 dvd grown_cap sz cap * sz" using assms(1,3) by (auto simp: g max_def intro: dvd_mult2)
qed

definition growth_cost :: "nat \<Rightarrow> nat \<Rightarrow> nat" where
  "growth_cost sz cap = growth_pages (vec_layout sz (grown_cap sz cap))"

lemma achieves_grow_one:
  assumes con: "console_ready pf w" and v: "vec_state pv (growth_cost sz (vec_cap v) + g) L sz v xs w" and cap: "vec_cap v \<le> 2 ^ 32"
  shows "achieves pf (provision_made pv) (grow_one pf sz v)
    (\<lambda>v' w'. vec_state pv g L sz v' xs w' \<and> length xs < vec_cap v' \<and> vec_cap v' = grown_cap sz (vec_cap v) \<and> blocks_kept L w w') w"
    (is "achieves pf ?e _ ?P w")
proof -
  let ?cap = "grown_cap sz (vec_cap v)" and ?l = "vec_layout sz (grown_cap sz (vec_cap v))"
  have vs: "heap_world pv (growth_pages ?l + g) (L \<union> vec_buf sz v) w" "L \<inter> vec_buf sz v = {}" "sz \<in> {1, 4, 8}"
    "vec_len v = length xs" "length xs \<le> vec_cap v" "8 dvd vec_cap v * sz" "vec_elements (the_heap w) sz v = xs"
    using v unfolding vec_state_def growth_cost_def by blast+
  note gc = grown_cap_facts [OF vs(3) cap vs(6)]
  have post: "?P (v\<lparr>vec_ptr := p, vec_cap := ?cap\<rparr>) w'"
    if "heap_world pv g (insert (p, ?l) L) w'" "(p, ?l) \<notin> L" "blocks_kept L w w'" "elements (the_heap w') p sz (vec_len v) = xs" for p w'
    using that gc vs by (auto simp: vec_state_def vec_buf_def)
  show ?thesis
  proof (cases "vec_cap v = 0")
    case True
    then have L: "heap_world pv (growth_pages ?l + g) L w" "xs = []" using vs(1,5) by (simp_all add: vec_buf_def)
    have step: "grow_one pf sz v = bindB (alloc_block pf ?l) (\<lambda>p. ret (v\<lparr>vec_ptr := p, vec_cap := ?cap\<rparr>))"
      using True gc(4) by (simp add: grow_one_def Let_def)
    show ?thesis
      unfolding step
      by (intro achieves_bind [OF achieves_alloc [OF con L(1) vec_layout_facts(1,2) [OF vs(3) gc(2)]]] achieves_ret, assumption)
        (rule post, use L(2) vs(4) in \<open>auto simp: elements_def\<close>)
  next
    case False
    have buf: "vec_buf sz v = {(vec_ptr v, vec_layout sz (vec_cap v))}" using False by (simp add: vec_buf_def)
    have b: "(vec_ptr v, vec_layout sz (vec_cap v)) \<in> L \<union> vec_buf sz v" by (simp add: buf)
    have L: "L \<union> vec_buf sz v - {(vec_ptr v, vec_layout sz (vec_cap v))} = L" using vs(2) buf by auto
    note re = achieves_realloc [OF con vs(1) b vs(3) less_imp_le [OF gc(1)] gc(2) vs(6), unfolded L]
    have step: "grow_one pf sz v = bindB (realloc pf (vec_ptr v) (vec_layout sz (vec_cap v)) (of_nat (?cap * sz)))
        (\<lambda>p. ret (v\<lparr>vec_ptr := p, vec_cap := ?cap\<rparr>))" using False gc(4) by (simp add: grow_one_def Let_def)
    show ?thesis
      unfolding step
      by (intro achieves_bind [OF re] achieves_ret, assumption) (rule post, use vs(4,5,7) in auto)
  qed
qed

lemma achieves_push:
  assumes con: "console_ready pf w" and v: "vec_state pv ((if length xs = vec_cap v then growth_cost sz (vec_cap v) else 0) + g) L sz v xs w"
    and len: "length xs \<le> 2 ^ 32"
  shows "achieves pf (provision_made pv) (vec_push pf sz v x)
    (\<lambda>v' w'. vec_state pv g L sz v' (xs @ [take_bit (8 * sz) x]) w' \<and> blocks_kept L w w'
      \<and> vec_cap v' = (if length xs = vec_cap v then grown_cap sz (vec_cap v) else vec_cap v)) w"
    (is "achieves pf ?e _ ?P w")
  unfolding vec_push_def
proof (rule achieves_bind)
  let ?R = "\<lambda>v' w'. vec_state pv g L sz v' xs w' \<and> length xs < vec_cap v' \<and> blocks_kept L w w'
    \<and> vec_cap v' = (if length xs = vec_cap v then grown_cap sz (vec_cap v) else vec_cap v)"
  have l: "vec_len v = length xs" "length xs \<le> vec_cap v" using v by (simp_all add: vec_state_def)
  show "achieves pf ?e (if vec_len v = vec_cap v then grow_one pf sz v else ret v) ?R w"
  proof (cases "length xs = vec_cap v")
    case True
    then show ?thesis using v len l by (auto intro!: achieves_mono [OF achieves_grow_one [OF con]])
  next
    case False
    then show ?thesis using v l con by (auto intro!: achieves_ret)
  qed
  fix v1 w1
  assume w1: "console_ready pf w1" and r: "?R v1 w1"
  let ?b = "(vec_ptr v1, vec_layout sz (vec_cap v1))" and ?f = "\<lambda>m. heap_store sz m (elem (vec_ptr v1) sz (length xs)) x"
  have vs: "heap_world pv g (L \<union> vec_buf sz v1) w1" "L \<inter> vec_buf sz v1 = {}" "sz \<in> {1, 4, 8}" "vec_len v1 = length xs"
    "vec_cap v1 \<le> 2 ^ 33" "8 dvd vec_cap v1 * sz" "vec_elements (the_heap w1) sz v1 = xs" "length xs < vec_cap v1"
    using r unfolding vec_state_def by blast+
  have buf: "vec_buf sz v1 = {?b}" "?b \<in> L \<union> vec_buf sz v1" "?b \<notin> L" using vs(2,8) by (auto simp: vec_buf_def)
  note arr = vec_array [OF vs(1) buf(2) vs(3,5)]
  have out: "?f (the_heap w1) y = the_heap w1 y" if "unat y \<notin> block_bytes (vec_ptr v1) (vec_layout sz (vec_cap v1))" for y
    using heap_store_outside [OF arr(1) vs(8)] arr(2) that by blast
  have stored: "elements (?f (the_heap w1)) (vec_ptr v1) sz (Suc (length xs)) = xs @ [take_bit (8 * sz) x]"
    using elements_store [OF arr(1) vs(8)] vs(4,7) by simp
  have "?P (v1\<lparr>vec_len := vec_len v1 + 1\<rparr>) w2"
    if "heap_world pv g (L \<union> vec_buf sz v1) w2" "the_heap w2 = ?f (the_heap w1)" "blocks_kept (L \<union> vec_buf sz v1 - {?b}) w1 w2" for w2
  proof -
    have "vec_buf sz (v1\<lparr>vec_len := vec_len v1 + 1\<rparr>) = vec_buf sz v1" by (simp add: vec_buf_def)
    then have "vec_state pv g L sz (v1\<lparr>vec_len := vec_len v1 + 1\<rparr>) (xs @ [take_bit (8 * sz) x]) w2"
      using that(1,2) vs stored by (simp add: vec_state_def)
    moreover have "blocks_kept L w w2" using blocks_kept_trans [OF _ that(3), of L w L] r buf(1,3) by blast
    ultimately show ?thesis using r by simp
  qed
  then show "achieves pf ?e (bindB (update_heap (\<lambda>m. heap_store sz m (elem (vec_ptr v1) sz (vec_len v1)) x))
      (\<lambda>_. ret (v1\<lparr>vec_len := vec_len v1 + 1\<rparr>))) ?P w1"
    unfolding vs(4) by (intro achieves_bind [OF achieves_update [where f = ?f, OF w1 vs(1) buf(2) out]] achieves_ret) blast+
qed

lemma achieves_vec_drop:
  assumes "console_ready pf w" and "vec_state pv g L sz v xs w"
  shows "achieves pf (provision_made pv) (vec_drop pf sz v) (\<lambda>_ w'. heap_world pv g L w' \<and> blocks_kept L w w') w"
proof (cases "vec_cap v = 0")
  case True
  then show ?thesis using assms by (auto simp: vec_drop_def vec_state_def vec_buf_def intro!: achieves_ret)
next
  case False
  let ?b = "(vec_ptr v, vec_layout sz (vec_cap v))"
  have h: "heap_world pv g (insert ?b L) w" "insert ?b L - {?b} = L" using assms(2) False by (auto simp: vec_state_def vec_buf_def)
  show ?thesis using achieves_free [OF assms(1) h(1) insertI1, unfolded h(2)] False by (simp add: vec_drop_def)
qed

text \<open>What \<open>n\<close> pushes may cost.\<close>

fun push_cost :: "nat \<Rightarrow> nat \<Rightarrow> nat \<Rightarrow> nat \<Rightarrow> nat" where
  "push_cost sz cap len 0 = 0"
| "push_cost sz cap len (Suc n) =
     (if len = cap then growth_cost sz cap + push_cost sz (grown_cap sz cap) (Suc len) n else push_cost sz cap (Suc len) n)"

lemma push_cost_free: "len + n \<le> cap \<Longrightarrow> push_cost sz cap len n = 0"
  by (induction n arbitrary: len) auto

lemma push_cost_skip: "len + k = cap \<Longrightarrow> push_cost sz cap len (k + n) = push_cost sz cap cap n"
  by (induction k arbitrary: len) auto

text \<open>The number of pushes up to the next growth is skipped at once.\<close>

lemma push_cost_step:
  assumes "0 < n"
  shows "push_cost sz cap cap n = growth_cost sz cap
    + (if n \<le> grown_cap sz cap - cap then 0 else push_cost sz (grown_cap sz cap) (grown_cap sz cap) (n - (grown_cap sz cap - cap)))"
proof -
  obtain m where n: "n = Suc m" using assms by (cases n) auto
  have g: "cap < grown_cap sz cap" by (auto simp: grown_cap_def)
  have "push_cost sz (grown_cap sz cap) (Suc cap) m = (if n \<le> grown_cap sz cap - cap then 0
      else push_cost sz (grown_cap sz cap) (grown_cap sz cap) (n - (grown_cap sz cap - cap)))"
  proof (cases "n \<le> grown_cap sz cap - cap")
    case True
    then show ?thesis using n g by (simp add: push_cost_free)
  next
    case False
    then show ?thesis
      using push_cost_skip [of "Suc cap" "grown_cap sz cap - Suc cap" "grown_cap sz cap" sz "n - (grown_cap sz cap - cap)"] n g by simp
  qed
  then show ?thesis using n by simp
qed

lemma push_costs: "push_cost 8 0 0 100 = 96" "push_cost 4 0 0 20000 = 240"
  by (simp_all add: push_cost_step growth_cost_def growth_pages_def grown_cap_def min_non_zero_cap_def vec_layout_def
      del: push_cost.simps)

end
