(* ===== verification/Heap_Test.thy ===== *)
theory Heap_Test
  imports Alloc_Rules Frame_Test
begin

unbundle bit_operations_syntax

text \<open>
  The boot self-test of the kernel heap (\<open>run_heap_boot_self_test\<close> in \<open>main.rs\<close>): a box, a hundred
  boxes in a vector, a vector of twenty thousand numbers, and a block taken and returned five times.
\<close>

section \<open>The test\<close>

text \<open>A failed check: the message, and then the locals are dropped.\<close>

definition failed :: "platform \<Rightarrow> string \<Rightarrow> unit boot \<Rightarrow> bool boot" where
  "failed pf msg cleanup = say pf (''  FAIL: '' @ msg @ CRLF) (bindB cleanup (\<lambda>_. ret False))"

definition SMALL_COUNT :: nat where "SMALL_COUNT = 100"

definition LARGE_COUNT :: nat where "LARGE_COUNT = 20000"

definition box_test :: "platform \<Rightarrow> bool boot \<Rightarrow> bool boot" where
  "box_test pf m =
     bindB (box_new pf 0xDEADBEEFCAFEBABE) (\<lambda>boxed. on_heap (\<lambda>h.
       if boxed < 0xFFFF880000000000 \<or> 0xFFFFFFFF80000000 \<le> boxed
       then failed pf ''heap allocation address is outside the kernel heap region (ADR-002).'' (box_drop pf boxed)
       else if heap_load 8 h boxed \<noteq> 0xDEADBEEFCAFEBABE
       then failed pf ''Box value did not round-trip correctly.'' (box_drop pf boxed)
       else passed pf ''Box<u64> allocated in the correct heap region, value round-tripped.''
         (bindB (box_drop pf boxed) (\<lambda>_. m))))"

primrec push_boxes :: "platform \<Rightarrow> nat \<Rightarrow> nat \<Rightarrow> vec \<Rightarrow> vec boot" where
  "push_boxes pf 0 i v = ret v"
| "push_boxes pf (Suc n) i v =
     bindB (box_new pf (of_nat i)) (\<lambda>p. bindB (vec_push pf 8 v p) (push_boxes pf n (i + 1)))"

text \<open>Dropping a vector of boxes drops the boxes first.\<close>

primrec drop_boxes :: "platform \<Rightarrow> nat \<Rightarrow> nat \<Rightarrow> vec \<Rightarrow> unit boot" where
  "drop_boxes pf 0 i v = vec_drop pf 8 v"
| "drop_boxes pf (Suc n) i v = on_heap (\<lambda>h.
     bindB (box_drop pf (heap_load 8 h (elem (vec_ptr v) 8 i))) (\<lambda>_. drop_boxes pf n (i + 1) v))"

definition small_test :: "platform \<Rightarrow> bool boot \<Rightarrow> bool boot" where
  "small_test pf m =
     bindB (push_boxes pf SMALL_COUNT 0 (vec_new 8)) (\<lambda>small_allocs. on_heap (\<lambda>h.
       let ptrs = vec_elements h 8 small_allocs; cleanup = drop_boxes pf (vec_len small_allocs) 0 small_allocs in
       if length ptrs < SMALL_COUNT then panic_handler pf IndexOutOfBounds
       else if same_twice (take SMALL_COUNT ptrs)
       then failed pf ''two live heap allocations share the same address.'' cleanup
       else if list_ex (\<lambda>(i, b). heap_load 8 h b \<noteq> of_nat i) (List.enumerate 0 ptrs)
       then failed pf (''a small allocation'' @ [CHR 0x27] @ ''s value was corrupted.'') cleanup
       else passed pf ''100 small allocations, all distinct addresses, all values intact.'' (bindB cleanup (\<lambda>_. m))))"

primrec push_numbers :: "platform \<Rightarrow> nat \<Rightarrow> nat \<Rightarrow> vec \<Rightarrow> vec boot" where
  "push_numbers pf 0 i v = ret v"
| "push_numbers pf (Suc n) i v = bindB (vec_push pf 4 v (ucast (of_nat i :: u32))) (push_numbers pf n (i + 1))"

definition large_test :: "platform \<Rightarrow> bool boot \<Rightarrow> bool boot" where
  "large_test pf m =
     bindB (push_numbers pf LARGE_COUNT 0 (vec_new 4)) (\<lambda>large_vec. on_heap (\<lambda>h.
       if vec_len large_vec \<noteq> LARGE_COUNT
       then failed pf ''large Vec did not reach the expected length.'' (vec_drop pf 4 large_vec)
       else if sum_list (vec_elements h 4 large_vec) \<noteq> sum_list (List.map of_nat [0..<LARGE_COUNT])
       then failed pf ''large Vec contents were corrupted (checksum mismatch).'' (vec_drop pf 4 large_vec)
       else passed pf ''20,000-element Vec<u32> (multiple growth cycles) built and checksum verified.''
         (bindB (vec_drop pf 4 large_vec) (\<lambda>_. m))))"

primrec churn_test :: "platform \<Rightarrow> nat \<Rightarrow> bool boot \<Rightarrow> bool boot" where
  "churn_test pf 0 m = m"
| "churn_test pf (Suc n) m =
     bindB (vec_filled pf 0xAA 8192) (\<lambda>churn. on_heap (\<lambda>h.
       if vec_len churn \<noteq> 8192 \<or> heap_load 1 h (elem (vec_ptr churn) 1 0) \<noteq> 0xAA
         \<or> heap_load 1 h (elem (vec_ptr churn) 1 8191) \<noteq> 0xAA
       then failed pf ''churned allocation had incorrect contents.'' (vec_drop pf 1 churn)
       else bindB (vec_drop pf 1 churn) (\<lambda>_. churn_test pf n m)))"

definition run_heap_boot_self_test :: "platform \<Rightarrow> bool boot" where
  "run_heap_boot_self_test pf =
     say pf (CRLF @ ''Running kernel heap allocator boot self-test...'' @ CRLF) (
     box_test pf (small_test pf (large_test pf (churn_test pf 5 (
       passed pf ''Repeated large alloc/free cycles completed (freed space is being reused).'' (
       say pf (''Kernel heap allocator boot self-test: ALL CHECKS PASSED.'' @ CRLF) (ret True)))))))"

section \<open>The loops\<close>

lemma achieves_say:
  "console_ready pf w \<Longrightarrow> (\<And>t. console_ready pf (w\<lparr>io := t\<rparr>) \<Longrightarrow> achieves pf e m P (w\<lparr>io := t\<rparr>)) \<Longrightarrow> achieves pf e (say pf s m) P w"
  unfolding achieves_def by (rule ends_say)

lemma achieves_passed:
  "console_ready pf w \<Longrightarrow> (\<And>t. console_ready pf (w\<lparr>io := t\<rparr>) \<Longrightarrow> achieves pf e m P (w\<lparr>io := t\<rparr>)) \<Longrightarrow> achieves pf e (passed pf s m) P w"
  unfolding achieves_def by (rule ends_passed)

lemma achieves_on_heap: "achieves pf e (f (the_heap w)) P w \<Longrightarrow> achieves pf e (on_heap f) P w"
  by (simp add: achieves_def ends_def on_heap_def)

definition boxes :: "u64 list \<Rightarrow> (u64 \<times> layout) set" where
  "boxes ps = (\<lambda>p. (p, box_layout)) ` set ps"

text \<open>A vector of boxes that hold their own numbers.\<close>

definition boxes_state :: "provision \<Rightarrow> nat \<Rightarrow> vec \<Rightarrow> u64 list \<Rightarrow> world \<Rightarrow> bool" where
  "boxes_state pv g v ps w \<longleftrightarrow> vec_state pv g (boxes ps) 8 v ps w \<and> distinct ps
     \<and> (\<forall>j<length ps. heap_load 8 (the_heap w) (ps ! j) = of_nat j)"

lemma box_growth [simp]: "growth_pages box_layout = 16"
  by (simp add: growth_pages_def)

lemma boxes_snoc [simp]: "boxes (ps @ [p]) = insert (p, box_layout) (boxes ps)"
  by (auto simp: boxes_def)

lemma box_in [simp]: "(p, box_layout) \<in> boxes ps \<longleftrightarrow> p \<in> set ps"
  by (auto simp: boxes_def)

lemma boxes_loads_kept:
  assumes "heap_world pv g live w" and "boxes ps \<subseteq> live" and "blocks_kept (boxes ps) w w'" and "j < length ps"
  shows "heap_load 8 (the_heap w') (ps ! j) = heap_load 8 (the_heap w) (ps ! j)"
proof (rule box_load_kept [OF assms(1)])
  have b: "(ps ! j, box_layout) \<in> boxes ps" using assms(4) by simp
  show "(ps ! j, box_layout) \<in> live" using b assms(2) by blast
  show "blocks_kept {(ps ! j, box_layout)} w w'" using b assms(3) by (simp add: blocks_kept_def)
qed

lemma push_box:
  assumes con: "console_ready pf w" and s: "boxes_state pv (16 + push_cost 8 (vec_cap v) (length ps) (Suc n) + g) v ps w"
    and len: "length ps \<le> 2 ^ 32"
  shows "achieves pf (provision_made pv) (bindB (box_new pf (of_nat (length ps))) (vec_push pf 8 v))
    (\<lambda>v' w'. \<exists>p. boxes_state pv (push_cost 8 (vec_cap v') (Suc (length ps)) n + g) v' (ps @ [p]) w' \<and> ints w' = ints w) w"
    (is "achieves pf ?e _ ?P w")
proof -
  let ?i = "length ps" and ?c = "if length ps = vec_cap v then growth_cost 8 (vec_cap v) else 0"
  let ?cap = "if length ps = vec_cap v then grown_cap 8 (vec_cap v) else vec_cap v"
  let ?g = "push_cost 8 ?cap (Suc ?i) n + g"
  have cost: "16 + push_cost 8 (vec_cap v) ?i (Suc n) + g = growth_pages box_layout + (?c + ?g)" by simp
  have vs: "vec_state pv (growth_pages box_layout + (?c + ?g)) (boxes ps) 8 v ps w" "distinct ps"
    "\<And>j. j < ?i \<Longrightarrow> heap_load 8 (the_heap w) (ps ! j) = of_nat j"
    using s unfolding boxes_state_def cost by blast+
  have hw: "heap_world pv (growth_pages box_layout + (?c + ?g)) (boxes ps \<union> vec_buf 8 v) w" "boxes ps \<inter> vec_buf 8 v = {}"
    using vs(1) by (simp_all add: vec_state_def)
  show ?thesis
  proof (rule achieves_bind [OF achieves_box_new [OF con hw(1)]], elim conjE)
    fix p w1
    assume w1: "console_ready pf w1" "heap_world pv (?c + ?g) (insert (p, box_layout) (boxes ps \<union> vec_buf 8 v)) w1"
      "(p, box_layout) \<notin> boxes ps \<union> vec_buf 8 v" "blocks_kept (boxes ps \<union> vec_buf 8 v) w w1"
      "heap_load 8 (the_heap w1) p = of_nat ?i"
    let ?B = "boxes (ps @ [p])"
    have kept: "blocks_kept (boxes ps) w w1" "blocks_kept (vec_buf 8 v) w w1" using w1(4) by (auto simp: blocks_kept_def)
    have v1: "vec_state pv (?c + ?g) ?B 8 v ps w1"
      by (rule vec_state_kept [OF vs(1) kept(2)]) (use w1(2,3) hw(2) in auto)
    have loads1: "heap_load 8 (the_heap w1) ((ps @ [p]) ! j) = of_nat j" if "j < Suc ?i" for j
      using that w1(5) vs(3) [of j] boxes_loads_kept [OF hw(1) _ kept(1), of j] by (auto simp: nth_append less_Suc_eq)
    have "?P v2 w2" if w2: "vec_state pv ?g ?B 8 v2 (ps @ [take_bit (8 * 8) p]) w2" "blocks_kept ?B w1 w2" "vec_cap v2 = ?cap" for v2 w2
    proof -
      have p: "take_bit (8 * 8) p = p" using take_bit_length_eq [of p] by simp
      have "heap_load 8 (the_heap w2) ((ps @ [p]) ! j) = of_nat j" if "j < Suc ?i" for j
        using boxes_loads_kept [OF w1(2) _ w2(2), of j] loads1 [OF that] that by auto
      then have "boxes_state pv (push_cost 8 (vec_cap v2) (Suc ?i) n + g) v2 (ps @ [p]) w2"
        using w2(1) vs(2) w1(3) unfolding boxes_state_def p w2(3) by auto
      moreover have "ints w2 = ints w" using w2(2) w1(4) by (simp add: blocks_kept_def)
      ultimately show ?thesis by blast
    qed
    then show "achieves pf ?e (vec_push pf 8 v p) ?P w1"
      by (intro achieves_mono [OF achieves_push [OF w1(1) v1 len]]) blast
  qed
qed

lemma bindB_assoc: "bindB (bindB m f) g = bindB m (\<lambda>x. bindB (f x) g)"
  by (rule ext) (auto simp: bindB_def split: option.splits sum.splits)

lemma achieves_push_boxes:
  assumes "console_ready pf w" and "boxes_state pv (16 * n + push_cost 8 (vec_cap v) (length ps) n + g) v ps w"
    and "length ps + n \<le> 2 ^ 32"
  shows "achieves pf (provision_made pv) (push_boxes pf n (length ps) v)
    (\<lambda>v' w'. \<exists>ps'. boxes_state pv g v' ps' w' \<and> length ps' = length ps + n \<and> ints w' = ints w) w"
  using assms
proof (induction n arbitrary: v ps w)
  case 0
  then show ?case by (auto intro!: achieves_ret)
next
  case (Suc n)
  have cost: "16 * Suc n + push_cost 8 (vec_cap v) (length ps) (Suc n) + g
      = 16 + push_cost 8 (vec_cap v) (length ps) (Suc n) + (16 * n + g)" by simp
  have step: "push_boxes pf (Suc n) (length ps) v
      = bindB (bindB (box_new pf (of_nat (length ps))) (vec_push pf 8 v)) (push_boxes pf n (Suc (length ps)))"
    by (simp add: bindB_assoc)
  have s: "boxes_state pv (16 + push_cost 8 (vec_cap v) (length ps) (Suc n) + (16 * n + g)) v ps w"
    using Suc.prems(2) unfolding cost .
  show ?case
    unfolding step
  proof (rule achieves_bind [OF push_box [OF Suc.prems(1) s]])
    show "length ps \<le> 2 ^ 32" using Suc.prems(3) by simp
    fix v1 w1
    assume w1: "console_ready pf w1"
      and "\<exists>p. boxes_state pv (push_cost 8 (vec_cap v1) (Suc (length ps)) n + (16 * n + g)) v1 (ps @ [p]) w1 \<and> ints w1 = ints w"
    then obtain p where p: "boxes_state pv (16 * n + push_cost 8 (vec_cap v1) (length (ps @ [p])) n + g) v1 (ps @ [p]) w1" "ints w1 = ints w"
      by (auto simp: ac_simps)
    show "achieves pf (provision_made pv) (push_boxes pf n (Suc (length ps)) v1)
        (\<lambda>v' w'. \<exists>ps'. boxes_state pv g v' ps' w' \<and> length ps' = length ps + Suc n \<and> ints w' = ints w) w1"
      using Suc.IH [OF w1 p(1)] Suc.prems(3) p(2) by simp
  qed
qed

lemma achieves_drop_boxes:
  assumes "console_ready pf w" and "vec_state pv g (boxes (drop i ps)) 8 v ps w" and "distinct ps" and "length ps = i + n"
  shows "achieves pf (provision_made pv) (drop_boxes pf n i v) (\<lambda>_ w'. heap_world pv g {} w' \<and> ints w' = ints w) w"
  using assms
proof (induction n arbitrary: i w)
  case 0
  then have "vec_state pv g {} 8 v ps w" by (simp add: boxes_def)
  from achieves_vec_drop [OF 0(1) this] show ?case by (auto intro: achieves_mono simp: blocks_kept_def)
next
  case (Suc n)
  let ?p = "ps ! i"
  have i: "drop i ps = ?p # drop (Suc i) ps" "i < length ps" using Suc.prems(4) by (simp_all add: Cons_nth_drop_Suc)
  have vs: "heap_world pv g (boxes (drop i ps) \<union> vec_buf 8 v) w" "boxes (drop i ps) \<inter> vec_buf 8 v = {}"
    "vec_len v = length ps" "vec_elements (the_heap w) 8 v = ps"
    using Suc.prems(2) unfolding vec_state_def by blast+
  have "heap_load 8 (the_heap w) (elem (vec_ptr v) 8 i) = vec_elements (the_heap w) 8 v ! i" using vs(3) i(2) by simp
  then have load: "heap_load 8 (the_heap w) (elem (vec_ptr v) 8 i) = ?p" by (simp only: vs(4))
  have p: "(?p, box_layout) \<in> boxes (drop i ps) \<union> vec_buf 8 v" using i(1) by simp
  have "?p \<notin> set (drop (Suc i) ps)" using Suc.prems(3) i(1) by (metis distinct.simps(2) distinct_drop)
  moreover have "(?p, box_layout) \<notin> vec_buf 8 v" using vs(2) i(1) by (auto simp: boxes_def)
  ultimately have rest: "boxes (drop i ps) \<union> vec_buf 8 v - {(?p, box_layout)} = boxes (drop (Suc i) ps) \<union> vec_buf 8 v"
    using i(1) by (auto simp: boxes_def)
  show ?case
    unfolding drop_boxes.simps
  proof (rule achieves_on_heap, unfold load box_drop_def, rule achieves_bind [OF achieves_free [OF Suc.prems(1) vs(1) p]], unfold rest, elim conjE)
    fix w1
    assume w1: "console_ready pf w1" "heap_world pv g (boxes (drop (Suc i) ps) \<union> vec_buf 8 v) w1"
      "blocks_kept (boxes (drop (Suc i) ps) \<union> vec_buf 8 v) w w1"
    have "vec_state pv g (boxes (drop (Suc i) ps)) 8 v ps w1"
      by (rule vec_state_kept [OF Suc.prems(2) _ w1(2)]) (use w1(3) vs(2) i(1) in \<open>auto simp: blocks_kept_def boxes_def\<close>)
    then show "achieves pf (provision_made pv) (drop_boxes pf n (i + 1) v) (\<lambda>_ w'. heap_world pv g {} w' \<and> ints w' = ints w) w1"
      using Suc.IH [OF w1(1), of "Suc i"] Suc.prems(3,4) w1(3) by (simp add: blocks_kept_def)
  qed
qed

lemma small_number:
  assumes "i < 2 ^ 32"
  shows "take_bit 32 (ucast (of_nat i :: u32)) = (of_nat i :: u64)"
proof -
  have "take_bit 32 (ucast (of_nat i :: u32)) = (ucast (of_nat i :: u32) :: u64)" by (rule bit_word_eqI) (auto simp: bit_simps dest: bit_imp_le_length)
  also have "\<dots> = of_nat i" using assms by (simp add: word_unat_eq_iff unat_of_nat unsigned_ucast_eq take_bit_nat_eq_self)
  finally show ?thesis .
qed

lemma achieves_push_numbers:
  assumes "console_ready pf w" and "vec_state pv (push_cost 4 (vec_cap v) i n + g) {} 4 v (List.map of_nat [0..<i]) w"
    and "i + n < 2 ^ 32"
  shows "achieves pf (provision_made pv) (push_numbers pf n i v)
    (\<lambda>v' w'. vec_state pv g {} 4 v' (List.map of_nat [0..<i + n]) w' \<and> ints w' = ints w) w"
  using assms
proof (induction n arbitrary: v i w)
  case 0
  then show ?case by (auto intro!: achieves_ret)
next
  case (Suc n)
  let ?xs = "List.map of_nat [0..<i] :: u64 list"
  let ?cap = "if i = vec_cap v then grown_cap 4 (vec_cap v) else vec_cap v"
  have cost: "push_cost 4 (vec_cap v) i (Suc n) + g
      = (if length ?xs = vec_cap v then growth_cost 4 (vec_cap v) else 0) + (push_cost 4 ?cap (Suc i) n + g)" by simp
  have vs: "vec_state pv ((if length ?xs = vec_cap v then growth_cost 4 (vec_cap v) else 0) + (push_cost 4 ?cap (Suc i) n + g)) {} 4 v ?xs w"
    using Suc.prems(2) unfolding cost .
  have len: "length ?xs \<le> 2 ^ 32" and num: "take_bit (8 * 4) (ucast (of_nat i :: u32)) = (of_nat i :: u64)"
    using Suc.prems(3) small_number [of i] by simp_all
  show ?case
    unfolding push_numbers.simps
  proof (rule achieves_bind [OF achieves_push [OF Suc.prems(1) vs len]], unfold num, elim conjE)
    fix v1 w1
    assume w1: "console_ready pf w1" "vec_state pv (push_cost 4 ?cap (Suc i) n + g) {} 4 v1 (?xs @ [of_nat i]) w1" "blocks_kept {} w w1"
      "vec_cap v1 = (if length ?xs = vec_cap v then grown_cap 4 (vec_cap v) else vec_cap v)"
    have cap: "vec_cap v1 = ?cap" using w1(4) by simp
    have "vec_state pv (push_cost 4 (vec_cap v1) (Suc i) n + g) {} 4 v1 (List.map of_nat [0..<Suc i]) w1"
      using w1(2) unfolding cap by simp
    from Suc.IH [OF w1(1) this] show "achieves pf (provision_made pv) (push_numbers pf n (i + 1) v1)
        (\<lambda>v' w'. vec_state pv g {} 4 v' (List.map of_nat [0..<i + Suc n]) w' \<and> ints w' = ints w) w1"
      using Suc.prems(3) w1(3) by (simp add: blocks_kept_def)
  qed
qed

lemma fill_bytes:
  assumes "array_ok p 1 n" and "k \<le> n"
  shows "elements (fold (\<lambda>i m. heap_store 1 m (elem p 1 i) x) [0..<k] m) p 1 k = replicate k (take_bit 8 x)
    \<and> (\<forall>y. unat y \<notin> array_bytes p 1 n \<longrightarrow> fold (\<lambda>i m. heap_store 1 m (elem p 1 i) x) [0..<k] m y = m y)"
  using assms(2)
proof (induction k)
  case (Suc k)
  then show ?case
    using elements_store [OF assms(1), where k = k and v = x] heap_store_outside [OF assms(1), where i = k]
    by (simp add: replicate_append_same)
qed (simp add: elements_def)

lemma achieves_filled:
  assumes con: "console_ready pf w" and hw: "heap_world pv (growth_pages (vec_layout 1 n) + g) {} w"
    and n: "0 < n" "n \<le> 2 ^ 33" "8 dvd n"
  shows "achieves pf (provision_made pv) (vec_filled pf x n)
    (\<lambda>v w'. vec_state pv g {} 1 v (replicate n (ucast x)) w' \<and> ints w' = ints w) w"
    (is "achieves pf ?e _ ?P w")
  unfolding vec_filled_def
proof (rule achieves_bind [OF achieves_alloc [OF con hw]], rule vec_layout_facts [OF _ n(2)], simp, rule vec_layout_facts [OF _ n(2)], simp, elim conjE)
  fix p w1
  let ?f = "\<lambda>m. fold (\<lambda>i m. heap_store 1 m (elem p 1 i) (ucast x)) [0..<n] m" and ?v = "\<lparr>vec_ptr = p, vec_cap = n, vec_len = n\<rparr>"
  assume w1: "console_ready pf w1" "heap_world pv g (insert (p, vec_layout 1 n) {}) w1" "blocks_kept {} w w1"
  have arr: "array_ok p 1 n" "array_bytes p 1 n \<subseteq> block_bytes p (vec_layout 1 n)"
    using vec_array [OF w1(2) insertI1] n(2) by simp_all
  have byte: "take_bit 8 (ucast x) = (ucast x :: u64)" by (rule bit_word_eqI) (auto simp: bit_simps dest: bit_imp_le_length)
  note fill = fill_bytes [OF arr(1) order_refl, of "ucast x" "the_heap w1", unfolded byte]
  have out: "?f (the_heap w1) y = the_heap w1 y" if "unat y \<notin> block_bytes p (vec_layout 1 n)" for y
    using fill arr(2) that by blast
  have "?P ?v w2" if "heap_world pv g (insert (p, vec_layout 1 n) {}) w2" "the_heap w2 = ?f (the_heap w1)"
    "blocks_kept (insert (p, vec_layout 1 n) {} - {(p, vec_layout 1 n)}) w1 w2" for w2
    using that fill n w1(3) by (simp add: vec_state_def vec_buf_def blocks_kept_def)
  then show "achieves pf ?e (bindB (update_heap ?f) (\<lambda>_. ret ?v)) ?P w1"
    by (intro achieves_bind [OF achieves_update [where f = ?f, OF w1(1,2) insertI1 out]] achieves_ret) blast+
qed

section \<open>The checks\<close>

lemma box_test:
  assumes con: "console_ready pf w" and hw: "heap_world pv (16 + g) {} w"
    and m: "\<And>w'. console_ready pf w' \<Longrightarrow> heap_world pv g {} w' \<Longrightarrow> ints w' = ints w \<Longrightarrow> achieves pf (provision_made pv) m P w'"
  shows "achieves pf (provision_made pv) (box_test pf m) P w"
proof -
  have hw': "heap_world pv (growth_pages box_layout + g) {} w" using hw by simp
  show ?thesis
    unfolding box_test_def
  proof (rule achieves_bind [OF achieves_box_new [OF con hw']], elim conjE, rule achieves_on_heap)
    fix p w1
    assume w1: "console_ready pf w1" "heap_world pv g (insert (p, box_layout) {}) w1" "blocks_kept {} w w1"
      "heap_load 8 (the_heap w1) p = 0xDEADBEEFCAFEBABE"
    have "unat p \<in> block_bytes p box_layout" using heap_world_block(3) [OF w1(2) insertI1] by auto
    then have "unat p \<in> {0xFFFF880000000000..<0xFFFFFFFF80000000}" using heap_world_block(4) [OF w1(2) insertI1] by blast
    then have range: "\<not> (p < 0xFFFF880000000000 \<or> 0xFFFFFFFF80000000 \<le> p)" by (simp add: word_less_nat_alt word_le_nat_alt)
    have drop: "achieves pf (provision_made pv) (bindB (box_drop pf p) (\<lambda>_. m)) P (w1\<lparr>io := t\<rparr>)"
      if t: "console_ready pf (w1\<lparr>io := t\<rparr>)" for t
    proof -
      have "heap_world pv g (insert (p, box_layout) {}) (w1\<lparr>io := t\<rparr>)" using w1(2) by simp
      from achieves_free [OF t this insertI1] show ?thesis
        unfolding box_drop_def using w1(3) m by (elim achieves_bind) (auto simp: blocks_kept_def)
    qed
    show "achieves pf (provision_made pv)
       (if p < 0xFFFF880000000000 \<or> 0xFFFFFFFF80000000 \<le> p
        then failed pf ''heap allocation address is outside the kernel heap region (ADR-002).'' (box_drop pf p)
        else if heap_load 8 (the_heap w1) p \<noteq> 0xDEADBEEFCAFEBABE
        then failed pf ''Box value did not round-trip correctly.'' (box_drop pf p)
        else passed pf ''Box<u64> allocated in the correct heap region, value round-tripped.''
          (bindB (box_drop pf p) (\<lambda>_. m))) P w1"
      unfolding if_not_P [OF range] w1(4) using achieves_passed [OF w1(1) drop] by simp
  qed
qed

lemma small_test:
  assumes con: "console_ready pf w" and hw: "heap_world pv (1696 + g) {} w"
    and m: "\<And>w'. console_ready pf w' \<Longrightarrow> heap_world pv g {} w' \<Longrightarrow> ints w' = ints w \<Longrightarrow> achieves pf (provision_made pv) m P w'"
  shows "achieves pf (provision_made pv) (small_test pf m) P w"
proof -
  have start: "boxes_state pv (16 * SMALL_COUNT + push_cost 8 (vec_cap (vec_new 8)) (length ([] :: u64 list)) SMALL_COUNT + g) (vec_new 8) [] w"
    using hw by (simp add: boxes_state_def vec_state_def vec_buf_def vec_new_def boxes_def elements_def SMALL_COUNT_def push_costs)
  have len: "length ([] :: u64 list) + SMALL_COUNT \<le> 2 ^ 32" by (simp add: SMALL_COUNT_def)
  show ?thesis
    unfolding small_test_def
  proof (rule achieves_bind [OF achieves_push_boxes [OF con start len, unfolded list.size(3)]], elim exE conjE, rule achieves_on_heap)
    fix v w1 ps
    assume w1: "console_ready pf w1" "boxes_state pv g v ps w1" "length ps = 0 + SMALL_COUNT" "ints w1 = ints w"
    have vs: "vec_state pv g (boxes ps) 8 v ps w1" "distinct ps" "\<And>j. j < length ps \<Longrightarrow> heap_load 8 (the_heap w1) (ps ! j) = of_nat j"
      "vec_elements (the_heap w1) 8 v = ps" "vec_len v = length ps"
      using w1(2) unfolding boxes_state_def vec_state_def by blast+
    have twice: "\<not> same_twice (take SMALL_COUNT ps)" using not_same_twice [of id ps] vs(2) w1(3) by simp
    have vals: "\<not> list_ex (\<lambda>(i, b). heap_load 8 (the_heap w1) b \<noteq> of_nat i) (List.enumerate 0 ps)"
      using vs(3) by (auto simp: list_ex_iff in_set_enumerate_eq)
    have drop: "achieves pf (provision_made pv) (bindB (drop_boxes pf (vec_len v) 0 v) (\<lambda>_. m)) P (w1\<lparr>io := t\<rparr>)"
      if t: "console_ready pf (w1\<lparr>io := t\<rparr>)" for t
    proof -
      have "vec_state pv g (boxes (drop 0 ps)) 8 v ps (w1\<lparr>io := t\<rparr>)" using vs(1) by simp
      from achieves_drop_boxes [OF t this vs(2), of "vec_len v"] show ?thesis
        using w1(4) m vs(5) by (auto elim!: achieves_bind)
    qed
    show "achieves pf (provision_made pv)
       (let ptrs = vec_elements (the_heap w1) 8 v; cleanup = drop_boxes pf (vec_len v) 0 v in
        if length ptrs < SMALL_COUNT then panic_handler pf IndexOutOfBounds
        else if same_twice (take SMALL_COUNT ptrs)
        then failed pf ''two live heap allocations share the same address.'' cleanup
        else if list_ex (\<lambda>(i, b). heap_load 8 (the_heap w1) b \<noteq> of_nat i) (List.enumerate 0 ptrs)
        then failed pf (''a small allocation'' @ [CHR 0x27] @ ''s value was corrupted.'') cleanup
        else passed pf ''100 small allocations, all distinct addresses, all values intact.'' (bindB cleanup (\<lambda>_. m))) P w1"
      unfolding Let_def vs(4) if_not_P [OF twice] if_not_P [OF vals] using achieves_passed [OF w1(1) drop] w1(3) by simp
  qed
qed

lemma large_test:
  assumes con: "console_ready pf w" and hw: "heap_world pv (240 + g) {} w"
    and m: "\<And>w'. console_ready pf w' \<Longrightarrow> heap_world pv g {} w' \<Longrightarrow> ints w' = ints w \<Longrightarrow> achieves pf (provision_made pv) m P w'"
  shows "achieves pf (provision_made pv) (large_test pf m) P w"
proof -
  have start: "vec_state pv (push_cost 4 (vec_cap (vec_new 4)) 0 LARGE_COUNT + g) {} 4 (vec_new 4) (List.map of_nat [0..<0]) w"
    using hw by (simp add: vec_state_def vec_buf_def vec_new_def elements_def LARGE_COUNT_def push_costs)
  have len: "0 + LARGE_COUNT < 2 ^ 32" by (simp add: LARGE_COUNT_def)
  show ?thesis
    unfolding large_test_def
  proof (rule achieves_bind [OF achieves_push_numbers [OF con start len]], elim conjE, rule achieves_on_heap)
    fix v w1
    assume w1: "console_ready pf w1" "vec_state pv g {} 4 v (List.map of_nat [0..<0 + LARGE_COUNT]) w1" "ints w1 = ints w"
    have vs: "vec_elements (the_heap w1) 4 v = List.map of_nat [0..<LARGE_COUNT]" "vec_len v = LARGE_COUNT"
      using vec_stateD [OF w1(2)] by simp_all
    have drop: "achieves pf (provision_made pv) (bindB (vec_drop pf 4 v) (\<lambda>_. m)) P (w1\<lparr>io := t\<rparr>)"
      if t: "console_ready pf (w1\<lparr>io := t\<rparr>)" for t
    proof -
      have "vec_state pv g {} 4 v (List.map of_nat [0..<0 + LARGE_COUNT]) (w1\<lparr>io := t\<rparr>)" using w1(2) by simp
      from achieves_vec_drop [OF t this] show ?thesis
        using w1(3) m by (auto elim!: achieves_bind simp: blocks_kept_def)
    qed
    show "achieves pf (provision_made pv)
       (if vec_len v \<noteq> LARGE_COUNT
        then failed pf ''large Vec did not reach the expected length.'' (vec_drop pf 4 v)
        else if sum_list (vec_elements (the_heap w1) 4 v) \<noteq> sum_list (List.map of_nat [0..<LARGE_COUNT])
        then failed pf ''large Vec contents were corrupted (checksum mismatch).'' (vec_drop pf 4 v)
        else passed pf ''20,000-element Vec<u32> (multiple growth cycles) built and checksum verified.''
          (bindB (vec_drop pf 4 v) (\<lambda>_. m))) P w1"
      unfolding vs(1) using achieves_passed [OF w1(1) drop] vs(2) by simp
  qed
qed

lemma churn_test:
  assumes "console_ready pf w" and "heap_world pv (16 * n + g) {} w"
    and "\<And>w'. console_ready pf w' \<Longrightarrow> heap_world pv g {} w' \<Longrightarrow> ints w' = ints w \<Longrightarrow> achieves pf (provision_made pv) m P w'"
  shows "achieves pf (provision_made pv) (churn_test pf n m) P w"
  using assms
proof (induction n arbitrary: w)
  case (Suc n)
  have hw: "heap_world pv (growth_pages (vec_layout 1 8192) + (16 * n + g)) {} w"
    using Suc.prems(2) by (simp add: growth_pages_def vec_layout_def add.assoc)
  have fill: "achieves pf (provision_made pv) (vec_filled pf 0xAA 8192)
      (\<lambda>v w'. vec_state pv (16 * n + g) {} 1 v (replicate 8192 (ucast (0xAA :: u8))) w' \<and> ints w' = ints w) w"
    by (rule achieves_filled [OF Suc.prems(1) hw]) simp_all
  show ?case
    unfolding churn_test.simps
  proof (rule achieves_bind [OF fill], elim conjE, rule achieves_on_heap)
    fix v w1
    assume w1: "console_ready pf w1" "vec_state pv (16 * n + g) {} 1 v (replicate 8192 (ucast (0xAA :: u8))) w1" "ints w1 = ints w"
    have vs: "vec_elements (the_heap w1) 1 v = replicate 8192 (ucast (0xAA :: u8))" "vec_len v = 8192"
      using vec_stateD [OF w1(2)] by simp_all
    have byte: "heap_load 1 (the_heap w1) (elem (vec_ptr v) 1 i) = 0xAA" if "i < 8192" for i
      using arg_cong [OF vs(1), of "\<lambda>xs. xs ! i"] vs(2) that by simp
    show "achieves pf (provision_made pv)
       (if vec_len v \<noteq> 8192 \<or> heap_load 1 (the_heap w1) (elem (vec_ptr v) 1 0) \<noteq> 0xAA
          \<or> heap_load 1 (the_heap w1) (elem (vec_ptr v) 1 8191) \<noteq> 0xAA
        then failed pf ''churned allocation had incorrect contents.'' (vec_drop pf 1 v)
        else bindB (vec_drop pf 1 v) (\<lambda>_. churn_test pf n m)) P w1"
      using vs(2) byte [of 0] byte [of 8191] achieves_vec_drop [OF w1(1,2)] w1(3) Suc.prems(3)
      by (auto elim!: achieves_bind intro!: Suc.IH simp: blocks_kept_def simp del: elem_0)
  qed
qed simp

definition HEAP_TEST_PAGES :: nat where
  "HEAP_TEST_PAGES = 2032"

lemma heap_self_test:
  assumes con: "console_ready pf w" and hw: "heap_world pv (HEAP_TEST_PAGES + g) {} w"
  shows "achieves pf (provision_made pv) (run_heap_boot_self_test pf) (\<lambda>r w'. r \<and> heap_world pv g {} w' \<and> ints w' = ints w) w"
proof -
  let ?e = "provision_made pv" and ?P = "\<lambda>r w'. r \<and> heap_world pv g {} w' \<and> ints w' = ints w"
  let ?last = "passed pf ''Repeated large alloc/free cycles completed (freed space is being reused).'' (
    say pf (''Kernel heap allocator boot self-test: ALL CHECKS PASSED.'' @ CRLF) (ret True))"
  have last: "achieves pf ?e ?last ?P w'" if "console_ready pf w'" "heap_world pv g {} w'" "ints w' = ints w" for w'
    using that by (intro achieves_passed achieves_say achieves_ret) simp_all
  have churn: "achieves pf ?e (churn_test pf 5 ?last) ?P w'" if "console_ready pf w'" "heap_world pv (80 + g) {} w'" "ints w' = ints w" for w'
    using that last by (intro churn_test [of pf w' pv 5 g]) simp_all
  have large: "achieves pf ?e (large_test pf (churn_test pf 5 ?last)) ?P w'"
    if "console_ready pf w'" "heap_world pv (240 + (80 + g)) {} w'" "ints w' = ints w" for w'
    using that churn by (intro large_test [OF that(1,2)]) simp_all
  have small: "achieves pf ?e (small_test pf (large_test pf (churn_test pf 5 ?last))) ?P w'"
    if "console_ready pf w'" "heap_world pv (1696 + (240 + (80 + g))) {} w'" "ints w' = ints w" for w'
    using that large by (intro small_test [OF that(1,2)]) simp_all
  have "heap_world pv (16 + (1696 + (240 + (80 + g)))) {} w" using hw by (simp add: HEAP_TEST_PAGES_def)
  then show ?thesis
    unfolding run_heap_boot_self_test_def using con small
    by (intro achieves_say box_test [of pf _ pv "1696 + (240 + (80 + g))"]) simp_all
qed

end
