(* ===== verification/Kernel_Main.thy ===== *)
theory Kernel_Main
  imports Vmm_Test Heap_Test
begin

unbundle bit_operations_syntax

text \<open>
  The entry point of the kernel (\<open>kernel_main\<close> in \<open>main.rs\<close>) and its last act, the self-test of the
  exception path: a breakpoint that resumes, and a write to a read-only page that must not.
\<close>

section \<open>Steps on the globals and the tables\<close>

definition on_kern :: "(kernel \<Rightarrow> 'a boot) \<Rightarrow> 'a boot" where
  "on_kern f w = f (kern w) w"

definition with_kern :: "kernel \<Rightarrow> 'a boot \<Rightarrow> 'a boot" where
  "with_kern k m w = m (w\<lparr>kern := k\<rparr>)"

definition with_ints :: "(interrupt_state \<Rightarrow> interrupt_state) \<Rightarrow> 'a boot \<Rightarrow> 'a boot" where
  "with_ints f m w = m (w\<lparr>ints := f (ints w)\<rparr>)"

text \<open>Waiting for a lock that nobody will release, or for an instruction that faults again and again.\<close>

definition hang :: "'a boot" where
  "hang w = None"

section \<open>Exceptions\<close>

text \<open>
  The processor delivers exception \<open>v\<close> to the handler whose code is at the address in the gate, or
  finds none. \<open>m\<close> is the interrupted code, which goes on if the handler returns.
\<close>

definition raise_exception :: "platform \<Rightarrow> nat \<Rightarrow> u64 \<Rightarrow> u64 \<Rightarrow> 'a boot \<Rightarrow> 'a boot" where
  "raise_exception pf v error_code cr2 m w =
     (case delivered (links pf) (ints w) v of
        None \<Rightarrow> stop EarlyFault w
      | Some (entry, _, _) \<Rightarrow>
        (case List.find (\<lambda>i. handler_addr (links pf) i = entry) [0..<32] of
           None \<Rightarrow> stop EarlyFault w
         | Some i \<Rightarrow>
           (case handler (uart_dev pf) i (saved_frame pf v) error_code cr2 (io w) of
              None \<Rightarrow> None
            | Some (Resumed, t) \<Rightarrow> m (w\<lparr>io := t\<rparr>)
            | Some (Halted, t) \<Rightarrow> halt (InHandler i) (w\<lparr>io := t\<rparr>))))"

definition READONLY_TEST_VADDR :: u64 where
  "READONLY_TEST_VADDR = 0xFFFF880010000000"

definition readonly_flags :: page_flags where
  "readonly_flags = \<lparr>writable = False, no_execute = False\<rparr>"

text \<open>The block that maps the page: both locks are taken, and released at its end.\<close>

definition map_readonly_page :: "platform \<Rightarrow> 'a boot \<Rightarrow> 'a boot" where
  "map_readonly_page pf m = on_kern (\<lambda>k.
     case lock (FRAME_ALLOCATOR k) of None \<Rightarrow> hang | Some frame_guard \<Rightarrow>
     (case lock (VMM k) of None \<Rightarrow> hang | Some vmm_guard \<Rightarrow>
      let held = (\<lambda>c a. k\<lparr>machine := c, FRAME_ALLOCATOR := guard_deref_mut frame_guard (\<lambda>_. a), VMM := vmm_guard\<rparr>) in
      (case (guard_deref frame_guard, guard_deref vmm_guard) of
         (Some a, Some v) \<Rightarrow>
           with_kern (held (machine k) (Some a)) (
           call pf (allocate a) (\<lambda>(f, a).
           with_kern (held (machine k) (Some a)) (
           case f of None \<Rightarrow> panic_handler pf ExpectFailed | Some test_frame \<Rightarrow>
             call pf (vmm_map v (machine k) a (VirtAddr READONLY_TEST_VADDR) test_frame readonly_flags) (\<lambda>(r, c, a).
             with_kern (held c (Some a)) (
             if isl r then panic_handler pf ExpectFailed
             else with_kern (k\<lparr>machine := c, FRAME_ALLOCATOR := unlock (guard_deref_mut frame_guard (\<lambda>_. Some a)),
                 VMM := unlock vmm_guard\<rparr>) m)))))
       | (a, _) \<Rightarrow> with_kern (held (machine k) a) (panic_handler pf ExpectFailed))))"

text \<open>A write of one byte at the start of a word.\<close>

definition write_volatile_u8 :: "bool \<Rightarrow> cpu \<Rightarrow> u64 \<Rightarrow> u8 \<Rightarrow> u64 + cpu" where
  "write_volatile_u8 wp c addr x =
     (case hw_translate c addr of
        None \<Rightarrow> Inl 0b10
      | Some p \<Rightarrow> write_volatile wp c addr ((mem c (phys_as_u64 p) AND NOT 0xFF) OR ucast x))"

definition write_readonly_page :: "platform \<Rightarrow> 'a boot" where
  "write_readonly_page pf = on_cpu (\<lambda>c.
     case write_volatile_u8 (write_protect pf) c READONLY_TEST_VADDR 0xFF of
       Inl error_code \<Rightarrow> raise_exception pf 14 error_code READONLY_TEST_VADDR hang
     | Inr c \<Rightarrow> with_cpu c (halt EndOfBoot))"

definition run_interrupts_boot_self_test :: "platform \<Rightarrow> 'a boot" where
  "run_interrupts_boot_self_test pf =
     say pf (CRLF @ ''Running interrupts/exceptions boot self-test...'' @ CRLF) (
     say pf (''  Triggering INT3 (breakpoint)...'' @ CRLF) (
     raise_exception pf 3 0 0 (
     say pf (''  [OK] Execution resumed correctly after the breakpoint handler returned.'' @ CRLF) (
     say pf (CRLF @ ''Interrupts/exceptions boot self-test (non-fatal path): PASSED.'' @ CRLF) (
     say pf (''INTERRUPTS AND EXCEPTIONS SUBSYSTEM: GDT, IDT, and breakpoint'' @ CRLF) (
     say pf (''(non-fatal exception) round-trip all verified.'' @ CRLF) (
     say pf (CRLF @ ''Mapping a read-only test page, then deliberately writing to it'' @ CRLF) (
     say pf (''to verify WRITABLE=false is actually enforced by the CPU'' @ CRLF) (
     say pf (''(closing a gap left unverified since the VMM milestone).'' @ CRLF) (
     say pf (''(The kernel will halt via the page fault handler '' @ dash @ '' this is expected.)'' @ CRLF) (
     map_readonly_page pf (write_readonly_page pf))))))))))))"

section \<open>The entry point\<close>

text \<open>Step 4: the tables and the test of the exception path.\<close>

definition init_interrupts :: "platform \<Rightarrow> 'a boot" where
  "init_interrupts pf =
     with_ints (gdt_init (links pf)) (
     say pf (CRLF @ ''[OK] GDT loaded (kernel code/data segments, TSS with double-fault IST stack).'' @ CRLF) (
     with_ints (idt_init (links pf)) (
     say pf (''[OK] IDT loaded (all 32 CPU exception vectors installed).'' @ CRLF) (
     run_interrupts_boot_self_test pf))))"

definition test_heap :: "platform \<Rightarrow> 'a boot" where
  "test_heap pf =
     bindB (run_heap_boot_self_test pf) (\<lambda>ok.
     if \<not> ok
     then say pf (''FATAL: kernel heap allocator boot self-test failed.'' @ CRLF) (halt HeapSelfTest)
     else say pf (CRLF @ ''MEMORY MANAGER SUBSYSTEM: kernel heap allocator verified.'' @ CRLF) (
       say pf (''MEMORY MANAGER SUBSYSTEM COMPLETE: frame allocator, virtual memory'' @ CRLF) (
       say pf (''manager, and kernel heap allocator all implemented and verified.'' @ CRLF) (
       init_interrupts pf))))"

text \<open>The two values move into the globals, each under its lock.\<close>

definition publish :: "frame_allocator \<Rightarrow> vmm \<Rightarrow> 'a boot \<Rightarrow> 'a boot" where
  "publish a v m = on_kern (\<lambda>k.
     case lock (FRAME_ALLOCATOR k) of None \<Rightarrow> hang | Some frame_guard \<Rightarrow>
     let k = k\<lparr>FRAME_ALLOCATOR := unlock (guard_deref_mut frame_guard (\<lambda>_. Some a))\<rparr> in
     with_kern k (case lock (VMM k) of None \<Rightarrow> hang | Some vmm_guard \<Rightarrow>
       with_kern (k\<lparr>VMM := unlock (guard_deref_mut vmm_guard (\<lambda>_. Some v))\<rparr>) m))"

definition init_vmm :: "platform \<Rightarrow> boot_info \<Rightarrow> frame_allocator \<Rightarrow> 'a boot" where
  "init_vmm pf bi a = on_cpu (\<lambda>c.
     case vmm_init c of (v, c) \<Rightarrow> with_cpu c (
     say pf ''[OK] Virtual memory manager initialized (EFER.NXE '' (
     say pf (''set, reusing the bootloader'' @ [CHR 0x27] @ ''s existing PML4 at 0x'') (
     say_hex pf (phys_as_u64 (pml4_phys v)) (
     say pf ('').'' @ CRLF) (
     bindB (run_vmm_boot_self_test pf v a bi) (\<lambda>(ok, a).
     if \<not> ok
     then say pf (''FATAL: virtual memory manager boot self-test failed.'' @ CRLF) (halt VmmSelfTest)
     else say pf (CRLF @ ''MEMORY MANAGER SUBSYSTEM: virtual memory manager verified.'' @ CRLF) (
       publish a v (
       say pf (''[OK] Frame allocator and VMM published to the kernel heap'' @ [CHR 0x27] @ ''s global handles.'' @ CRLF) (
       test_heap pf))))))))))"

definition init_error_name :: "init_error \<Rightarrow> string" where
  "init_error_name e = (case e of
       InconsistentMemoryMap \<Rightarrow> ''InconsistentMemoryMap''
     | NoSuitableBitmapRegion \<Rightarrow> ''NoSuitableBitmapRegion''
     | ImpliedAddressSpaceTooLarge \<Rightarrow> ''ImpliedAddressSpaceTooLarge'')"

definition init_frames :: "platform \<Rightarrow> boot_info \<Rightarrow> 'a boot" where
  "init_frames pf bi = call pf (fa_init (map_bytes pf) bi) (\<lambda>r.
     case r of
       Inl e \<Rightarrow>
         say pf ''FATAL: FrameAllocator::init failed: '' (
         say pf (init_error_name e) (
         say pf CRLF (halt (FrameAllocatorInit e))))
     | Inr a \<Rightarrow>
         say pf (''[OK] Physical frame allocator initialized.'' @ CRLF) (
         say pf ''  Total frames : 0x'' (
         say_hex pf (total_frames a) (
         say pf (CRLF @ ''  Free frames  : 0x'') (
         say_hex pf (frames_free a) (
         say pf CRLF (
         bindB (run_frame_allocator_boot_self_test pf a) (\<lambda>(ok, a).
         if \<not> ok
         then say pf (''FATAL: frame allocator boot self-test failed.'' @ CRLF) (halt FrameSelfTest)
         else say pf (CRLF @ ''MEMORY MANAGER SUBSYSTEM: physical frame allocator verified.'' @ CRLF) (
           init_vmm pf bi a)))))))))"

definition kernel_main :: "platform \<Rightarrow> u64 \<Rightarrow> 'a boot" where
  "kernel_main pf boot_info_ptr =
     emit (\<lambda>t. Some (serial_init t)) (
     say pf (CRLF @ ''================================================'' @ CRLF) (
     say pf (''NeoastrenOS Kernel - Memory Manager subsystem'' @ CRLF) (
     say pf (''================================================'' @ CRLF) (
     if boot_info_ptr = 0
     then say pf (''FATAL: BootInfo pointer is null.'' @ CRLF) (halt NullBootInfo)
     else let bi = boot_info_at pf boot_info_ptr in
       if \<not> is_valid bi
       then say pf (''FATAL: BootInfo validation failed (magic/version/size).'' @ CRLF) (halt InvalidBootInfo)
       else say pf (''[OK] BootInfo magic, version, and size validated.'' @ CRLF) (
         say pf ''Memory map entries     : 0x'' (
         say_hex pf (memory_map_entry_count bi) (
         say pf (CRLF @ ''Memory map desc. size  : 0x'') (
         say_hex pf (memory_map_descriptor_size bi) (
         say pf CRLF (
         init_frames pf bi))))))))))"

section \<open>Rules\<close>

lemma ends_on_kern [ends_rules]: "ends (f (kern w)) Q w \<Longrightarrow> ends (on_kern f) Q w"
  by (simp add: ends_def on_kern_def)

lemma ends_with_kern [ends_rules]: "ends m Q (w\<lparr>kern := k\<rparr>) \<Longrightarrow> ends (with_kern k m) Q w"
  by (simp add: ends_def with_kern_def)

lemma ends_with_ints [ends_rules]: "ends m Q (w\<lparr>ints := f (ints w)\<rparr>) \<Longrightarrow> ends (with_ints f m) Q w"
  by (simp add: ends_def with_ints_def)

lemma console_ready_simps [simp]:
  "console_ready pf (w\<lparr>kern := k\<rparr>) \<longleftrightarrow> console_ready pf w" "console_ready pf (w\<lparr>ints := s\<rparr>) \<longleftrightarrow> console_ready pf w"
  "console_ready pf (w\<lparr>ints := s, io := t\<rparr>) \<longleftrightarrow> console_ready pf (w\<lparr>io := t\<rparr>)"
  by (simp_all add: console_ready_def)

lemma heap_world_ints [simp]: "heap_world pv g live (w\<lparr>ints := s\<rparr>) \<longleftrightarrow> heap_world pv g live w"
  by (simp add: heap_world_def)

section \<open>Exceptions after the tables are loaded\<close>

definition tables_loaded :: "platform \<Rightarrow> world \<Rightarrow> bool" where
  "tables_loaded pf w \<longleftrightarrow> inj_on (handler_addr (links pf)) {..<32}
     \<and> (\<exists>s. statics_ok s \<and> ints w = idt_init (links pf) (gdt_init (links pf) s))"

lemma tables_loaded_simps [simp]:
  "tables_loaded pf (w\<lparr>io := t\<rparr>) \<longleftrightarrow> tables_loaded pf w" "tables_loaded pf (w\<lparr>kern := k\<rparr>) \<longleftrightarrow> tables_loaded pf w"
  by (simp_all add: tables_loaded_def)

lemma find_handler:
  assumes "inj_on (f :: nat \<Rightarrow> 'a) {..<n}" and "v < n"
  shows "List.find (\<lambda>i. f i = f v) [0..<n] = Some v"
proof -
  have "f j \<noteq> f v" if "j < v" for j using that assms inj_onD [OF assms(1), of j v] by auto
  then show ?thesis using assms(2) by (auto simp: find_Some_iff intro!: exI [of _ v])
qed

lemma tx_update: "tx (u\<lparr>tx := x\<rparr>) = x" "dlab (u\<lparr>tx := x\<rparr>) = dlab u"
  by (simp_all add: dlab_def)

lemma raise_loaded:
  assumes "tables_loaded pf w" and "v < 32" and "console_ready pf w"
  obtains t where "raise_exception pf v e cr2 m w
      = (if v = 3 then m (w\<lparr>io := t\<rparr>) else halt (InHandler v) (w\<lparr>io := t\<rparr>))"
    and "console_ready pf (w\<lparr>io := t\<rparr>)"
    and "\<exists>before. tx (uart_of (uart_before pf) t) = before
      @ report_text (of_nat v) (ascii (handler_name v)) (if pushes_error_code v then Some e else None) (saved_frame pf v) cr2
      @ closing_text (of_nat v)"
proof -
  let ?u = "uart_before pf"
  have three: "(of_nat v :: u8) = 3 \<longleftrightarrow> v = 3"
    using assms(2) of_nat_inverse [of v 3] by (auto simp: unat_of_nat word_unat_eq_iff)
  obtain s where s: "statics_ok s" "ints w = idt_init (links pf) (gdt_init (links pf) s)" "inj_on (handler_addr (links pf)) {..<32}"
    using assms(1) by (auto simp: tables_loaded_def)
  have con: "responsive (uart_dev pf)" "\<not> dlab (uart_of ?u (io w))" using assms(3) by (simp_all add: console_ready_def)
  obtain t where t: "report (uart_dev pf) (of_nat v) (ascii (handler_name v)) (if pushes_error_code v then Some e else None)
      (saved_frame pf v) cr2 (io w) = Some (if v = 3 then Resumed else Halted, t)"
    "uart_of ?u t = (uart_of ?u (io w))\<lparr>tx := tx (uart_of ?u (io w))
      @ report_text (of_nat v) (ascii (handler_name v)) (if pushes_error_code v then Some e else None) (saved_frame pf v) cr2
      @ closing_text (of_nat v)\<rparr>"
    by (rule report_returns [OF con, of "of_nat v" "ascii (handler_name v)" "if pushes_error_code v then Some e else None"
        "saved_frame pf v" cr2, unfolded three]) (rule that)
  have "handler (uart_dev pf) v (saved_frame pf v) e cr2 (io w) = Some (if v = 3 then Resumed else Halted, t)"
    using t(1) by (simp add: handler_def handlers_nth [OF assms(2)])
  then have run: "raise_exception pf v e cr2 m w = (if v = 3 then m (w\<lparr>io := t\<rparr>) else halt (InHandler v) (w\<lparr>io := t\<rparr>))"
    using delivered_tables [OF s(1) assms(2)] find_handler [OF s(3) assms(2)] s(2) by (simp add: raise_exception_def)
  have ready: "console_ready pf (w\<lparr>io := t\<rparr>)" using con by (simp add: console_ready_def t(2) tx_update(2))
  have "tx (uart_of ?u t) = tx (uart_of ?u (io w))
      @ report_text (of_nat v) (ascii (handler_name v)) (if pushes_error_code v then Some e else None) (saved_frame pf v) cr2
      @ closing_text (of_nat v)" unfolding t(2) by (rule tx_update)
  then show thesis by (rule that [OF run ready exI])
qed

section \<open>The read-only page\<close>

lemma READONLY_simps [simp]:
  "is_page_aligned (VirtAddr READONLY_TEST_VADDR)" "canonical READONLY_TEST_VADDR" "READONLY_TEST_VADDR mod FRAME_SIZE = 0"
  by (simp_all add: READONLY_TEST_VADDR_def is_page_aligned_def FRAME_SIZE_def canonical_def)

text \<open>What a write to the page does with the write-protect bit set, and with it clear.\<close>

definition readonly_rule :: "cpu \<Rightarrow> bool" where
  "readonly_rule c \<longleftrightarrow> write_volatile_u8 True c READONLY_TEST_VADDR 0xFF = Inl 3
     \<and> \<not> isl (write_volatile_u8 False c READONLY_TEST_VADDR 0xFF)"

lemma readonly_faults:
  assumes inv: "vm_state_inv v (c, a)" and coh: "tlb_coherent v c" and hw: "hw_vmm c = v"
    and walk: "walk (mem c) (pml4_phys v) (indices (VirtAddr READONLY_TEST_VADDR)) = Missing" and low: "4 \<le> card (low_free a)"
  obtains p a1 c' a' where "allocate a = Inr (Some p, a1)"
    and "vmm_map v c a1 (VirtAddr READONLY_TEST_VADDR) p readonly_flags = Inr (Inr (), c', a')"
    and "readonly_rule c'"
proof -
  let ?root = "pml4_phys v" and ?virt = "VirtAddr READONLY_TEST_VADDR"
  have inv0: "vm_inv ?root (mem c) a" using inv by simp
  note fa = vm_invD(1) [OF inv0]
  obtain p a1 c' a' where m: "allocate a = Inr (Some p, a1)" "vmm_map v c a1 ?virt p readonly_flags = Inr (Inr (), c', a')"
    using map_round [OF inv READONLY_simps(1) walk low, of readonly_flags] by metis
  have p: "free_frames a1 = free_frames a - {frame_of p}" "fa_inv a1" "entry_holds p"
    using fa.alloc_Some [OF fa m(1)] allocate_returns(2) [OF fa m(1)] allocated_entry_holds [OF fa] by (simp_all add: frame_of_def)
  have inv1: "vm_inv ?root (mem c) a1" using vm_inv_smaller [OF inv0 p(2)] p(1) by simp
  have s: "vm_inv ?root (mem c') a'" "c' = invlpg (c\<lparr>mem := mem c'\<rparr>) READONLY_TEST_VADDR"
    "walks_updated ?root (mem c) (mem c') (indices ?virt) (Leaf (new_leaf p readonly_flags))"
    using m(2) by (cases rule: map_spec [OF inv1, of ?virt p readonly_flags]; auto)+
  have hw': "hw_vmm c' = v" by (subst s(2)) (simp add: hw)
  have coh': "tlb_coherent v c'"
    using tlb_coherent_update [OF coh inv0 s(1,3), unfolded virt_addr.sel, OF s(2)] by simp
  have leaf: "walk (mem c') ?root (indices ?virt) = Leaf (new_leaf p readonly_flags)" using s(3) by (simp add: walks_updated_def)
  then have "translate v c' ?virt \<noteq> None"
    using resolve_new_leaf [OF p(3), of readonly_flags ?virt] translate_walk [OF vm_invD(2) [OF s(1)], of ?virt] by simp
  moreover have "hw_translate c' READONLY_TEST_VADDR = translate v c' ?virt"
    using hw_translate_coherent [OF coh'] hw' by simp
  moreover have "read_only c' READONLY_TEST_VADDR"
    using leaf flags_at_walk [OF vm_invD(2) [OF s(1)], of ?virt] by (simp add: read_only_def hw' readonly_flags_def)
  ultimately have "readonly_rule c'"
    by (auto simp: readonly_rule_def write_volatile_u8_def write_volatile_def)
  then show thesis by (rule that [OF m])
qed

text \<open>
  What the last act prints, and how the boot ends: only with the write-protect bit of \<open>CR0\<close> set does
  the page fault it ends in happen. No code of the kernel sets this bit.
\<close>

definition final_report :: "platform \<Rightarrow> world \<Rightarrow> bool" where
  "final_report pf w \<longleftrightarrow> (\<exists>before. tx (uart_of (uart_before pf) (io w)) = before
     @ report_text 14 (ascii ''Page Fault (#PF)'') (Some 3) (saved_frame pf 14) READONLY_TEST_VADDR @ closing_text 14)"

definition boot_end :: "platform \<Rightarrow> ending + 'a \<Rightarrow> world \<Rightarrow> bool" where
  "boot_end pf r w \<longleftrightarrow>
     (if write_protect pf then r = Inl (Halt (InHandler 14)) \<and> final_report pf w else r = Inl (Halt EndOfBoot))"

lemma ends_write_readonly:
  assumes "tables_loaded pf w" and "console_ready pf w" and rule: "readonly_rule (the_cpu w)"
  shows "ends (write_readonly_page pf :: 'a boot) (boot_end pf) w"
proof -
  obtain t where "raise_exception pf 14 3 READONLY_TEST_VADDR (hang :: 'a boot) w = halt (InHandler 14) (w\<lparr>io := t\<rparr>)"
    "\<exists>before. tx (uart_of (uart_before pf) t) = before
      @ report_text 14 (ascii ''Page Fault (#PF)'') (Some 3) (saved_frame pf 14) READONLY_TEST_VADDR @ closing_text 14"
    by (rule raise_loaded [OF assms(1) _ assms(2), of 14 3 READONLY_TEST_VADDR hang])
      (simp_all add: pushes_error_code_def handler_name_def handlers_def)
  then have "write_protect pf \<Longrightarrow> ?thesis"
    using rule unfolding ends_def write_readonly_page_def on_cpu_def halt_def stop_def final_report_def boot_end_def readonly_rule_def by force
  moreover have "\<not> write_protect pf \<Longrightarrow> ?thesis"
    using rule by (cases "write_volatile_u8 False (the_cpu w) READONLY_TEST_VADDR 255")
      (auto simp: ends_def write_readonly_page_def on_cpu_def with_cpu_def halt_def stop_def boot_end_def readonly_rule_def)
  ultimately show ?thesis by blast
qed

lemma ends_breakpoint:
  assumes "tables_loaded pf w" and "console_ready pf w" and "\<And>t. console_ready pf (w\<lparr>io := t\<rparr>) \<Longrightarrow> ends m Q (w\<lparr>io := t\<rparr>)"
  shows "ends (raise_exception pf 3 e cr2 m) Q w"
proof -
  obtain t where "raise_exception pf 3 e cr2 m w = m (w\<lparr>io := t\<rparr>)" "console_ready pf (w\<lparr>io := t\<rparr>)"
    by (rule raise_loaded [OF assms(1) _ assms(2), of 3 e cr2 m]) simp_all
  then show ?thesis using assms(3) [of t] by (simp add: ends_def)
qed

section \<open>The stages\<close>

definition boot_provision :: provision where
  "boot_provision = \<lparr>spare_page = VirtAddr READONLY_TEST_VADDR, page_limit = HEAP_TEST_PAGES, provision_made = True\<rparr>"

lemma boot_provision_simps [simp]:
  "spare_page boot_provision = VirtAddr READONLY_TEST_VADDR" "page_limit boot_provision = HEAP_TEST_PAGES" "provision_made boot_provision"
  by (simp_all add: boot_provision_def)

lemma boot_provision_outside: "outside_heap (VirtAddr READONLY_TEST_VADDR) HEAP_TEST_PAGES"
proof -
  have "VirtAddr READONLY_TEST_VADDR = page_of HEAP_REGION_START 65536"
    by (simp add: page_of_def READONLY_TEST_VADDR_def HEAP_REGION_START_def PAGE_SIZE_def)
  then show ?thesis
    using page_of_distinct [OF heap_page_run, of 65536] by (auto simp: outside_heap_def HEAP_TEST_PAGES_def HEAP_PAGES_def indices_eq_iff)
qed

lemma ends_map_readonly:
  assumes hw: "heap_world boot_provision 0 {} w"
    and m: "\<And>k. readonly_rule (machine k) \<Longrightarrow> ends m Q (w\<lparr>kern := k\<rparr>)"
  shows "ends (map_readonly_page pf m) Q w"
proof -
  let ?k = "kern w"
  obtain n a v where n: "kernel_ok ?k n" and av: "guard_deref (FRAME_ALLOCATOR ?k) = Some a" "guard_deref (VMM ?k) = Some v"
    and low: "4 \<le> card (low_free a)" and walk: "walk (mem (the_cpu w)) (pml4_phys v) (indices (VirtAddr READONLY_TEST_VADDR)) = Missing"
    and coh: "tlb_coherent v (the_cpu w)" "hw_vmm (the_cpu w) = v"
    using hw by (auto simp: heap_world_def provided_def)
  have inv: "vm_state_inv v (the_cpu w, a)" using n av by (intro heap_backed_inv [of v _ a n]) (simp add: kernel_ok_def)
  have lk: "lock (FRAME_ALLOCATOR ?k) = Some (FRAME_ALLOCATOR ?k\<lparr>locked := True\<rparr>)" "lock (VMM ?k) = Some (VMM ?k\<lparr>locked := True\<rparr>)"
    "guard_deref (FRAME_ALLOCATOR ?k\<lparr>locked := True\<rparr>) = Some a" "guard_deref (VMM ?k\<lparr>locked := True\<rparr>) = Some v"
    using n av by (simp_all add: kernel_ok_def lock_def guard_deref_def)
  obtain p a1 c' a' where r: "allocate a = Inr (Some p, a1)"
    "vmm_map v (the_cpu w) a1 (VirtAddr READONLY_TEST_VADDR) p readonly_flags = Inr (Inr (), c', a')"
    "readonly_rule c'"
    by (rule readonly_faults [OF inv coh walk low])
  show ?thesis
    unfolding map_readonly_page_def Let_def
    by (rule ends_rules | simp add: lk r m)+
qed

lemma interrupts_self_test:
  assumes "tables_loaded pf w" and "console_ready pf w" and "heap_world boot_provision 0 {} w"
  shows "ends (run_interrupts_boot_self_test pf) (boot_end pf) w"
  unfolding run_interrupts_boot_self_test_def
  by (rule ends_say ends_breakpoint ends_map_readonly ends_write_readonly | simp add: assms)+

definition statics_linked :: "platform \<Rightarrow> world \<Rightarrow> bool" where
  "statics_linked pf w \<longleftrightarrow> inj_on (handler_addr (links pf)) {..<32} \<and> statics_ok (ints w)"

lemma ends_init_interrupts:
  assumes "statics_linked pf w" and "console_ready pf w" and "heap_world boot_provision 0 {} w"
  shows "ends (init_interrupts pf) (boot_end pf) w"
proof -
  have loaded: "tables_loaded pf (w\<lparr>ints := idt_init (links pf) (gdt_init (links pf) (ints w))\<rparr>)"
    using assms(1) by (auto simp: tables_loaded_def statics_linked_def)
  show ?thesis
    unfolding init_interrupts_def
    by (rule ends_with_ints ends_say interrupts_self_test | simp add: assms loaded)+
qed

lemma ends_test_heap:
  assumes "statics_linked pf w" and "console_ready pf w" and "heap_world boot_provision HEAP_TEST_PAGES {} w"
  shows "ends (test_heap pf) (boot_end pf) w"
proof -
  have hw: "heap_world boot_provision (HEAP_TEST_PAGES + 0) {} w" using assms(3) by simp
  show ?thesis
    unfolding test_heap_def
  proof (rule ends_bind [OF heap_self_test [OF assms(2) hw, unfolded achieves_def]])
    fix ok w1
    assume "console_ready pf w1 \<and> (case Inr ok of Inl e \<Rightarrow> \<not> provision_made boot_provision \<and> e = Halt (AfterPanic AllocError)
        | Inr r \<Rightarrow> r \<and> heap_world boot_provision 0 {} w1 \<and> ints w1 = ints w)"
    then have w1: "console_ready pf w1" ok "heap_world boot_provision 0 {} w1" "statics_linked pf w1"
      using assms(1) by (auto simp: statics_linked_def)
    have st: "statics_linked pf (w1\<lparr>io := t\<rparr>)" for t using w1(4) by (simp add: statics_linked_def)
    show "ends (if \<not> ok then say pf (''FATAL: kernel heap allocator boot self-test failed.'' @ CRLF) (halt HeapSelfTest)
        else say pf (CRLF @ ''MEMORY MANAGER SUBSYSTEM: kernel heap allocator verified.'' @ CRLF) (
          say pf (''MEMORY MANAGER SUBSYSTEM COMPLETE: frame allocator, virtual memory'' @ CRLF) (
          say pf (''manager, and kernel heap allocator all implemented and verified.'' @ CRLF) (init_interrupts pf))))
      (boot_end pf) w1"
      by (rule ends_say ends_init_interrupts | simp add: w1 st)+
  qed simp
qed

text \<open>
  What the bootloader leaves: well-formed tables in memory its map does not offer, true cached
  translations, no mapping where the tests and the heap map pages, the kernel's code where it says,
  enough memory for the tests, and free globals.
\<close>

definition tables_reserved :: "platform \<Rightarrow> boot_info \<Rightarrow> world \<Rightarrow> bool" where
  "tables_reserved pf bi w \<longleftrightarrow>
     (let m = mem (the_cpu w); root = pml4_phys (hw_vmm (the_cpu w)) in
      tables_ok m root
      \<and> (\<forall>p u. valid_path p \<and> length p \<le> 3 \<and> low_table u \<and> table_at m root p = Some u \<longrightarrow>
           (\<forall>e \<in> set (memory_map_entries (map_bytes pf) bi). usable_entry e \<longrightarrow> unat (frame_number u) \<notin> entry_frames e)))"

definition pages_ready :: "platform \<Rightarrow> boot_info \<Rightarrow> world \<Rightarrow> frame_allocator \<Rightarrow> bool" where
  "pages_ready pf bi w a \<longleftrightarrow>
     (let c = the_cpu w; v = hw_vmm c in
      tlb_coherent v c
      \<and> (\<forall>i<HEAP_TEST_PAGES. walk (mem c) (pml4_phys v) (indices (page_of HEAP_REGION_START i)) = Missing)
      \<and> walk (mem c) (pml4_phys v) (indices (VirtAddr READONLY_TEST_VADDR)) = Missing
      \<and> 4 * HEAP_TEST_PAGES + 7 \<le> card (low_free a)
      \<and> (\<exists>phys. translate v c (VirtAddr (self_fn_vaddr pf)) = Some phys \<and> code_in_range bi phys))"

definition paging_ready :: "platform \<Rightarrow> boot_info \<Rightarrow> world \<Rightarrow> frame_allocator \<Rightarrow> bool" where
  "paging_ready pf bi w a \<longleftrightarrow> vm_inv (pml4_phys (hw_vmm (the_cpu w))) (mem (the_cpu w)) a \<and> pages_ready pf bi w a"

definition globals_ready :: "platform \<Rightarrow> world \<Rightarrow> bool" where
  "globals_ready pf w \<longleftrightarrow> \<not> locked (FRAME_ALLOCATOR (kern w)) \<and> \<not> locked (VMM (kern w)) \<and> ALLOCATOR w = kernel_heap_new
     \<and> statics_linked pf w"

lemma paging_ready_init:
  assumes "fa_init (map_bytes pf) bi = Inr (Inr a)" and "tables_reserved pf bi w" and "pages_ready pf bi w a"
  shows "paging_ready pf bi w a"
  using assms(2,3) fa_init_spec(1,2) [OF assms(1)]
  by (auto simp: paging_ready_def tables_reserved_def vm_inv_def Let_def)

lemma paging_ready_io [simp]: "paging_ready pf bi (w\<lparr>io := t\<rparr>) a \<longleftrightarrow> paging_ready pf bi w a"
  by (simp add: paging_ready_def pages_ready_def)

lemma globals_ready_io [simp]: "globals_ready pf (w\<lparr>io := t\<rparr>) \<longleftrightarrow> globals_ready pf w"
  by (simp add: globals_ready_def statics_linked_def)

text \<open>After the test of the virtual memory manager the globals are published and the heap has its memory.\<close>

lemma test_done_provided:
  assumes td: "test_done v (c, a) (c', a')" and "4 * HEAP_TEST_PAGES + 7 \<le> card (low_free a)"
    and "\<And>i. i < HEAP_TEST_PAGES \<Longrightarrow> walk (mem c) (pml4_phys v) (indices (page_of HEAP_REGION_START i)) = Missing"
    and "walk (mem c) (pml4_phys v) (indices (VirtAddr READONLY_TEST_VADDR)) = Missing"
    and k: "guard_deref (FRAME_ALLOCATOR k) = Some a'" "guard_deref (VMM k) = Some v" "machine k = c'"
  shows "provided (VirtAddr READONLY_TEST_VADDR) HEAP_TEST_PAGES HEAP_TEST_PAGES k 0"
proof -
  have f: "free_frames a' \<subseteq> free_frames a" "card (free_frames a - free_frames a') \<le> 3" using td by (simp_all add: test_done_def)
  have "low_free a - low_free a' \<subseteq> free_frames a - free_frames a'" by (auto simp: low_free_def)
  then have "card (low_free a - low_free a') \<le> 3" using f(2) by (meson card_mono finite_Diff finite_free_frames le_trans)
  moreover have "card (low_free a) \<le> card (low_free a') + card (low_free a - low_free a')"
    using card_mono [of "low_free a' \<union> (low_free a - low_free a')" "low_free a"] card_Un_le [of "low_free a'" "low_free a - low_free a'"] by simp
  ultimately have "4 * HEAP_TEST_PAGES + 4 \<le> card (low_free a')" using assms(2) by linarith
  moreover have "walk (mem c') (pml4_phys v) (indices x) = walk (mem c) (pml4_phys v) (indices x)" for x
    using td by (simp add: test_done_def same_walks_def)
  moreover have "tlb_coherent v c'" "hw_vmm c' = v" using td by (simp_all add: test_done_def)
  ultimately show ?thesis using assms(3,4) k unfolding provided_def by simp
qed

definition published :: "frame_allocator \<Rightarrow> vmm \<Rightarrow> kernel \<Rightarrow> kernel" where
  "published a v k = k\<lparr>FRAME_ALLOCATOR := \<lparr>locked = False, data = Some a\<rparr>, VMM := \<lparr>locked = False, data = Some v\<rparr>\<rparr>"

lemma ends_publish:
  assumes "\<not> locked (FRAME_ALLOCATOR (kern w))" and "\<not> locked (VMM (kern w))" and "ends m Q (w\<lparr>kern := published a v (kern w)\<rparr>)"
  shows "ends (publish a v m) Q w"
proof -
  have lk: "lock l = Some (l\<lparr>locked := True\<rparr>)" "unlock (guard_deref_mut (l\<lparr>locked := True\<rparr>) (\<lambda>_. x)) = \<lparr>locked = False, data = x\<rparr>"
    if "\<not> locked l" for l :: "'c spin_lock" and x
    using that by (cases l; simp add: lock_def unlock_def guard_deref_mut_def)+
  show ?thesis
    unfolding publish_def Let_def using assms
    by (auto intro!: ends_rules simp: lk published_def)
qed

lemma published_world:
  assumes "test_done v (c, a) (c', a')" and "4 * HEAP_TEST_PAGES + 7 \<le> card (low_free a)"
    and "\<And>i. i < HEAP_TEST_PAGES \<Longrightarrow> walk (mem c) (pml4_phys v) (indices (page_of HEAP_REGION_START i)) = Missing"
    and "walk (mem c) (pml4_phys v) (indices (VirtAddr READONLY_TEST_VADDR)) = Missing"
    and "ALLOCATOR w = kernel_heap_new" and "the_cpu w = c'"
  shows "heap_world boot_provision HEAP_TEST_PAGES {} (w\<lparr>kern := published a' v (kern w)\<rparr>)"
proof -
  have k: "guard_deref (FRAME_ALLOCATOR (published a' v (kern w))) = Some a'" "guard_deref (VMM (published a' v (kern w))) = Some v"
    "machine (published a' v (kern w)) = c'" using assms(6) by (simp_all add: published_def guard_deref_def)
  have "kernel_ok (published a' v (kern w)) 0"
    using assms(1) k by (simp add: kernel_ok_def heap_backed_def test_done_def) (simp add: published_def)
  then show ?thesis
    using test_done_provided [OF assms(1-4) k] heap_new_ok assms(5) boot_provision_outside
    unfolding heap_world_def by auto
qed

lemma translate_efer [simp]: "translate v (c\<lparr>efer := x\<rparr>) = translate v c"
  by (rule ext) (simp add: translate_def read_entry_def cong: if_cong option.case_cong sum.case_cong)

lemma efer_simps [simp]: "tlb_coherent v (c\<lparr>efer := x\<rparr>) \<longleftrightarrow> tlb_coherent v c" "hw_vmm (c\<lparr>efer := x\<rparr>) = hw_vmm c"
  by (simp_all add: tlb_coherent_def hw_vmm_def)

lemma TEST_VADDR_page: "VirtAddr TEST_VADDR = page_of HEAP_REGION_START 0"
  by (simp add: page_of_def TEST_VADDR_def HEAP_REGION_START_def)

lemma paging_ready_test:
  assumes "paging_ready pf bi w a" and "console_ready pf w"
  shows "ends (run_vmm_boot_self_test pf (hw_vmm (the_cpu w)) a bi)
    (\<lambda>r w'. console_ready pf w' \<and> (\<exists>c' a'. r = Inr (True, a') \<and> quietly (set_cpu c' w) w'
      \<and> test_done (hw_vmm (the_cpu w)) (the_cpu w, a) (c', a'))) w"
proof -
  let ?c = "the_cpu w"
  let ?v = "hw_vmm ?c"
  have p: "vm_inv (pml4_phys ?v) (mem ?c) a" "tlb_coherent ?v ?c" "4 \<le> card (low_free a)"
    "walk (mem ?c) (pml4_phys ?v) (indices (VirtAddr TEST_VADDR)) = Missing"
    using assms(1) by (simp_all add: paging_ready_def pages_ready_def Let_def TEST_VADDR_page HEAP_TEST_PAGES_def)
  obtain phys where "translate ?v ?c (VirtAddr (self_fn_vaddr pf)) = Some phys" "code_in_range bi phys"
    using assms(1) by (auto simp: paging_ready_def pages_ready_def Let_def)
  then show ?thesis by (rule vmm_self_test [OF p(1,2) refl p(4,3) _ _ assms(2) refl])
qed

lemma ends_init_vmm:
  assumes ready: "paging_ready pf bi w a" "globals_ready pf w" and con: "console_ready pf w"
  shows "ends (init_vmm pf bi a) (boot_end pf) w" (is "ends _ ?Q w")
proof -
  let ?c = "(the_cpu w)\<lparr>efer := efer (the_cpu w) OR EFER_NXE_BIT\<rparr>"
  have init: "vmm_init (the_cpu w) = (hw_vmm ?c, ?c)" by (simp add: vmm_init_correct hw_vmm_def)
  have ready1: "paging_ready pf bi (set_cpu ?c (w\<lparr>io := t\<rparr>)) a" for t using ready(1) by (simp add: paging_ready_def pages_ready_def Let_def)
  let ?v = "hw_vmm ?c"
  have pages: "4 * HEAP_TEST_PAGES + 7 \<le> card (low_free a)"
    "\<And>i. i < HEAP_TEST_PAGES \<Longrightarrow> walk (mem ?c) (pml4_phys ?v) (indices (page_of HEAP_REGION_START i)) = Missing"
    "walk (mem ?c) (pml4_phys ?v) (indices (VirtAddr READONLY_TEST_VADDR)) = Missing"
    using ready(1) by (simp_all add: paging_ready_def pages_ready_def Let_def)
  have globals: "\<not> locked (FRAME_ALLOCATOR (kern w))" "\<not> locked (VMM (kern w))" "ALLOCATOR w = kernel_heap_new" "statics_linked pf w"
    using ready(2) by (simp_all add: globals_ready_def)
  let ?next = "\<lambda>a. publish a ?v (
      say pf (''[OK] Frame allocator and VMM published to the kernel heap'' @ [CHR 0x27] @ ''s global handles.'' @ CRLF) (test_heap pf))"
  have rest: "ends (?next a') ?Q w2"
    if q: "quietly (set_cpu c' (set_cpu ?c (w\<lparr>io := t\<rparr>))) w2" and d: "test_done ?v (?c, a) (c', a')" and t: "console_ready pf w2" for a' c' t w2
  proof -
    have w2: "kern w2 = (kern w)\<lparr>machine := c'\<rparr>" "ALLOCATOR w2 = kernel_heap_new" "ints w2 = ints w"
      using quietlyD [OF q] globals(3) by (simp_all add: set_cpu_def)
    have hw: "heap_world boot_provision HEAP_TEST_PAGES {} (w2\<lparr>kern := published a' ?v (kern w2)\<rparr>)"
      by (rule published_world [OF d pages(1) _ pages(3) w2(2)]) (rule pages(2), assumption, simp add: w2(1))
    have st: "statics_linked pf (w2\<lparr>kern := k, io := t\<rparr>)" for k t using globals(4) w2(3) by (simp add: statics_linked_def)
    show ?thesis
      by (rule ends_publish ends_say ends_test_heap | simp add: globals w2(1) t hw [unfolded w2(1) efer_simps] st)+
  qed
  have test: "ends (bindB (run_vmm_boot_self_test pf ?v a bi) (\<lambda>(ok, a).
      if \<not> ok then say pf (''FATAL: virtual memory manager boot self-test failed.'' @ CRLF) (halt VmmSelfTest)
      else say pf (CRLF @ ''MEMORY MANAGER SUBSYSTEM: virtual memory manager verified.'' @ CRLF) (?next a))) ?Q (set_cpu ?c (w\<lparr>io := t\<rparr>))"
    if t: "console_ready pf (w\<lparr>io := t\<rparr>)" for t
    by (rule ends_bind [OF paging_ready_test [OF ready1, unfolded set_cpu_simps(1)]])
      (use t in \<open>auto intro!: ends_say rest\<close>)
  show ?thesis
    unfolding init_vmm_def by (rule ends_rules | simp add: init con test [unfolded efer_simps])+
qed

text \<open>The test of the frame allocator leaves as many free frames as there were.\<close>

lemma paging_ready_same:
  assumes "paging_ready pf bi w a" and "quietly w w'" and "fa_inv a'" and "free_frames a' = free_frames a"
  shows "paging_ready pf bi w' a'"
proof -
  have "low_free a' = low_free a" using assms(4) by (simp add: low_free_def)
  moreover have "vm_inv r m a \<Longrightarrow> vm_inv r m a'" for r m by (erule vm_inv_smaller [OF _ assms(3)]) (simp add: assms(4))
  ultimately show ?thesis using assms(1) quietlyD [OF assms(2)] by (simp add: paging_ready_def pages_ready_def Let_def)
qed

lemma paging_ready_free:
  assumes "paging_ready pf bi w a"
  shows "16 \<le> card (free_frames a)"
proof -
  have "card (low_free a) \<le> card (free_frames a)" by (rule card_mono) (auto simp: low_free_def)
  then show ?thesis using assms by (simp add: paging_ready_def pages_ready_def Let_def HEAP_TEST_PAGES_def)
qed

lemma ends_init_frames:
  assumes init: "fa_init (map_bytes pf) bi = Inr (Inr a)" and ready: "paging_ready pf bi w a" "globals_ready pf w"
    and con: "console_ready pf w"
  shows "ends (init_frames pf bi) (boot_end pf) w" (is "ends _ ?Q w")
proof -
  have inv: "fa_inv a" using ready(1) vm_invD(1) by (auto simp: paging_ready_def pages_ready_def Let_def)
  have test: "ends (bindB (run_frame_allocator_boot_self_test pf a) (\<lambda>(ok, a).
      if \<not> ok then say pf (''FATAL: frame allocator boot self-test failed.'' @ CRLF) (halt FrameSelfTest)
      else say pf (CRLF @ ''MEMORY MANAGER SUBSYSTEM: physical frame allocator verified.'' @ CRLF) (init_vmm pf bi a))) ?Q (w\<lparr>io := t\<rparr>)"
    if t: "console_ready pf (w\<lparr>io := t\<rparr>)" for t
  proof (rule ends_bind [OF frame_self_test [OF inv t]])
    fix x w1
    assume "console_ready pf w1 \<and> quietly (w\<lparr>io := t\<rparr>) w1 \<and> (\<exists>a'. Inr x = Inr (16 \<le> card (free_frames a), a') \<and> fa_inv a'
      \<and> same_pool a a' \<and> (16 \<le> card (free_frames a) \<longrightarrow> free_frames a' = free_frames a))"
    then obtain a' where w1: "console_ready pf w1" "quietly (w\<lparr>io := t\<rparr>) w1" "x = (True, a')" "fa_inv a'" "free_frames a' = free_frames a"
      using paging_ready_free [OF ready(1)] by auto
    have p: "paging_ready pf bi w1 a'" by (rule paging_ready_same [OF _ w1(2,4,5)]) (simp add: ready)
    have g: "globals_ready pf w1" using ready(2) quietlyD [OF w1(2)] by (simp add: globals_ready_def statics_linked_def)
    show "ends (case x of (ok, a) \<Rightarrow>
      if \<not> ok then say pf (''FATAL: frame allocator boot self-test failed.'' @ CRLF) (halt FrameSelfTest)
      else say pf (CRLF @ ''MEMORY MANAGER SUBSYSTEM: physical frame allocator verified.'' @ CRLF) (init_vmm pf bi a)) ?Q w1"
      unfolding w1(3) prod.case by (rule ends_say ends_init_vmm | simp add: w1(1) p g)+
  qed auto
  show ?thesis
    unfolding init_frames_def by (rule ends_rules | simp add: init con test)+
qed

lemma ends_serial_init:
  assumes "responsive (uart_dev pf)" and "\<And>t. console_ready pf (w\<lparr>io := t\<rparr>) \<Longrightarrow> ends m Q (w\<lparr>io := t\<rparr>)"
  shows "ends (emit (\<lambda>t. Some (serial_init t)) m) Q w"
  using assms serial_init_closed [of "uart_before pf" "io w"] by (simp add: ends_def emit_def console_ready_def)

lemma kernel_main_completes:
  assumes "boot_info_ptr \<noteq> 0" and "is_valid (boot_info_at pf boot_info_ptr)"
    and "fa_init (map_bytes pf) (boot_info_at pf boot_info_ptr) = Inr (Inr a)"
    and "tables_reserved pf (boot_info_at pf boot_info_ptr) w" and "pages_ready pf (boot_info_at pf boot_info_ptr) w a"
    and "globals_ready pf w"
    and "responsive (uart_dev pf)"
  shows "ends (kernel_main pf boot_info_ptr) (boot_end pf) w"
  unfolding kernel_main_def Let_def
  by (rule ends_serial_init [OF assms(7)])
    (rule ends_say ends_say_hex ends_init_frames | simp add: assms paging_ready_init)+

text \<open>A boot information the kernel cannot use stops the boot before anything but the serial port has changed.\<close>

definition rejected :: "platform \<Rightarrow> u64 \<Rightarrow> halt_site option" where
  "rejected pf boot_info_ptr =
     (if boot_info_ptr = 0 then Some NullBootInfo
      else if \<not> is_valid (boot_info_at pf boot_info_ptr) then Some InvalidBootInfo
      else (case fa_init (map_bytes pf) (boot_info_at pf boot_info_ptr) of
          Inl p \<Rightarrow> Some (AfterPanic p)
        | Inr (Inl e) \<Rightarrow> Some (FrameAllocatorInit e)
        | Inr (Inr _) \<Rightarrow> None))"

lemma kernel_main_rejects:
  assumes "rejected pf boot_info_ptr = Some site" and "responsive (uart_dev pf)"
  shows "ends (kernel_main pf boot_info_ptr) (\<lambda>r w'. r = Inl (Halt site) \<and> console_ready pf w' \<and> quietly w w') w"
proof -
  have frames: "ends (init_frames pf (boot_info_at pf boot_info_ptr)) (\<lambda>r w'. r = Inl (Halt site) \<and> console_ready pf w' \<and> quietly w w') (w\<lparr>io := t\<rparr>)"
    if v: "boot_info_ptr \<noteq> 0" "is_valid (boot_info_at pf boot_info_ptr)" "console_ready pf (w\<lparr>io := t\<rparr>)" for t
  proof (cases "fa_init (map_bytes pf) (boot_info_at pf boot_info_ptr)")
    case (Inl p)
    have "ends (panic_handler pf p) (\<lambda>r w'. r = Inl (Halt site) \<and> console_ready pf w' \<and> quietly w w') (w\<lparr>io := t\<rparr>)"
      by (rule ends_mono [OF ends_panic_handler [OF v(3)]]) (use assms(1) v Inl in \<open>auto simp: rejected_def quietly_def\<close>)
    then show ?thesis by (simp add: ends_def init_frames_def call_def Inl)
  next
    case (Inr r)
    then obtain e where e: "r = Inl e" "site = FrameAllocatorInit e" using assms(1) v by (auto simp: rejected_def split: sum.splits)
    show ?thesis unfolding init_frames_def by (rule ends_rules | simp add: Inr e v(3))+
  qed
  have site: "boot_info_ptr = 0 \<Longrightarrow> site = NullBootInfo"
    "\<lbrakk>boot_info_ptr \<noteq> 0; \<not> is_valid (boot_info_at pf boot_info_ptr)\<rbrakk> \<Longrightarrow> site = InvalidBootInfo"
    using assms(1) by (auto simp: rejected_def)
  show ?thesis
    unfolding kernel_main_def Let_def
    by (rule ends_serial_init [OF assms(2)])
      (cases "boot_info_ptr = 0"; cases "is_valid (boot_info_at pf boot_info_ptr)";
       (rule ends_say ends_say_hex ends_halt frames | simp add: site | assumption)+)
qed

end
