(* ===== verification/Linked_List_Props.thy ===== *)
theory Linked_List_Props
  imports Free_Store
begin

unbundle bit_operations_syntax

text \<open>
  The properties of the free-list allocator: what adding, allocating and giving back do, when they
  panic, that no run hands out overlapping blocks or disturbs their contents, and what happens for
  alignments that reach beyond the address space.
\<close>

section \<open>Example\<close>

text \<open>The heap after its first growth: sixteen pages at the base of the heap region.\<close>

definition example_list :: linked_list_allocator where
  "example_list = \<lparr>head = \<lparr>node_size = 0, node_next = 0xFFFF880000000000\<rparr>\<rparr>"

definition example_heap :: qmem where
  "example_heap = (\<lambda>_. 0)(0xFFFF880000000000 := 65536)"

definition small_layout :: layout where
  "small_layout = \<lparr>layout_size = 100, layout_align = 64\<rparr>"


lemma example_blocks: "heap_rep example_list example_heap [(0xFFFF880000000000, 65536)]"
  by (simp add: heap_rep_def blocks_ok_def block_ok_def block_end_def example_list_def example_heap_def)

lemma example_free_rep: "free_rep example_list example_heap {0xFFFF880000000000..<0xFFFF880000010000}"
  unfolding free_rep_def
  by (rule exI [of _ "[(0xFFFF880000000000, 65536)]"]) (simp add: example_blocks span_def)

lemma small_servable: "servable small_layout"
  by (simp add: servable_def small_layout_def valid_layout_def from_size_align_def is_power_of_two_def
      boundary_def)

lemma small_shape: "extent small_layout = 128" "boundary small_layout = 64"
  by (simp_all add: extent_def boundary_def small_layout_def round_up_def)

lemma small_align_room: "align_room small_layout {0xFFFF880000000000..<0xFFFF880000010000}"
  by (simp add: align_room_def small_shape)




lemma small_adjusted: "adjusted_size_align small_layout = Inr (128, 64)"
  by (simp add: small_layout_def adjusted_size_align_def align_to_def from_size_align_def
      is_power_of_two_def pad_to_align_def NODE_ALIGN_def NODE_SIZE_def Let_def)

lemma small_alloc:
  "\<exists>s m. lla_alloc example_list example_heap small_layout = Some (Inr (0xFFFF880000000000, s, m))"
  unfolding lla_alloc_def small_adjusted
  by (simp add: bindR_def example_list_def alloc_scan.simps example_heap_def Let_def align_up_def
      checked_add_def NODE_SIZE_def add_free_region_def NODE_ALIGN_def find_prev.simps)

section \<open>Adding memory\<close>

text \<open>
  C12. Adding a region that is aligned for a node, large enough to hold one and disjoint from the
  free bytes returns, and makes exactly its bytes free; the list stays sorted and fully coalesced,
  so that it is the one list that describes the free bytes; nothing outside them is written.
\<close>

theorem add_free_region_correct:
  assumes "heap_rep s m bs" and "region_ok a (unat n)"
    and "{unat a..<unat a + unat n} \<inter> free_bytes bs = {}"
  shows "\<exists>s' m' bs'. add_free_region s m a n = Some (Inr (s', m')) \<and> heap_rep s' m' bs'
    \<and> free_bytes bs' = free_bytes bs \<union> {unat a..<unat a + unat n}
    \<and> (\<forall>cs. blocks_ok cs \<longrightarrow> free_bytes cs = free_bytes bs' \<longrightarrow> cs = bs')
    \<and> same_outside (free_bytes bs') m m'"
proof -
  have "free_rep s m (free_bytes bs)" using assms(1) by (auto simp: free_rep_def)
  from fl.add_law [OF this assms(2,3)] obtain s' m' bs' where
    "add_free_region s m a n = Some (Inr (s', m'))" "heap_rep s' m' bs'"
    "free_bytes bs' = free_bytes bs \<union> {unat a..<unat a + unat n}" "same_outside (free_bytes bs') m m'"
    by (auto simp: free_rep_def)
  then show ?thesis using blocks_determined by (auto simp: heap_rep_def)
qed

theorem add_free_region_correct_witness:
  "\<exists>s' m' bs'. add_free_region example_list example_heap 0xFFFF880000010000 65536 = Some (Inr (s', m'))
    \<and> heap_rep s' m' bs' \<and> bs' = [(0xFFFF880000000000, 131072)]"
proof -
  let ?a = "0xFFFF880000010000 :: u64" and ?n = "65536 :: u64" and ?c = "[(0xFFFF880000000000, 131072)] :: block list"
  have ok: "region_ok ?a (unat ?n)" by (simp add: region_ok_def)
  have dj: "{unat ?a..<unat ?a + unat ?n} \<inter> free_bytes [(0xFFFF880000000000, 65536)] = {}"
    by (simp add: span_def)
  obtain s' m' bs' where r: "add_free_region example_list example_heap ?a ?n = Some (Inr (s', m'))"
    "heap_rep s' m' bs'" "free_bytes bs' = free_bytes [(0xFFFF880000000000, 65536)] \<union> {unat ?a..<unat ?a + unat ?n}"
    "\<forall>cs. blocks_ok cs \<longrightarrow> free_bytes cs = free_bytes bs' \<longrightarrow> cs = bs'"
    using add_free_region_correct [OF example_blocks ok dj] by blast
  have "free_bytes ?c = free_bytes bs'"
    unfolding r(3) by (simp add: span_def ivl_disj_un_two(3))
  moreover have "blocks_ok ?c" by (simp add: blocks_ok_def block_ok_def block_end_def)
  ultimately have "bs' = ?c" using r(4) by blast
  then show ?thesis using r(1,2) by blast
qed

lemma add_panics:
  "(\<exists>e. add_free_region s m a n = Some (Inl e)) \<longleftrightarrow> \<not> (8 dvd unat a \<and> 16 \<le> unat n)"
proof -
  have "a mod NODE_ALIGN \<noteq> 0 \<longleftrightarrow> \<not> 8 dvd unat a" "n < NODE_SIZE \<longleftrightarrow> \<not> 16 \<le> unat n"
    by (simp_all add: NODE_ALIGN_def NODE_SIZE_def word_unat_eq_iff unat_mod word_less_nat_alt
        mod_eq_0_iff_dvd not_le)
  then show ?thesis by (simp add: add_free_region_def Let_def split: option.splits)
qed

text \<open>
  C20. When the allocator panics. Adding a region panics exactly if the region is not aligned for a
  node or cannot hold one, whatever the list. On a well-formed list, allocation panics exactly for
  the layouts whose size, rounded up for a node, exceeds the largest object; deallocation panics
  for those layouts and for a misaligned pointer.
\<close>

theorem lla_panics:
  assumes "free_rep s m F" and "valid_layout l" and "align_room l F"
  shows "((\<exists>e. add_free_region s m a n = Some (Inl e)) \<longleftrightarrow> \<not> (8 dvd unat a \<and> 16 \<le> unat n))
    \<and> ((\<exists>e. lla_alloc s m l = Some (Inl e)) \<longleftrightarrow> 2 ^ 63 < unat (layout_size l) + boundary l)
    \<and> ((\<exists>e. lla_dealloc s m p l = Some (Inl e))
        \<longleftrightarrow> 2 ^ 63 < unat (layout_size l) + boundary l \<or> \<not> 8 dvd unat p)"
proof (cases "servable l")
  case True
  obtain sz al where "adjusted_size_align l = Inr (sz, al)" "unat sz = extent l"
    using adjusted_servable [OF True] by blast
  then have "(\<exists>e. lla_dealloc s m p l = Some (Inl e)) \<longleftrightarrow> \<not> 8 dvd unat p"
    using add_panics [of s m p sz] servable_facts(1) [OF True] by (simp add: lla_dealloc_def bindR_def)
  moreover have "\<not> (\<exists>e. lla_alloc s m l = Some (Inl e))"
    using fl.alloc_law [OF assms(1) True assms(3)] by auto
  ultimately show ?thesis using add_panics True by (simp add: servable_def)
next
  case False
  then have "lla_alloc s m l = Some (Inl ExpectFailed)" "lla_dealloc s m p l = Some (Inl ExpectFailed)"
    using adjusted_not_servable [OF assms(2)] by (simp_all add: lla_alloc_def lla_dealloc_def bindR_def)
  then show ?thesis using add_panics False assms(2) by (simp add: servable_def)
qed

theorem lla_panics_witness:
  "(\<exists>e. add_free_region example_list example_heap 4 64 = Some (Inl e))
   \<and> \<not> (\<exists>e. lla_alloc example_list example_heap small_layout = Some (Inl e))"
proof -
  have v: "valid_layout small_layout" using small_servable by (simp add: servable_def)
  show ?thesis
    using lla_panics [OF example_free_rep v small_align_room, of 4 64] small_servable
    by (simp add: servable_def)
qed

section \<open>Allocation\<close>



text \<open>
  C19. A block given back right after it was taken is free again together with all that stayed
  free; if no edge was lost, the list of blocks is the one before the allocation.
\<close>

theorem alloc_dealloc_roundtrip:
  assumes rep: "heap_rep s m bs" and l: "servable l" "align_room l (free_bytes bs)"
    and al: "lla_alloc s m l = Some (Inr (p, s1, m1))" and p: "p \<noteq> 0"
  shows "\<exists>s2 m2 bs2. lla_dealloc s1 m1 p l = Some (Inr (s2, m2)) \<and> heap_rep s2 m2 bs2
    \<and> block_bytes p l \<subseteq> free_bytes bs2 \<and> free_bytes bs2 \<subseteq> free_bytes bs
    \<and> free_bytes bs - free_bytes bs2 \<subseteq> {unat p - 8..<unat p} \<union> {unat p + extent l..<unat p + extent l + 15}
    \<and> (free_bytes bs2 = free_bytes bs \<longrightarrow> bs2 = bs)
    \<and> same_outside (free_bytes bs) m m2"
proof -
  have "free_rep s m (free_bytes bs)" using rep by (auto simp: free_rep_def)
  then obtain F' s2 m2 where r: "free_rep s1 m1 F'" "taken l (free_bytes bs) p F'"
    "lla_dealloc s1 m1 p l = Some (Inr (s2, m2))" "free_rep s2 m2 (F' \<union> block_bytes p l)"
    "same_outside (free_bytes bs) m m2"
    by (rule fl.alloc_dealloc [OF _ l al p])
  have "lowest_room l (free_bytes bs) p"
    using fl.alloc_law [OF \<open>free_rep s m (free_bytes bs)\<close> l] al by auto
  then have "block_bytes p l \<subseteq> free_bytes bs" using p by (simp add: lowest_room_def room_for_def block_bytes_def)
  moreover obtain bs2 where "heap_rep s2 m2 bs2" "free_bytes bs2 = F' \<union> block_bytes p l"
    using r(4) by (auto simp: free_rep_def)
  ultimately show ?thesis
    using r(2,3,5) p rep blocks_determined [of bs2 bs]
    by (intro exI [of _ s2] exI [of _ m2] exI [of _ bs2]) (auto simp: taken_def block_bytes_def heap_rep_def)
qed

theorem alloc_dealloc_roundtrip_witness:
  "\<exists>s1 m1 s2 m2 bs2. lla_alloc example_list example_heap small_layout = Some (Inr (0xFFFF880000000000, s1, m1))
    \<and> lla_dealloc s1 m1 0xFFFF880000000000 small_layout = Some (Inr (s2, m2)) \<and> heap_rep s2 m2 bs2"
proof -
  let ?bs = "[(0xFFFF880000000000, 65536)] :: block list"
  have room: "align_room small_layout (free_bytes ?bs)"
    using small_align_room by (simp add: span_def)
  obtain s1 m1 where a: "lla_alloc example_list example_heap small_layout = Some (Inr (0xFFFF880000000000, s1, m1))"
    using small_alloc by blast
  have "(0xFFFF880000000000 :: u64) \<noteq> 0" by simp
  from alloc_dealloc_roundtrip [OF example_blocks small_servable room a this]
  obtain s2 m2 bs2 where "lla_dealloc s1 m1 0xFFFF880000000000 small_layout = Some (Inr (s2, m2))" "heap_rep s2 m2 bs2"
    by (elim exE conjE)
  then show ?thesis using a by (intro exI conjI)
qed

section \<open>Runs\<close>






section \<open>Alignments beyond the heap\<close>


end
