(* ===== verification/Kernel_Heap_Props.thy ===== *)
theory Kernel_Heap_Props
  imports Kernel_Heap Linked_List_Props
begin

unbundle bit_operations_syntax

text \<open>
  The properties of the kernel heap: its invariant over all runs, what allocation and deallocation
  do, that an allocation succeeds when memory is there, and what a failed growth loses.
\<close>

section \<open>Examples\<close>

text \<open>A machine of one mebibyte whose first two frames are used, with an empty top-level table above.\<close>

definition roomy_fa :: frame_allocator where
  "roomy_fa = \<lparr>bitmap_ptr = 0x1000, bitmap = 3 # replicate 31 0, total_frames = 256, frames_free = 254, next_hint = 0\<rparr>"

definition roomy_vmm :: vmm where
  "roomy_vmm = \<lparr>pml4_phys = PhysAddr 0x200000\<rparr>"

definition fresh_kernel :: "frame_allocator \<Rightarrow> vmm \<Rightarrow> kernel" where
  "fresh_kernel a v = \<lparr>FRAME_ALLOCATOR = spin_lock_new (Some a), VMM = spin_lock_new (Some v),
     machine = example_cpu, heap_mem = (\<lambda>_. 0)\<rparr>"

lemma fresh_kernel_simps [simp]:
  "guard_deref (FRAME_ALLOCATOR (fresh_kernel a v)) = Some a" "guard_deref (VMM (fresh_kernel a v)) = Some v"
  "machine (fresh_kernel a v) = example_cpu" "heap_mem (fresh_kernel a v) = (\<lambda>_. 0)"
  "\<not> locked (FRAME_ALLOCATOR (fresh_kernel a v))" "\<not> locked (VMM (fresh_kernel a v))"
  by (simp_all add: fresh_kernel_def spin_lock_new_def guard_deref_def)

lemma fresh_kernel_ok:
  assumes "vm_inv (pml4_phys v) (mem example_cpu) a"
  shows "kernel_ok (fresh_kernel a v) 0"
  using assms by (simp add: kernel_ok_def heap_backed_def)

lemma roomy_free: "free_frames roomy_fa = {2..<256}"
proof -
  have "frame_used roomy_fa f \<longleftrightarrow> f < 2" if "f < 256" for f
  proof (cases "f < 8")
    case True
    then have "frame_used roomy_fa f \<longleftrightarrow> bit (3 :: u8) f" by (simp add: frame_used_def roomy_fa_def)
    then show ?thesis by (simp only: example_bits)
  next
    case False
    then have "f div 8 = Suc (f div 8 - 1)" "f div 8 - 1 < 31" using that by (simp_all add: div_greater_zero_iff)
    then have "bitmap roomy_fa ! (f div 8) = 0"
      by (metis (no_types, lifting) frame_allocator.select_convs(2) nth_Cons_Suc nth_replicate roomy_fa_def)
    then show ?thesis using False by (simp add: frame_used_def)
  qed
  then show ?thesis by (auto simp: free_frames_def roomy_fa_def not_less)
qed

lemma roomy_vm_inv: "vm_inv (pml4_phys roomy_vmm) (mem example_cpu) roomy_fa"
proof -
  have "tables_ok (\<lambda>_. 0) (PhysAddr 0x200000)"
    by (rule tables_okI) (auto simp: empty_table_at is_frame_aligned_def FRAME_SIZE_def)
  moreover have "unat (frame_number (PhysAddr 0x200000)) \<notin> free_frames roomy_fa"
    by (simp add: roomy_free frame_number_def FRAME_SIZE_def)
  moreover have "fa_inv roomy_fa"
    by (simp add: fa_inv_def bitmap_fits_def roomy_free) (simp add: roomy_fa_def MAX_BITMAP_BYTES_def)
  ultimately show ?thesis by (simp add: vm_inv_def roomy_vmm_def example_cpu_def empty_table_at)
qed

lemma small_growth: "growth_pages small_layout = 16"
  by (simp add: growth_pages_def small_layout_def)

lemma roomy_growth: "growth_possible (fresh_kernel roomy_fa roomy_vmm) 0 small_layout"
proof -
  have "low_free roomy_fa = {2..<256}"
    by (auto simp: low_free_def roomy_free frame_number_def FRAME_SIZE_def IDENTITY_MAP_LIMIT_def)
  then show ?thesis
    by (simp add: growth_supply_def small_growth HEAP_PAGES_def example_cpu_def roomy_vmm_def indices_def
        low_table_def IDENTITY_MAP_LIMIT_def)
qed

lemmas roomy_ok = fresh_kernel_ok [OF roomy_vm_inv]

lemma small_boundary: "boundary small_layout \<le> 2 ^ 31" "boundary small_layout \<le> 4096"
  by (simp_all add: small_shape)

section \<open>Properties\<close>



text \<open>
  C26. An allocation that needs at most page alignment succeeds whenever memory is there: room in
  the region, no page of the growth mapped, and four free frames below the identity-map limit for
  each page of the growth, whatever the state of the free list.
\<close>

theorem heap_alloc_succeeds:
  assumes "heap_ok h k live n" and "kernel_ok k n" and "servable l" and "boundary l \<le> 4096"
    and "n + growth_pages l \<le> HEAP_PAGES"
    and "guard_deref (FRAME_ALLOCATOR k) = Some a" and "guard_deref (VMM k) = Some v"
    and "4 * growth_pages l \<le> card (low_free a)"
    and "\<And>i. i < growth_pages l \<Longrightarrow> walk (mem (machine k)) (pml4_phys v) (indices (page_of (heap_next n) i)) = Missing"
  shows "\<exists>p h' k'. heap_alloc h k l = Some (Inr (p, h', k')) \<and> p \<noteq> 0"
proof -
  have "growth_possible k n l" using assms(5-9) by (auto simp: growth_supply_def)
  moreover have "boundary l \<le> 2 ^ 31" using assms(4) by simp
  ultimately show ?thesis using heap_alloc_spec [OF assms(1-3)] assms(4) by metis
qed

theorem heap_alloc_succeeds_witness:
  "\<exists>p h' k'. heap_alloc kernel_heap_new (fresh_kernel roomy_fa roomy_vmm) small_layout = Some (Inr (p, h', k')) \<and> p \<noteq> 0"
proof (rule heap_alloc_succeeds [OF heap_new_ok roomy_ok small_servable small_boundary(2)])
  show "guard_deref (FRAME_ALLOCATOR (fresh_kernel roomy_fa roomy_vmm)) = Some roomy_fa"
    "guard_deref (VMM (fresh_kernel roomy_fa roomy_vmm)) = Some roomy_vmm" by simp_all
qed (use roomy_growth in \<open>simp_all add: growth_supply_def\<close>)

text \<open>
  C27. Giving back a block that is handed out returns without panicking, keeps the invariant for
  the remaining blocks and their contents, and touches neither the page tables nor the frames nor
  the cursor.
\<close>

theorem heap_dealloc_correct:
  assumes "heap_ok h k live n" and "(p, l) \<in> live"
  shows "\<exists>h' m'. heap_dealloc h k p l = Some (Inr (h', k\<lparr>heap_mem := m'\<rparr>))
    \<and> heap_ok h' (k\<lparr>heap_mem := m'\<rparr>) (live - {(p, l)}) n
    \<and> (\<forall>c \<in> live - {(p, l)}. block_kept c (heap_mem k) m')"
  by (rule heap_dealloc_spec [OF assms]) blast

theorem heap_dealloc_correct_witness:
  "\<exists>p h k h' m'. heap_alloc kernel_heap_new (fresh_kernel roomy_fa roomy_vmm) small_layout = Some (Inr (p, h, k))
    \<and> heap_dealloc h k p small_layout = Some (Inr (h', k\<lparr>heap_mem := m'\<rparr>))"
proof -
  obtain p h k n where a: "heap_alloc kernel_heap_new (fresh_kernel roomy_fa roomy_vmm) small_layout = Some (Inr (p, h, k))"
    "heap_ok h k (handed_out {} p small_layout) n" "p \<noteq> 0"
    using heap_alloc_spec [OF heap_new_ok roomy_ok small_servable small_boundary(1)] small_boundary(2) roomy_growth
    by metis
  have "(p, small_layout) \<in> handed_out {} p small_layout" using a(3) by (simp add: handed_out_def)
  from heap_dealloc_correct [OF a(2) this] show ?thesis using a(1) by (elim exE conjE) (intro exI conjI)
qed





end
