(* ===== verification/Boot_Props.thy ===== *)
theory Boot_Props
  imports Kernel_Main Kernel_Heap_Props
begin

unbundle bit_operations_syntax

text \<open>
  The properties of the boot: what the self-tests decide, that a boot on a machine with enough
  memory runs to its intended end, and that a boot information the kernel cannot use stops it.
\<close>

section \<open>A machine with 64 MiB\<close>

text \<open>A map of one descriptor: 16384 conventional pages from \<open>0x100000\<close>; the tables are below it.\<close>

definition ample_map :: byte_mem where
  "ample_map a = (if a = 0x5000 then 7 else if a = 0x500A then 0x10 else if a = 0x5019 then 0x40 else 0)"

definition ample_info :: boot_info where
  "ample_info = example_boot_info\<lparr>kernel_physical_base := 0x52000000, kernel_size_bytes := 0x1000000\<rparr>"

lemma ample_fields:
  "memory_map_phys_addr ample_info = 0x5000" "memory_map_size_bytes ample_info = 48"
  "memory_map_descriptor_size ample_info = 48" "memory_map_entry_count ample_info = 1"
  by (simp_all add: ample_info_def example_boot_info_fields)

lemma ample_entries:
  "memory_map_entries ample_map ample_info
    = [\<lparr>entry_typ = 7, physical_start = PhysAddr 0x100000, number_of_pages = 16384\<rparr>]"
  by (simp add: memory_map_entries_eq ample_fields read_entry_at_def read_unaligned_u32_def
      read_unaligned_u64_def read_bytes_def ample_map_def upt_rec)

lemma ample_passes:
  "highest_addr_pass (memory_map_entries ample_map ample_info) 0 = 0x4100000"
  "bitmap_region_pass (memory_map_entries ample_map ample_info) 2080 = Some 0x100000"
  by (simp_all add: ample_entries init_eval)

lemma ample_offered: "(\<Union>e \<in> {e \<in> set (memory_map_entries ample_map ample_info). usable_entry e}. entry_frames e) = {256..<16640}"
proof -
  let ?e = "\<lparr>entry_typ = 7, physical_start = PhysAddr 0x100000, number_of_pages = 16384\<rparr> :: memory_map_entry"
  have "usable_entry ?e" "entry_frames ?e = {256..<16640}"
    by (simp_all add: usable_entry_def valid_entry_def entry_frames_def init_eval)
  then show ?thesis by (simp add: ample_entries Collect_conv_if)
qed

lemma ample_init:
  obtains a where "fa_init ample_map ample_info = Inr (Inr a)" and "free_frames a = {257..<16640}"
proof -
  let ?es = "memory_map_entries ample_map ample_info"
  let ?a0 = "all_used_allocator 0x100000 2080 16640"
  have tot: "(16640 :: u64) = 0x4100000 div FRAME_SIZE" "div_ceil (16640 :: u64) 8 = 2080"
    by (simp_all add: FRAME_SIZE_def div_ceil_def)
  have core: "fa_core ?a0" "free_frames ?a0 = {}" "total_frames ?a0 = 16640"
    using all_used_core [OF tot(1), unfolded tot(2)] by (simp_all add: MAX_BITMAP_BYTES_def all_used_allocator_def)
  have in_range: "({256..<16640} :: nat set) \<inter> {..<16640} = {256..<16640}" by auto
  obtain a1 where a1: "free_pass ?a0 ?es = Inr a1" "fa_core a1" "free_frames a1 = {256..<16640}"
    using free_pass_spec [OF core(1), of ?es] core(2,3)
    unfolding ample_offered by (auto simp: in_range)
  obtain a where a: "reserve_range a1 256 257 = Inr a" "free_frames a = {256..<16640} - {256..<257}"
    using reserve_range_spec [OF a1(2), of 256 257] a1(3) by auto
  have "fa_init ample_map ample_info = Inr (Inr a)"
    using a1(1) a(1) ample_passes tot(2)
    by (simp add: fa_init_def Let_def checked_mul_def ample_fields FRAME_SIZE_def MAX_BITMAP_BYTES_def
        frame_number_def saturating_add_def div_ceil_def)
  then show thesis by (rule that) (use a(2) in auto)
qed

lemma ample_low: "free_frames a = {257..<16640} \<Longrightarrow> low_free a = {257..<16640}"
proof -
  assume free: "free_frames a = {257..<16640}"
  have "unat (frame_number (PhysAddr IDENTITY_MAP_LIMIT)) = 1048576"
    by (simp add: frame_number_def FRAME_SIZE_def IDENTITY_MAP_LIMIT_def)
  then have "f < unat (frame_number (PhysAddr IDENTITY_MAP_LIMIT))" if "f \<in> {257..<16640}" for f
    using that by simp
  then show ?thesis unfolding low_free_def free by blast
qed

definition ample_platform :: "bool \<Rightarrow> platform" where
  "ample_platform wp = \<lparr>uart_dev = slow_device, uart_before = idle_uart, links = example_link, map_bytes = ample_map,
     boot_info_at = (\<lambda>p. if p = 0x6000 then ample_info else ample_info\<lparr>magic := 0\<rparr>), self_fn_vaddr = 0x12345678, write_protect = wp,
     saved_frame = (\<lambda>_. \<lparr>rip = 0xFFFFFFFF80002000, frame_cs = 8, rflags = 2, rsp = 0xFFFFFFFF80020000, frame_ss = 16\<rparr>),
     panic_location = (\<lambda>_. None)\<rparr>"

lemma ample_platform_simps [simp]:
  "uart_dev (ample_platform wp) = slow_device" "uart_before (ample_platform wp) = idle_uart" "links (ample_platform wp) = example_link"
  "map_bytes (ample_platform wp) = ample_map" "boot_info_at (ample_platform wp) 0x6000 = ample_info"
  "self_fn_vaddr (ample_platform wp) = 0x12345678" "write_protect (ample_platform wp) = wp"
  by (simp_all add: ample_platform_def)

definition ample_world :: world where
  "ample_world = \<lparr>kern = \<lparr>FRAME_ALLOCATOR = spin_lock_new None, VMM = spin_lock_new None, machine = huge_cpu, heap_mem = (\<lambda>_. 0)\<rparr>,
     ALLOCATOR = kernel_heap_new, io = [], ints = boot_interrupt_state\<rparr>"

lemma ample_world_simps [simp]:
  "the_cpu ample_world = huge_cpu" "ALLOCATOR ample_world = kernel_heap_new" "ints ample_world = boot_interrupt_state"
  "\<not> locked (FRAME_ALLOCATOR (kern ample_world))" "\<not> locked (VMM (kern ample_world))" "hw_vmm huge_cpu = example_vmm"
  by (simp_all add: ample_world_def spin_lock_new_def hw_vmm_def huge_cpu_def example_cpu_def example_vmm_def)

lemma heap_page_pml4: "i \<le> 65536 \<Longrightarrow> unat (pml4_index (page_of HEAP_REGION_START i)) = 272"
proof -
  assume i: "i \<le> 65536"
  have "i * 4096 div 2 ^ 39 = 0" using i by simp
  then have "(33554192 * 2 ^ 39 + i * 4096) div 2 ^ 39 = (33554192 :: nat)" by (subst div_mult_self3) simp_all
  moreover have "unat (virt_as_u64 (page_of HEAP_REGION_START i)) = 33554192 * 2 ^ 39 + i * 4096"
    using page_of_word(1) [OF heap_page_run, of i] i by (simp add: HEAP_REGION_START_def HEAP_PAGES_def)
  ultimately show ?thesis by (simp only: unat_indices) simp
qed

lemma ample_heap_unmapped: "i \<le> 65536 \<Longrightarrow> walk (mem huge_cpu) (pml4_phys example_vmm) (indices (page_of HEAP_REGION_START i)) = Missing"
proof -
  assume "i \<le> 65536"
  then have "unat (pml4_index (page_of HEAP_REGION_START i)) = 272" by (rule heap_page_pml4)
  moreover from this have "pml4_index (page_of HEAP_REGION_START i) \<noteq> 0" by auto
  ultimately show ?thesis
    by (simp add: indices_def huge_entries example_vmm_def low_table_def IDENTITY_MAP_LIMIT_def)
qed

lemma readonly_page: "VirtAddr READONLY_TEST_VADDR = page_of HEAP_REGION_START 65536"
  by (simp add: page_of_def READONLY_TEST_VADDR_def HEAP_REGION_START_def PAGE_SIZE_def)

lemma ample_pages:
  assumes "free_frames a = {257..<16640}"
  shows "pages_ready (ample_platform wp) ample_info ample_world a"
proof -
  have "code_in_range ample_info (PhysAddr 0x52345678)" by (simp add: code_in_range_def ample_info_def)
  moreover have "tlb_coherent example_vmm huge_cpu" by (simp add: tlb_coherent_def huge_cpu_def example_cpu_def)
  moreover have "translate example_vmm huge_cpu (VirtAddr 0x12345678) = Some (PhysAddr 0x52345678)"
    using translate_walk [OF huge_tables, of "VirtAddr 0x12345678"] huge_walk by (simp add: resolve_def entry_addr_def ADDR_MASK_def)
  ultimately show ?thesis
    by (simp add: pages_ready_def ample_low [OF assms] ample_heap_unmapped readonly_page HEAP_TEST_PAGES_def)
qed

lemma ample_tables: "tables_reserved (ample_platform wp) ample_info ample_world"
proof -
  have "unat (frame_number u) \<notin> {256..<16640}"
    if "valid_path p" "table_at (mem huge_cpu) (pml4_phys example_vmm) p = Some u" for p u
    using huge_table_at [OF that(1), of u] that(2) by (auto simp: example_vmm_def frame_number_def FRAME_SIZE_def)
  then have "unat (frame_number u) \<notin> entry_frames e"
    if "valid_path p" "table_at (mem huge_cpu) (pml4_phys example_vmm) p = Some u"
      "e \<in> set (memory_map_entries ample_map ample_info)" "usable_entry e" for p u e
    using that unfolding ample_offered [symmetric] by blast
  then show ?thesis
    unfolding tables_reserved_def Let_def ample_world_simps ample_platform_simps using huge_tables by blast
qed

lemma ample_globals: "globals_ready (ample_platform wp) ample_world"
proof -
  have "inj_on (handler_addr example_link) {..<32}"
  proof (rule inj_onI)
    fix x y :: nat
    assume "x \<in> {..<32}" "y \<in> {..<32}" "handler_addr example_link x = handler_addr example_link y"
    then have xy: "x < 32" "y < 32" and "(of_nat (64 * x) :: u64) = of_nat (64 * y)" by (simp_all add: example_link_def)
    then have "unat (of_nat (64 * x) :: u64) = unat (of_nat (64 * y) :: u64)" by (simp only:)
    then show "x = y" using xy by (simp add: unat_of_nat del: of_nat_mult)
  qed
  then show ?thesis by (simp add: globals_ready_def statics_linked_def boot_interrupt_state_def TSS_static_def)
qed

lemma ample_valid: "is_valid ample_info"
  by (simp add: is_valid_def ample_info_def example_boot_info_def BOOTINFO_VERSION_def size_of_BootInfo_96)

section \<open>Properties\<close>

text \<open>
  C3. On a machine as the bootloader should leave it (a valid boot information whose map the frame
  allocator accepts, page tables outside the memory the map offers, true cached translations, the
  pages of the heap region that the tests use not mapped, the kernel's code inside the image, 8135
  free frames below 4 GiB, free locks, an empty heap and a serial device that becomes ready), the
  boot passes every self-test without a panic, takes and leaves the breakpoint, and ends in the
  page-fault handler, whose report of a write to a present page at the test address is the last
  thing printed. With write protection off, which no code of the kernel turns on, the last write
  goes through and the boot ends in the loop the source calls unreachable.
\<close>

theorem boot_completes:
  assumes "boot_info_ptr \<noteq> 0" and "is_valid (boot_info_at pf boot_info_ptr)"
    and "fa_init (map_bytes pf) (boot_info_at pf boot_info_ptr) = Inr (Inr a)"
    and "tables_reserved pf (boot_info_at pf boot_info_ptr) w" and "pages_ready pf (boot_info_at pf boot_info_ptr) w a"
    and "globals_ready pf w" and "responsive (uart_dev pf)"
  shows "\<exists>w'. (kernel_main pf boot_info_ptr :: 'a boot) w = Some (w', Inl (Halt (if write_protect pf then InHandler 14 else EndOfBoot)))
    \<and> (write_protect pf \<longrightarrow> (\<exists>before. tx (uart_of (uart_before pf) (io w')) = before
         @ report_text 14 (ascii ''Page Fault (#PF)'') (Some 3) (saved_frame pf 14) READONLY_TEST_VADDR @ closing_text 14))"
proof -
  obtain w' and r :: "ending + 'a" where run: "kernel_main pf boot_info_ptr w = Some (w', r)" "boot_end pf r w'"
    using kernel_main_completes [OF assms] unfolding ends_def by blast
  have "r = Inl (Halt (if write_protect pf then InHandler 14 else EndOfBoot))" "write_protect pf \<longrightarrow> final_report pf w'"
    using run(2) by (simp_all add: boot_end_def split: if_splits)
  then show ?thesis using run(1) unfolding final_report_def by blast
qed

theorem boot_completes_witness:
  "(\<exists>w'. kernel_main (ample_platform True) 0x6000 ample_world = Some (w', Inl (Halt (InHandler 14)) :: ending + unit))
   \<and> (\<exists>w'. kernel_main (ample_platform False) 0x6000 ample_world = Some (w', Inl (Halt EndOfBoot) :: ending + unit))"
proof -
  obtain a where a: "fa_init ample_map ample_info = Inr (Inr a)" "free_frames a = {257..<16640}" by (rule ample_init)
  have "\<exists>w'. kernel_main (ample_platform wp) 0x6000 ample_world
      = Some (w', Inl (Halt (if wp then InHandler 14 else EndOfBoot)) :: ending + unit)" for wp
    using boot_completes [of "0x6000" "ample_platform wp" a ample_world] a(1) ample_pages [OF a(2)] ample_tables ample_globals
      ample_valid slow_responsive by fastforce
  from this [of True] this [of False] show ?thesis by simp
qed

text \<open>
  C38. A boot information the kernel cannot use stops the boot: a null pointer, a wrong magic, version
  or size, and each error of the frame allocator's initialisation halt at their own place, with
  nothing changed but the serial line.
\<close>

theorem boot_rejects:
  assumes "responsive (uart_dev pf)"
    and "site = (if boot_info_ptr = 0 then NullBootInfo
      else if \<not> is_valid (boot_info_at pf boot_info_ptr) then InvalidBootInfo else FrameAllocatorInit e)"
    and "boot_info_ptr \<noteq> 0 \<Longrightarrow> is_valid (boot_info_at pf boot_info_ptr) \<Longrightarrow>
      fa_init (map_bytes pf) (boot_info_at pf boot_info_ptr) = Inr (Inl e)"
  shows "\<exists>w'. kernel_main pf boot_info_ptr w = Some (w', Inl (Halt site)) \<and> quietly w w'"
proof -
  have "rejected pf boot_info_ptr = Some site" using assms(2,3) by (auto simp: rejected_def)
  from kernel_main_rejects [OF this assms(1)] show ?thesis by (auto simp: ends_def)
qed

theorem boot_rejects_witness:
  "(\<exists>w'. kernel_main (ample_platform True) 0 ample_world = Some (w', Inl (Halt NullBootInfo) :: ending + unit) \<and> kern w' = kern ample_world)
   \<and> (\<exists>w'. kernel_main (ample_platform True) 0x7000 ample_world = Some (w', Inl (Halt InvalidBootInfo) :: ending + unit))
   \<and> (\<exists>w'. kernel_main (ample_platform True\<lparr>map_bytes := (\<lambda>_. 0)\<rparr>) 0x6000 ample_world
        = Some (w', Inl (Halt (FrameAllocatorInit InconsistentMemoryMap)) :: ending + unit))"
proof -
  have bad: "\<not> is_valid (boot_info_at (ample_platform True) 0x7000)"
    by (simp add: ample_platform_def is_valid_def BOOTINFO_MAGIC_def)
  have "memory_map_entries (\<lambda>_. 0) ample_info = [\<lparr>entry_typ = 0, physical_start = PhysAddr 0, number_of_pages = 0\<rparr>]"
    by (simp add: memory_map_entries_eq ample_fields read_entry_at_def read_unaligned_u32_def read_unaligned_u64_def read_bytes_def upt_rec)
  then have none: "fa_init (\<lambda>_. 0) ample_info = Inr (Inl InconsistentMemoryMap)"
    by (simp add: fa_init_def Let_def checked_mul_def ample_fields)
  show ?thesis
    using boot_rejects [of "ample_platform True" NullBootInfo 0 InconsistentMemoryMap ample_world]
      boot_rejects [of "ample_platform True" InvalidBootInfo "0x7000" InconsistentMemoryMap ample_world]
      boot_rejects [of "ample_platform True\<lparr>map_bytes := (\<lambda>_. 0)\<rparr>" "FrameAllocatorInit InconsistentMemoryMap" "0x6000"
        InconsistentMemoryMap ample_world] slow_responsive bad none ample_valid
    by (auto dest: quietlyD)
qed

text \<open>
  C39. The self-test of the frame allocator returns, without a panic, and passes exactly if at least 16
  frames are free. It keeps the invariant, and when it passes the free frames are those from before.
\<close>

theorem frame_self_test_verdict:
  assumes "fa_inv a" and "console_ready pf w"
  shows "\<exists>w' a'. run_frame_allocator_boot_self_test pf a w = Some (w', Inr (16 \<le> card (free_frames a), a'))
    \<and> quietly w w' \<and> fa_inv a' \<and> same_pool a a' \<and> (16 \<le> card (free_frames a) \<longrightarrow> free_frames a' = free_frames a)"
  using frame_self_test [OF assms] unfolding ends_def by blast

lemma ample_console: "console_ready (ample_platform wp) ample_world"
  using slow_responsive by (simp add: console_ready_def ample_world_def dlab_def idle_uart_def LCR_DLAB_def)

theorem frame_self_test_verdict_witness:
  "(\<exists>w' a'. run_frame_allocator_boot_self_test (ample_platform True) example_fa ample_world = Some (w', Inr (False, a')))
   \<and> (\<exists>w' a'. run_frame_allocator_boot_self_test (ample_platform True) roomy_fa ample_world = Some (w', Inr (True, a'))
        \<and> free_frames a' = free_frames roomy_fa)"
proof -
  have "\<not> 16 \<le> card (free_frames example_fa)" "16 \<le> card (free_frames roomy_fa)" by (simp_all add: example_free roomy_free)
  then show ?thesis
    using frame_self_test_verdict [OF example_inv ample_console, of True]
      frame_self_test_verdict [OF vm_invD(1) [OF roomy_vm_inv] ample_console, of True]
    by (simp only: simp_thms) blast
qed

text \<open>
  C40. On a heap in order with nothing handed out, the self-test of the heap (boxes, growing vectors and
  repeated large allocations) finds every value it wrote: it returns true with the heap and the page
  tables in order and everything given back, or memory runs out and it panics in the allocation
  error handler, which cannot happen if 2032 pages and the frames for them are there.
\<close>

theorem heap_self_test_passes:
  assumes "heap_ok (ALLOCATOR w) (kern w) {} n" and "kernel_ok (kern w) n" and "console_ready pf w"
  shows "\<exists>w' r. run_heap_boot_self_test pf w = Some (w', r) \<and>
    (r = Inr True \<and> (\<exists>n'. heap_ok (ALLOCATOR w') (kern w') {} n' \<and> kernel_ok (kern w') n')
     \<or> r = Inl (Halt (AfterPanic AllocError))
       \<and> \<not> provided (VirtAddr READONLY_TEST_VADDR) HEAP_TEST_PAGES HEAP_TEST_PAGES (kern w) n)"
proof -
  let ?p = "provided (VirtAddr READONLY_TEST_VADDR) HEAP_TEST_PAGES HEAP_TEST_PAGES (kern w) n"
  let ?pv = "\<lparr>spare_page = VirtAddr READONLY_TEST_VADDR, page_limit = HEAP_TEST_PAGES, provision_made = ?p\<rparr>"
  have "heap_world ?pv (HEAP_TEST_PAGES + 0) {} w" using assms boot_provision_outside by (auto simp: heap_world_def)
  from heap_self_test [OF assms(3) this] obtain w' r where run: "run_heap_boot_self_test pf w = Some (w', r)"
    and r: "console_ready pf w' \<and> (case r of Inl e \<Rightarrow> \<not> provision_made ?pv \<and> e = Halt (AfterPanic AllocError)
      | Inr ok \<Rightarrow> ok \<and> heap_world ?pv 0 {} w' \<and> ints w' = ints w)"
    unfolding achieves_def ends_def by blast
  show ?thesis
  proof (cases r)
    case (Inl e)
    then show ?thesis using run r by auto
  next
    case (Inr ok)
    then have "ok" and hw: "heap_world ?pv 0 {} w'" using r by simp_all
    moreover have "\<exists>n'. heap_ok (ALLOCATOR w') (kern w') {} n' \<and> kernel_ok (kern w') n'" using hw unfolding heap_world_def by blast
    ultimately show ?thesis using run Inr by simp
  qed
qed

theorem heap_self_test_passes_witness:
  "\<exists>a w'. fa_init ample_map ample_info = Inr (Inr a)
    \<and> run_heap_boot_self_test (ample_platform True) (ample_world\<lparr>kern := fresh_kernel a example_vmm\<rparr>) = Some (w', Inr True)"
proof -
  obtain a where a: "fa_init ample_map ample_info = Inr (Inr a)" "free_frames a = {257..<16640}" by (rule ample_init)
  let ?w = "ample_world\<lparr>kern := fresh_kernel a example_vmm\<rparr>"
  have "vm_inv (pml4_phys example_vmm) (mem example_cpu) a"
    using example_vm_inv fa_init_spec(1) [OF a(1)] a(2)
    by (simp add: vm_inv_def example_cpu_def empty_table_at example_vmm_def frame_number_def FRAME_SIZE_def)
  then have k: "kernel_ok (kern ?w) 0" using fresh_kernel_ok by simp
  have "tlb_coherent example_vmm example_cpu" "hw_vmm example_cpu = example_vmm"
    by (simp_all add: tlb_coherent_def hw_vmm_def example_cpu_def example_vmm_def)
  then have "provided (VirtAddr READONLY_TEST_VADDR) HEAP_TEST_PAGES HEAP_TEST_PAGES (kern ?w) 0"
    by (simp add: provided_def ample_low [OF a(2)] HEAP_TEST_PAGES_def example_cpu_def indices_def example_vmm_def low_table_def IDENTITY_MAP_LIMIT_def)
  then show ?thesis
    using heap_self_test_passes [of ?w 0 "ample_platform True"] k heap_new_ok ample_console [of True] a(1) by (auto simp: console_ready_def)
qed

end
