(* ===== verification/Uefi.thy ===== *)
theory Uefi
  imports Boot_Info Page_Table_Entry
begin

unbundle bit_operations_syntax

text \<open>
  What the bootloader (\<open>src/boot\<close>) stands on: physical memory as bytes, the integer and pointer
  operations of its C, and the UEFI services it calls. The firmware is a parameter: a record of
  functions on the memory and on a state of its own, with the documented behaviour of each service
  as a predicate that theorems assume.
\<close>

section \<open>Shared definitions\<close>

definition PAGE_SIZE_4K :: u64 where "PAGE_SIZE_4K = 0x1000"

definition PAGE_SIZE_2M :: u64 where "PAGE_SIZE_2M = 0x200000"

definition KERNEL_VIRTUAL_BASE :: u64 where "KERNEL_VIRTUAL_BASE = 0xFFFFFFFF80000000"

definition KERNEL_MAX_SIZE_BYTES :: u64 where "KERNEL_MAX_SIZE_BYTES = 512 * PAGE_SIZE_2M"

definition RoundUpTo :: "u64 \<Rightarrow> u64 \<Rightarrow> u64" where
  "RoundUpTo value alignment = (value + (alignment - 1)) AND NOT (alignment - 1)"

lemma RoundUpTo_spec:
  assumes "unat v + 2 ^ k \<le> 2 ^ 64" and "k < 64"
  shows "unat (RoundUpTo v (2 ^ k)) = (unat v + (2 ^ k - 1)) div 2 ^ k * 2 ^ k"
proof -
  have m: "(2 :: u64) ^ k - 1 = mask k" by (simp add: mask_eq_exp_minus_1)
  have "mask k = (of_nat (2 ^ k - 1) :: u64)" by (simp add: mask_eq_exp_minus_1 of_nat_diff)
  moreover have "(2 :: nat) ^ k - 1 < 2 ^ 64" using power_strict_increasing [OF assms(2), of "2 :: nat"] by simp
  ultimately have "unat (mask k :: u64) = 2 ^ k - 1" by (simp only: unat_of_nat) simp
  moreover have "0 < (2 :: nat) ^ k" by simp
  ultimately have "unat (v + mask k) = unat v + (2 ^ k - 1)" using assms(1) by (intro trans [OF unat_add_no_wrap]) simp_all
  then show ?thesis by (simp add: RoundUpTo_def m unat_and_not_mask)
qed

section \<open>Memory\<close>

text \<open>A \<open>UINT64\<close> read or written through a pointer, little endian; the words of the kernel's memory are those at multiples of eight.\<close>

definition store64 :: "byte_mem \<Rightarrow> u64 \<Rightarrow> u64 \<Rightarrow> byte_mem" where
  "store64 m p v = (\<lambda>x. if x - p < 8 then ucast (drop_bit (8 * unat (x - p)) v) else m x)"

definition store32 :: "byte_mem \<Rightarrow> u64 \<Rightarrow> u32 \<Rightarrow> byte_mem" where
  "store32 m p v = (\<lambda>x. if x - p < 4 then ucast (drop_bit (8 * unat (x - p)) v) else m x)"

definition quads :: "byte_mem \<Rightarrow> qmem" where
  "quads m p = (if unat p mod 8 = 0 then read_unaligned_u64 m p else 0)"

definition bytes_at :: "u64 \<Rightarrow> nat \<Rightarrow> nat set" where
  "bytes_at p n = {unat p..<unat p + n}"

lemma le_bytes_parts: "le_bytes (List.map (\<lambda>i. ucast (drop_bit (8 * i) (v :: u64))) [k..<k + n]) = unat v div 2 ^ (8 * k) mod 2 ^ (8 * n)"
proof (induction n arbitrary: k)
  case (Suc n)
  have up: "[k..<k + Suc n] = k # [Suc k..<Suc k + n]" by (simp add: upt_rec)
  have b: "unat (ucast (drop_bit (8 * k) v) :: u8) = unat v div 2 ^ (8 * k) mod 256"
    by (simp add: unsigned_ucast_eq unat_drop_bit_div take_bit_eq_mod)
  let ?x = "unat v div 2 ^ (8 * k)"
  have "?x mod (256 * 2 ^ (8 * n)) = ?x mod 256 + 256 * (?x div 256 mod 2 ^ (8 * n))"
    by (simp add: mod_mult2_eq)
  moreover have "?x div 256 = unat v div 2 ^ (8 * Suc k)"
    by (simp add: div_mult2_eq [symmetric] power_add mult.commute)
  ultimately show ?case
    unfolding up list.map le_bytes.simps Suc.IH b by (simp add: power_add)
qed simp

lemma read_store64 [simp]: "read_unaligned_u64 (store64 m p v) p = v"
proof -
  have "read_bytes (store64 m p v) p 8 = List.map (\<lambda>i. ucast (drop_bit (8 * i) v)) [0..<0 + 8]"
    unfolding read_bytes_def by (rule map_cong) (auto simp: store64_def word_less_nat_alt unat_of_nat)
  then show ?thesis
    using le_bytes_parts [of v 0 8] by (simp add: read_unaligned_u64_def)
qed

lemma store64_other:
  assumes "unat p + 8 \<le> 2 ^ 64" and "unat x \<notin> bytes_at p 8"
  shows "store64 m p v x = m x"
proof -
  have "\<not> x - p < 8"
  proof
    assume "x - p < 8"
    then have u: "unat (x - p) < 8" by (simp add: word_less_nat_alt)
    have "unat x = unat p + unat (x - p)"
      using unat_add_no_wrap [of p "x - p"] u assms(1) by simp
    then show False using assms(2) u by (simp add: bytes_at_def)
  qed
  then show ?thesis by (simp add: store64_def)
qed

text \<open>Reading depends on the bytes read.\<close>

lemma read64_cong:
  assumes "unat p + 8 \<le> 2 ^ 64" and "\<And>x. unat x \<in> bytes_at p 8 \<Longrightarrow> m' x = m x"
  shows "read_unaligned_u64 m' p = read_unaligned_u64 m p"
proof -
  have "m' (p + of_nat i) = m (p + of_nat i)" if "i < 8" for i
  proof (rule assms(2))
    have "unat (p + of_nat i) = unat p + i"
      using unat_add_no_wrap [of p "of_nat i"] that assms(1) by simp
    then show "unat (p + of_nat i) \<in> bytes_at p 8" using that by (simp add: bytes_at_def)
  qed
  then have "read_bytes m' p 8 = read_bytes m p 8" by (simp add: read_bytes_def)
  then show ?thesis by (simp add: read_unaligned_u64_def)
qed

lemma aligned8_fits: "unat (p :: u64) mod 8 = 0 \<Longrightarrow> unat p + 8 \<le> 2 ^ 64"
proof -
  assume "unat p mod 8 = 0"
  then obtain k where "unat p = 8 * k" by (auto simp: mod_eq_0_iff_dvd elim!: dvdE)
  then show ?thesis using unat_lt64 [of p] by simp
qed

lemma quads_store64:
  assumes "unat p mod 8 = 0"
  shows "quads (store64 m p v) = (quads m)(p := v)"
proof
  fix x
  show "quads (store64 m p v) x = ((quads m)(p := v)) x"
  proof (cases "x = p \<or> unat x mod 8 \<noteq> 0")
    case False
    then have x: "x \<noteq> p" "unat x mod 8 = 0" by simp_all
    have "unat x \<noteq> unat p" using x(1) by (simp add: word_unat_eq_iff)
    then have "bytes_at x 8 \<inter> bytes_at p 8 = {}" using assms x(2) unfolding bytes_at_def by auto presburger+
    then have "read_unaligned_u64 (store64 m p v) x = read_unaligned_u64 m x"
      by (intro read64_cong [OF aligned8_fits [OF x(2)]] store64_other [OF aligned8_fits [OF assms]]) auto
    then show ?thesis using x by (simp add: quads_def)
  qed (use assms in \<open>auto simp: quads_def\<close>)
qed

section \<open>Services\<close>

type_synonym EFI_STATUS = u64

definition EFI_ERROR :: "EFI_STATUS \<Rightarrow> bool" where
  "EFI_ERROR x \<longleftrightarrow> sint x < 0"

definition EFI_SUCCESS :: EFI_STATUS where
  "EFI_SUCCESS = 0"

datatype EFI_ALLOCATE_TYPE =
    AllocateAnyPages
  | AllocateMaxAddress
  | AllocateAddress
  | MaxAllocateType

datatype EFI_MEMORY_TYPE =
    EfiReservedMemoryType
  | EfiLoaderCode
  | EfiLoaderData
  | EfiBootServicesCode
  | EfiBootServicesData
  | EfiRuntimeServicesCode
  | EfiRuntimeServicesData
  | EfiConventionalMemory
  | EfiUnusableMemory
  | EfiACPIReclaimMemory
  | EfiACPIMemoryNVS
  | EfiMemoryMappedIO
  | EfiMemoryMappedIOPortSpace
  | EfiPalCode
  | EfiPersistentMemory
  | EfiMaxMemoryType

type_synonym CHAR16 = u16

text \<open>A wide literal of the source.\<close>

definition wide :: "string \<Rightarrow> CHAR16 list" where
  "wide s = List.map of_char s"

record EFI_GUID =
  Data1 :: u32
  Data2 :: u16
  Data3 :: u16
  Data4 :: "u8 list"

definition EFI_LOADED_IMAGE_PROTOCOL_GUID :: EFI_GUID where
  "EFI_LOADED_IMAGE_PROTOCOL_GUID = \<lparr>Data1 = 0x5B1B31A1, Data2 = 0x9562, Data3 = 0x11D2, Data4 = [0x8E, 0x3F, 0x00, 0xA0, 0xC9, 0x69, 0x72, 0x3B]\<rparr>"

definition EFI_SIMPLE_FILE_SYSTEM_PROTOCOL_GUID :: EFI_GUID where
  "EFI_SIMPLE_FILE_SYSTEM_PROTOCOL_GUID = \<lparr>Data1 = 0x964E5B22, Data2 = 0x6459, Data3 = 0x11D2, Data4 = [0x8E, 0x39, 0x00, 0xA0, 0xC9, 0x69, 0x72, 0x3B]\<rparr>"

definition EFI_FILE_INFO_ID :: EFI_GUID where
  "EFI_FILE_INFO_ID = \<lparr>Data1 = 0x09576E92, Data2 = 0x6D3F, Data3 = 0x11D2, Data4 = [0x8E, 0x39, 0x00, 0xA0, 0xC9, 0x69, 0x72, 0x3B]\<rparr>"

definition EFI_FILE_MODE_READ :: u64 where
  "EFI_FILE_MODE_READ = 1"

text \<open>The memory and the state of the firmware.\<close>

record 'f env =
  ram :: byte_mem
  firmware :: 'f

text \<open>What \<open>GetMemoryMap\<close> reads and sets through its pointers.\<close>

record map_query =
  mapSize :: u64
  mapKey :: u64
  descriptorSize :: u64
  descriptorVersion :: u32

text \<open>The services called. An argument passed by reference is given with its value before the call and returned with its value after it.\<close>

record 'f boot_services =
  AllocatePages :: "EFI_ALLOCATE_TYPE \<Rightarrow> EFI_MEMORY_TYPE \<Rightarrow> u64 \<Rightarrow> u64 \<Rightarrow> 'f env \<Rightarrow> EFI_STATUS \<times> u64 \<times> 'f env"
  FreePages :: "u64 \<Rightarrow> u64 \<Rightarrow> 'f env \<Rightarrow> EFI_STATUS \<times> 'f env"
  AllocatePool :: "EFI_MEMORY_TYPE \<Rightarrow> u64 \<Rightarrow> u64 \<Rightarrow> 'f env \<Rightarrow> EFI_STATUS \<times> u64 \<times> 'f env"
  FreePool :: "u64 \<Rightarrow> 'f env \<Rightarrow> EFI_STATUS \<times> 'f env"
  GetMemoryMap :: "u64 \<Rightarrow> map_query \<Rightarrow> 'f env \<Rightarrow> EFI_STATUS \<times> map_query \<times> 'f env"
  ExitBootServices :: "u64 \<Rightarrow> u64 \<Rightarrow> 'f env \<Rightarrow> EFI_STATUS \<times> 'f env"
  HandleProtocol :: "u64 \<Rightarrow> EFI_GUID \<Rightarrow> u64 \<Rightarrow> 'f env \<Rightarrow> EFI_STATUS \<times> u64 \<times> 'f env"

text \<open>The protocols for files and for the console, called through a pointer to an instance.\<close>

record 'f file_protocol =
  OpenVolume :: "u64 \<Rightarrow> u64 \<Rightarrow> 'f env \<Rightarrow> EFI_STATUS \<times> u64 \<times> 'f env"
  Open :: "u64 \<Rightarrow> u64 \<Rightarrow> CHAR16 list \<Rightarrow> u64 \<Rightarrow> u64 \<Rightarrow> 'f env \<Rightarrow> EFI_STATUS \<times> u64 \<times> 'f env"
  GetInfo :: "u64 \<Rightarrow> EFI_GUID \<Rightarrow> u64 \<Rightarrow> u64 \<Rightarrow> 'f env \<Rightarrow> EFI_STATUS \<times> u64 \<times> 'f env"
  Read :: "u64 \<Rightarrow> u64 \<Rightarrow> u64 \<Rightarrow> 'f env \<Rightarrow> EFI_STATUS \<times> u64 \<times> 'f env"
  Close :: "u64 \<Rightarrow> 'f env \<Rightarrow> EFI_STATUS \<times> 'f env"

record 'f console_out =
  ClearScreen :: "'f env \<Rightarrow> EFI_STATUS \<times> 'f env"
  OutputString :: "CHAR16 list \<Rightarrow> 'f env \<Rightarrow> EFI_STATUS \<times> 'f env"

record 'f system_table =
  ConOut :: "'f console_out"
  BootServices :: "'f boot_services"
  Files :: "'f file_protocol"

section \<open>Documented behaviour\<close>

text \<open>Bytes that an interval of the run leaves as they are.\<close>

definition kept :: "nat set \<Rightarrow> byte_mem \<Rightarrow> byte_mem \<Rightarrow> bool" where
  "kept S m m' \<longleftrightarrow> (\<forall>x. unat x \<in> S \<longrightarrow> m' x = m x)"

lemma kept_refl [simp]: "kept S m m"
  by (simp add: kept_def)

lemma kept_trans: "kept S m m' \<Longrightarrow> kept S m' m'' \<Longrightarrow> kept S m m''"
  by (simp add: kept_def)

lemma kept_subset: "kept S m m' \<Longrightarrow> T \<subseteq> S \<Longrightarrow> kept T m m'"
  by (auto simp: kept_def)

text \<open>
  \<open>AllocatePages\<close> hands out page-aligned physical memory that nobody else owns, below the given
  address if asked to, and no service touches memory that was handed out. \<open>owned\<close> is the memory the
  loader owns in a state of the firmware.
\<close>

definition pages_service :: "'f boot_services \<Rightarrow> ('f \<Rightarrow> nat set) \<Rightarrow> bool" where
  "pages_service bs owned \<longleftrightarrow> (\<forall>ty mt n lim e st p e'. AllocatePages bs ty mt n lim e = (st, p, e') \<longrightarrow>
     kept (owned (firmware e)) (ram e) (ram e')
     \<and> (if EFI_ERROR st then owned (firmware e') = owned (firmware e)
        else unat p mod 4096 = 0 \<and> unat p + unat n * 4096 \<le> 2 ^ 52
          \<and> (ty = AllocateMaxAddress \<longrightarrow> unat p + unat n * 4096 \<le> unat lim + 1)
          \<and> bytes_at p (unat n * 4096) \<inter> owned (firmware e) = {}
          \<and> owned (firmware e') = owned (firmware e) \<union> bytes_at p (unat n * 4096)))"

lemma pages_serviceD:
  assumes "pages_service bs owned" and "AllocatePages bs ty mt n lim e = (st, p, e')"
  shows "kept (owned (firmware e)) (ram e) (ram e')"
    and "EFI_ERROR st \<Longrightarrow> owned (firmware e') = owned (firmware e)"
    and "\<not> EFI_ERROR st \<Longrightarrow> unat p mod 4096 = 0" and "\<not> EFI_ERROR st \<Longrightarrow> unat p + unat n * 4096 \<le> 2 ^ 52"
    and "\<not> EFI_ERROR st \<Longrightarrow> ty = AllocateMaxAddress \<Longrightarrow> unat p + unat n * 4096 \<le> unat lim + 1"
    and "\<not> EFI_ERROR st \<Longrightarrow> bytes_at p (unat n * 4096) \<inter> owned (firmware e) = {}"
    and "\<not> EFI_ERROR st \<Longrightarrow> owned (firmware e') = owned (firmware e) \<union> bytes_at p (unat n * 4096)"
  using assms(1) [unfolded pages_service_def, rule_format, OF assms(2)] by simp_all

text \<open>
  The whole of what the loader may hold: bytes of memory, blocks of the pool by address, and open
  files with the bytes not yet read. \<open>V\<close> gives the holdings in a state of the firmware.
\<close>

record holdings =
  held :: "nat set"
  blocks :: "u64 \<rightharpoonup> nat"
  opened :: "u64 \<rightharpoonup> u8 list"

abbreviation held_in :: "('f \<Rightarrow> holdings) \<Rightarrow> 'f env \<Rightarrow> nat set" where
  "held_in V e \<equiv> held (V (firmware e))"

text \<open>A call that changes no holdings and may write at most the bytes of \<open>W\<close> among those held.\<close>

definition calm :: "('f \<Rightarrow> holdings) \<Rightarrow> nat set \<Rightarrow> 'f env \<Rightarrow> 'f env \<Rightarrow> bool" where
  "calm V W e e' \<longleftrightarrow> V (firmware e') = V (firmware e) \<and> kept (held_in V e - W) (ram e) (ram e')"

definition memory_services :: "'f boot_services \<Rightarrow> ('f \<Rightarrow> holdings) \<Rightarrow> bool" where
  "memory_services bs V \<longleftrightarrow> pages_service bs (\<lambda>f. held (V f))
     \<and> (\<forall>ty mt n lim e st p e'. AllocatePages bs ty mt n lim e = (st, p, e') \<longrightarrow>
          blocks (V (firmware e')) = blocks (V (firmware e)) \<and> opened (V (firmware e')) = opened (V (firmware e)))
     \<and> (\<forall>p n e st e'. FreePages bs p n e = (st, e') \<longrightarrow>
          V (firmware e') = (if EFI_ERROR st then V (firmware e)
            else V (firmware e)\<lparr>held := held_in V e - bytes_at p (unat n * 4096)\<rparr>)
          \<and> kept (held_in V e') (ram e) (ram e'))"

definition pool_service :: "'f boot_services \<Rightarrow> ('f \<Rightarrow> holdings) \<Rightarrow> bool" where
  "pool_service bs V \<longleftrightarrow>
     (\<forall>mt n p0 e st p e'. AllocatePool bs mt n p0 e = (st, p, e') \<longrightarrow>
        kept (held_in V e) (ram e) (ram e')
        \<and> (if EFI_ERROR st then V (firmware e') = V (firmware e)
           else unat p + unat n \<le> 2 ^ 52 \<and> bytes_at p (unat n) \<inter> held_in V e = {}
             \<and> V (firmware e') = V (firmware e)\<lparr>held := held_in V e \<union> bytes_at p (unat n),
                  blocks := (blocks (V (firmware e)))(p \<mapsto> unat n)\<rparr>))
     \<and> (\<forall>p n e st e'. FreePool bs p e = (st, e') \<longrightarrow> blocks (V (firmware e)) p = Some n \<longrightarrow>
        V (firmware e') = (if EFI_ERROR st then V (firmware e)
          else V (firmware e)\<lparr>held := held_in V e - bytes_at p n, blocks := (blocks (V (firmware e)))(p := None)\<rparr>)
        \<and> kept (held_in V e') (ram e) (ram e'))"

text \<open>
  The memory map is written into the buffer given, at most as much as fits, and comes with the key of
  the state it describes; memory that is held is not offered as free in it. \<open>M\<close> are the maps it may report. Leaving the boot services
  succeeds only with the key of the present state.
\<close>

definition map_entries :: "byte_mem \<Rightarrow> u64 \<Rightarrow> u64 \<Rightarrow> u64 \<Rightarrow> memory_map_entry list" where
  "map_entries m buf sz d = List.map (\<lambda>k. read_entry_at m (buf + of_nat k * d)) [0..<unat sz div unat d]"

definition offers :: "byte_mem \<Rightarrow> u64 \<Rightarrow> u64 \<Rightarrow> u64 \<Rightarrow> nat set" where
  "offers m buf sz d = (\<Union>en \<in> set (map_entries m buf sz d).
     if entry_typ en = EFI_CONVENTIONAL_MEMORY then bytes_at (phys_as_u64 (physical_start en)) (unat (number_of_pages en) * 4096) else {})"

definition map_service :: "'f boot_services \<Rightarrow> ('f \<Rightarrow> holdings) \<Rightarrow> ('f \<Rightarrow> u64) \<Rightarrow> memory_map_entry list set \<Rightarrow> bool" where
  "map_service bs V key M \<longleftrightarrow>
     (\<forall>buf q e st q' e'. GetMemoryMap bs buf q e = (st, q', e') \<longrightarrow>
        calm V (bytes_at buf (unat (mapSize q))) e e'
        \<and> unat (mapSize q') + 8 * unat (descriptorSize q') \<le> 2 ^ 52
        \<and> (\<not> EFI_ERROR st \<longrightarrow> mapSize q' \<le> mapSize q \<and> 40 \<le> descriptorSize q' \<and> mapKey q' = key (firmware e')
             \<and> map_entries (ram e') buf (mapSize q') (descriptorSize q') \<in> M
             \<and> offers (ram e') buf (mapSize q') (descriptorSize q') \<inter> held_in V e' = {}))
     \<and> (\<forall>img k e st e'. ExitBootServices bs img k e = (st, e') \<longrightarrow>
        calm V {} e e' \<and> (st = EFI_SUCCESS \<longrightarrow> k = key (firmware e)))"

text \<open>
  Opening a file of the volume gives a handle from which its bytes can be read once, from the start;
  \<open>GetInfo\<close> gives its size, eight bytes into the structure. \<open>disk\<close> is what the volume holds.
\<close>

definition file_service :: "'f file_protocol \<Rightarrow> ('f \<Rightarrow> holdings) \<Rightarrow> u64 \<Rightarrow> (CHAR16 list \<rightharpoonup> u8 list) \<Rightarrow> bool" where
  "file_service fs V root disk \<longleftrightarrow>
     (\<forall>h0 path mode attr e st h e'. Open fs root h0 path mode attr e = (st, h, e') \<longrightarrow>
        kept (held_in V e) (ram e) (ram e')
        \<and> (if EFI_ERROR st then V (firmware e') = V (firmware e)
           else \<exists>bytes. disk path = Some bytes \<and> V (firmware e') = V (firmware e)\<lparr>opened := (opened (V (firmware e)))(h \<mapsto> bytes)\<rparr>))
     \<and> (\<forall>h ty n buf e st n' e' bytes. GetInfo fs h ty n buf e = (st, n', e') \<longrightarrow> opened (V (firmware e)) h = Some bytes \<longrightarrow>
        calm V (bytes_at buf (unat n)) e e'
        \<and> (\<not> EFI_ERROR st \<longrightarrow> ty = EFI_FILE_INFO_ID \<longrightarrow> 16 \<le> n \<and> n' \<le> n \<and> length bytes < 2 ^ 64
             \<and> read_unaligned_u64 (ram e') (buf + 8) = of_nat (length bytes)))
     \<and> (\<forall>h n buf e st n' e' bytes. Read fs h n buf e = (st, n', e') \<longrightarrow> opened (V (firmware e)) h = Some bytes \<longrightarrow>
        kept (held_in V e - bytes_at buf (unat n)) (ram e) (ram e')
        \<and> (if EFI_ERROR st then held_in V e' = held_in V e \<and> blocks (V (firmware e')) = blocks (V (firmware e))
           else unat n' = min (unat n) (length bytes) \<and> (\<forall>i < unat n'. ram e' (buf + of_nat i) = bytes ! i)
             \<and> V (firmware e') = V (firmware e)\<lparr>opened := (opened (V (firmware e)))(h \<mapsto> drop (unat n') bytes)\<rparr>))
     \<and> (\<forall>h e st e'. Close fs h e = (st, e') \<longrightarrow>
        kept (held_in V e) (ram e) (ram e') \<and> V (firmware e') = V (firmware e)\<lparr>opened := (opened (V (firmware e)))(h := None)\<rparr>)"

text \<open>The console, and the calls that look up protocols, change no holdings.\<close>

definition console_service :: "'f system_table \<Rightarrow> ('f \<Rightarrow> holdings) \<Rightarrow> bool" where
  "console_service st V \<longleftrightarrow>
     (\<forall>e s e'. ClearScreen (ConOut st) e = (s, e') \<longrightarrow> calm V {} e e')
     \<and> (\<forall>str e s e'. OutputString (ConOut st) str e = (s, e') \<longrightarrow> calm V {} e e')
     \<and> (\<forall>h g p e s q e'. HandleProtocol (BootServices st) h g p e = (s, q, e') \<longrightarrow> calm V {} e e')
     \<and> (\<forall>h p e s q e'. OpenVolume (Files st) h p e = (s, q, e') \<longrightarrow> calm V {} e e')"

lemma calm_kept: "calm V W e e' \<Longrightarrow> S \<subseteq> held_in V e \<Longrightarrow> S \<inter> W = {} \<Longrightarrow> kept S (ram e) (ram e')"
  unfolding calm_def by (rule kept_subset) blast+

lemma memory_servicesD:
  assumes "memory_services bs V"
  shows "pages_service bs (\<lambda>f. held (V f))"
    and "AllocatePages bs ty mt n lim e = (st, p, e') \<Longrightarrow> blocks (V (firmware e')) = blocks (V (firmware e))"
    and "FreePages bs p n e = (st, e') \<Longrightarrow> held_in V e - bytes_at p (unat n * 4096) \<subseteq> held_in V e'"
    and "FreePages bs p n e = (st, e') \<Longrightarrow> held_in V e' \<subseteq> held_in V e"
    and "FreePages bs p n e = (st, e') \<Longrightarrow> kept (held_in V e') (ram e) (ram e')"
proof -
  assume f: "FreePages bs p n e = (st, e')"
  then show "kept (held_in V e') (ram e) (ram e')" using assms unfolding memory_services_def by blast
  have "V (firmware e') = (if EFI_ERROR st then V (firmware e) else V (firmware e)\<lparr>held := held_in V e - bytes_at p (unat n * 4096)\<rparr>)"
    using assms f unfolding memory_services_def by blast
  then show "held_in V e - bytes_at p (unat n * 4096) \<subseteq> held_in V e'" "held_in V e' \<subseteq> held_in V e" by auto
qed (use assms in \<open>auto simp: memory_services_def\<close>)

lemma map_serviceD:
  assumes "map_service bs V key M"
  shows "GetMemoryMap bs buf q e = (st, q', e') \<Longrightarrow> calm V (bytes_at buf (unat (mapSize q))) e e'"
    and "GetMemoryMap bs buf q e = (st, q', e') \<Longrightarrow> unat (mapSize q') + 8 * unat (descriptorSize q') \<le> 2 ^ 52"
    and "GetMemoryMap bs buf q e = (st, q', e') \<Longrightarrow> \<not> EFI_ERROR st \<Longrightarrow> mapSize q' \<le> mapSize q"
    and "GetMemoryMap bs buf q e = (st, q', e') \<Longrightarrow> \<not> EFI_ERROR st \<Longrightarrow> 40 \<le> descriptorSize q'"
    and "GetMemoryMap bs buf q e = (st, q', e') \<Longrightarrow> \<not> EFI_ERROR st \<Longrightarrow> offers (ram e') buf (mapSize q') (descriptorSize q') \<inter> held_in V e' = {}"
    and "ExitBootServices bs img k e = (st', e') \<Longrightarrow> calm V {} e e'"
    and "GetMemoryMap bs buf q e = (st, q', e') \<Longrightarrow> \<not> EFI_ERROR st \<Longrightarrow> mapKey q' = key (firmware e')"
    and "GetMemoryMap bs buf q e = (st, q', e') \<Longrightarrow> \<not> EFI_ERROR st \<Longrightarrow> map_entries (ram e') buf (mapSize q') (descriptorSize q') \<in> M"
  using assms unfolding map_service_def by blast+

text \<open>Of the bytes of \<open>S\<close>, all are still held and none has changed.\<close>

definition keeps :: "('f \<Rightarrow> holdings) \<Rightarrow> nat set \<Rightarrow> 'f env \<Rightarrow> 'f env \<Rightarrow> bool" where
  "keeps V S e e' \<longleftrightarrow> S \<subseteq> held_in V e' \<and> kept S (ram e) (ram e')"

lemma keeps_trans: "keeps V S e e1 \<Longrightarrow> keeps V S e1 e2 \<Longrightarrow> keeps V S e e2"
  unfolding keeps_def by (blast intro: kept_trans)

lemma keeps_calm: "calm V W e e' \<Longrightarrow> S \<subseteq> held_in V e - W \<Longrightarrow> keeps V S e e'"
  by (auto simp: calm_def keeps_def intro: kept_subset)

lemma keeps_free_pages:
  assumes mem: "memory_services bs V" and held: "S \<subseteq> held_in V e" "bytes_at p (unat n * 4096) \<inter> S = {}"
  shows "keeps V S e (snd (FreePages bs p n e))"
proof -
  obtain st e' where f: "FreePages bs p n e = (st, e')" by fastforce
  have "S \<subseteq> held_in V e'" using memory_servicesD(3) [OF mem f] held by blast
  then show ?thesis using memory_servicesD(5) [OF mem f] f by (auto simp: keeps_def intro: kept_subset)
qed

lemma keeps_pages:
  assumes "memory_services bs V" and "AllocatePages bs ty mt n lim e = (st, p, e')" and "S \<subseteq> held_in V e"
  shows "keeps V S e e'"
  using pages_serviceD(1,2,7) [OF memory_servicesD(1) [OF assms(1)] assms(2)] assms(3)
  by (cases "EFI_ERROR st") (auto simp: keeps_def intro: kept_subset)

end
