(* ===== verification/Boot_Paging.thy ===== *)
theory Boot_Paging
  imports Uefi Vmm_Props
begin

unbundle bit_operations_syntax

text \<open>
  The page tables the bootloader builds for the kernel (\<open>src/boot/paging.c\<close>): an identity map of the
  low 4 GiB and the kernel's image in the higher half, both of 2 MiB pages.
\<close>

section \<open>Building the tables\<close>

definition PTE_PRESENT :: u64 where "PTE_PRESENT = 0x1"

definition PTE_WRITABLE :: u64 where "PTE_WRITABLE = 0x2"

definition PTE_PS :: u64 where "PTE_PS = 0x80"

definition ENTRIES_PER_TABLE :: u64 where "ENTRIES_PER_TABLE = 512"

definition ONE_GIB :: u64 where "ONE_GIB = 0x40000000"

text \<open>A loop that sets the entries \<open>0\<close> to \<open>n - 1\<close> of the table at \<open>t\<close>.\<close>

definition set_entries :: "u64 \<Rightarrow> (u64 \<Rightarrow> u64) \<Rightarrow> u64 \<Rightarrow> byte_mem \<Rightarrow> byte_mem" where
  "set_entries t f n = fold (\<lambda>i m. store64 m (ptr_add t i) (f i)) (List.map of_nat [0..<unat n])"

definition AllocateZeroedPage :: "'f boot_services \<Rightarrow> 'f env \<Rightarrow> u64 \<times> 'f env" where
  "AllocateZeroedPage bs e =
     (case AllocatePages bs AllocateAnyPages EfiLoaderData 1 0 e of (status, addr, e) \<Rightarrow>
        if EFI_ERROR status then (0, e)
        else (addr, e\<lparr>ram := set_entries addr (\<lambda>_. 0) (PAGE_SIZE_4K div 8) (ram e)\<rparr>))"

text \<open>The loop over the gigabytes of the identity map; false if a table could not be allocated.\<close>

primrec identity_gibs :: "'f boot_services \<Rightarrow> u64 \<Rightarrow> nat \<Rightarrow> u64 \<Rightarrow> 'f env \<Rightarrow> bool \<times> 'f env" where
  "identity_gibs bs identityPdpt 0 gib e = (True, e)"
| "identity_gibs bs identityPdpt (Suc n) gib e =
     (case AllocateZeroedPage bs e of (pd, e) \<Rightarrow>
        if pd = 0 then (False, e)
        else
          let m = set_entries pd (\<lambda>entry. (gib * ONE_GIB + entry * PAGE_SIZE_2M) OR PTE_PRESENT OR PTE_WRITABLE OR PTE_PS)
                ENTRIES_PER_TABLE (ram e);
              m = store64 m (ptr_add identityPdpt gib) (pd OR PTE_PRESENT OR PTE_WRITABLE)
          in identity_gibs bs identityPdpt n (gib + 1) (e\<lparr>ram := m\<rparr>))"

definition BuildKernelPageTables :: "'f boot_services \<Rightarrow> u64 \<Rightarrow> u64 \<Rightarrow> 'f env \<Rightarrow> u64 \<times> 'f env" where
  "BuildKernelPageTables bs KernelPhysicalBase KernelSizeBytes e =
     (case AllocateZeroedPage bs e of (pml4, e) \<Rightarrow>
      if pml4 = 0 then (0, e)
      else (case AllocateZeroedPage bs e of (identityPdpt, e) \<Rightarrow>
      if identityPdpt = 0 then (0, e)
      else (case identity_gibs bs identityPdpt (unat (IDENTITY_MAP_LIMIT div ONE_GIB)) 0 e of (ok, e) \<Rightarrow>
      if \<not> ok then (0, e)
      else let e = e\<lparr>ram := store64 (ram e) (ptr_add pml4 0) (identityPdpt OR PTE_PRESENT OR PTE_WRITABLE)\<rparr> in
      (case AllocateZeroedPage bs e of (kernelPdpt, e) \<Rightarrow>
      if kernelPdpt = 0 then (0, e)
      else (case AllocateZeroedPage bs e of (kernelPd, e) \<Rightarrow>
      if kernelPd = 0 then (0, e)
      else
        let kernelPageCount = KernelSizeBytes div PAGE_SIZE_2M;
            kernelPageCount = (if kernelPageCount = 0 then 1 else kernelPageCount)
        in if kernelPageCount > ENTRIES_PER_TABLE then (0, e)
        else
          let m = set_entries kernelPd (\<lambda>entry. (KernelPhysicalBase + entry * PAGE_SIZE_2M) OR PTE_PRESENT OR PTE_WRITABLE OR PTE_PS)
                kernelPageCount (ram e);
              m = store64 m (ptr_add kernelPdpt 510) (kernelPd OR PTE_PRESENT OR PTE_WRITABLE);
              m = store64 m (ptr_add pml4 511) (kernelPdpt OR PTE_PRESENT OR PTE_WRITABLE)
          in (pml4, e\<lparr>ram := m\<rparr>))))))"

section \<open>Contents of tables\<close>

text \<open>
  \<open>built\<close> follows the construction: the tables made since the state \<open>e0\<close> with the words in them. They
  are pages of their own, owned by the loader, and what it owned before is as it was.
\<close>

type_synonym contents = "phys_addr \<rightharpoonup> (usize \<Rightarrow> u64)"

abbreviation page_bytes :: "phys_addr \<Rightarrow> nat set" where
  "page_bytes t \<equiv> bytes_at (phys_as_u64 t) 4096"

definition built :: "('f \<Rightarrow> nat set) \<Rightarrow> 'f env \<Rightarrow> contents \<Rightarrow> 'f env \<Rightarrow> bool" where
  "built owned e0 T e \<longleftrightarrow> kept (owned (firmware e0)) (ram e0) (ram e)
     \<and> owned (firmware e) = owned (firmware e0) \<union> (\<Union>t \<in> dom T. page_bytes t)
     \<and> (\<forall>t c. T t = Some c \<longrightarrow> entry_holds t \<and> page_bytes t \<inter> owned (firmware e0) = {}
          \<and> (\<forall>i. unat i < 512 \<longrightarrow> quads (ram e) (ptr_add (phys_as_u64 t) i) = c i))"

lemma slot_in_page:
  assumes "entry_holds t" and "unat i < 512"
  shows "unat (ptr_add (phys_as_u64 t) i) = unat (phys_as_u64 t) + 8 * unat i"
    and "unat (ptr_add (phys_as_u64 t) i) mod 8 = 0"
    and "bytes_at (ptr_add (phys_as_u64 t) i) 8 \<subseteq> page_bytes t"
proof -
  have "unat (8 * i) = 8 * unat i" using assms(2) by (simp add: unat_mult_no_wrap)
  then show u: "unat (ptr_add (phys_as_u64 t) i) = unat (phys_as_u64 t) + 8 * unat i"
    using assms by (simp add: ptr_add_def entry_holds_def unat_add_no_wrap)
  have "4096 dvd unat (phys_as_u64 t)" using assms(1) by (simp add: entry_holds_def is_frame_aligned_iff dvd_eq_mod_eq_0)
  then have "8 dvd unat (phys_as_u64 t)" by (rule dvd_trans [rotated]) simp
  then show "unat (ptr_add (phys_as_u64 t) i) mod 8 = 0" using u by simp
  show "bytes_at (ptr_add (phys_as_u64 t) i) 8 \<subseteq> page_bytes t" using assms(2) by (auto simp: bytes_at_def u)
qed

lemma page_bytes_disjoint:
  assumes "entry_holds t" and "entry_holds u" and "t \<noteq> u"
  shows "page_bytes t \<inter> page_bytes u = {}"
proof -
  obtain k l where kl: "unat (phys_as_u64 t) = 4096 * k" "unat (phys_as_u64 u) = 4096 * l"
    using assms(1,2) by (auto simp: entry_holds_def is_frame_aligned_iff elim!: dvdE)
  have "k \<noteq> l" using kl assms(3) by (metis phys_addr.expand word_unat_eq_iff)
  then show ?thesis using kl by (auto simp: bytes_at_def)
qed

lemma quads_kept:
  assumes "kept S m m'" and "bytes_at p 8 \<subseteq> S"
  shows "quads m' p = quads m p"
proof (cases "unat p mod 8 = 0")
  case True
  have "read_unaligned_u64 m' p = read_unaligned_u64 m p"
    by (rule read64_cong [OF aligned8_fits [OF True]]) (use assms in \<open>auto simp: kept_def\<close>)
  then show ?thesis by (simp add: quads_def)
qed (simp add: quads_def)

lemma slots_distinct:
  assumes "entry_holds t" "unat i < 512" and "entry_holds u" "unat j < 512"
  shows "ptr_add (phys_as_u64 u) j = ptr_add (phys_as_u64 t) i \<longleftrightarrow> u = t \<and> j = i"
proof
  let ?p = "ptr_add (phys_as_u64 t) i"
  assume eq: "ptr_add (phys_as_u64 u) j = ?p"
  have "unat ?p \<in> bytes_at ?p 8" by (simp add: bytes_at_def)
  then have "unat ?p \<in> page_bytes t" "unat ?p \<in> page_bytes u"
    using slot_in_page(3) [OF assms(1,2)] slot_in_page(3) [OF assms(3,4)] eq by auto
  then have "u = t" using page_bytes_disjoint [OF assms(3,1)] by blast
  moreover from this have "unat j = unat i" using eq slot_in_page(1) [OF assms(1,2)] slot_in_page(1) [OF assms(3,4)] by simp
  ultimately show "u = t \<and> j = i" by (simp add: word_unat_eq_iff)
qed simp

lemma builtD:
  assumes "built owned e0 T e"
  shows "kept (owned (firmware e0)) (ram e0) (ram e)"
    and "owned (firmware e) = owned (firmware e0) \<union> (\<Union>t \<in> dom T. page_bytes t)"
    and "T t = Some c \<Longrightarrow> entry_holds t" and "T t = Some c \<Longrightarrow> page_bytes t \<inter> owned (firmware e0) = {}"
    and "T t = Some c \<Longrightarrow> unat i < 512 \<Longrightarrow> quads (ram e) (ptr_add (phys_as_u64 t) i) = c i"
proof -
  have all: "entry_holds t \<and> page_bytes t \<inter> owned (firmware e0) = {}
      \<and> (\<forall>i. unat i < 512 \<longrightarrow> quads (ram e) (ptr_add (phys_as_u64 t) i) = c i)" if "T t = Some c" for t c
    using assms that unfolding built_def by simp
  show "T t = Some c \<Longrightarrow> entry_holds t" "T t = Some c \<Longrightarrow> page_bytes t \<inter> owned (firmware e0) = {}"
    "T t = Some c \<Longrightarrow> unat i < 512 \<Longrightarrow> quads (ram e) (ptr_add (phys_as_u64 t) i) = c i"
    using all by simp_all
qed (use assms in \<open>simp_all add: built_def\<close>)

lemma built_store:
  assumes b: "built owned e0 T e" and t: "T t = Some c" and i: "unat i < 512"
  shows "built owned e0 (T(t \<mapsto> c(i := v))) (e\<lparr>ram := store64 (ram e) (ptr_add (phys_as_u64 t) i) v\<rparr>)"
proof -
  let ?p = "ptr_add (phys_as_u64 t) i"
  note th = builtD(3) [OF b t]
  note s = slot_in_page [OF th i]
  have "kept (owned (firmware e0)) (ram e) (store64 (ram e) ?p v)"
    unfolding kept_def
  proof (intro allI impI store64_other [OF aligned8_fits [OF s(2)]])
    fix x :: u64
    assume "unat x \<in> owned (firmware e0)"
    then show "unat x \<notin> bytes_at ?p 8" using s(3) builtD(4) [OF b t] by auto
  qed
  then have k: "kept (owned (firmware e0)) (ram e0) (store64 (ram e) ?p v)"
    using kept_trans [OF builtD(1) [OF b]] by blast
  have q: "quads (store64 (ram e) ?p v) (ptr_add (phys_as_u64 u) j) = d j"
    if d: "(T(t \<mapsto> c(i := v))) u = Some d" and j: "unat j < 512" for u d j
  proof -
    obtain d' where "T u = Some d'" using d t by (cases "u = t") auto
    then have "ptr_add (phys_as_u64 u) j = ?p \<longleftrightarrow> u = t \<and> j = i" "quads (ram e) (ptr_add (phys_as_u64 u) j) = d' j"
      using slots_distinct [OF th i builtD(3) [OF b] j] builtD(5) [OF b _ j] by simp_all
    then show ?thesis using d \<open>T u = Some d'\<close> t quads_store64 [OF s(2), of "ram e" v] by (auto split: if_splits)
  qed
  have h: "entry_holds u" "page_bytes u \<inter> owned (firmware e0) = {}" if "(T(t \<mapsto> c(i := v))) u = Some d" for u d
    using that builtD(3,4) [OF b] t by (auto split: if_splits)
  have "dom (T(t \<mapsto> c(i := v))) = dom T" using t by auto
  then show ?thesis
    unfolding built_def using k q h builtD(2) [OF b] by simp
qed

lemma built_set_entries:
  assumes b: "built owned e0 T e" and t: "T t = Some c" and n: "unat n \<le> 512"
  shows "built owned e0 (T(t \<mapsto> (\<lambda>i. if i < n then f i else c i))) (e\<lparr>ram := set_entries (phys_as_u64 t) f n (ram e)\<rparr>)"
proof -
  define c' where "c' k = (\<lambda>i :: usize. if unat i < k then f i else c i)" for k
  define m where "m k = fold (\<lambda>i m. store64 m (ptr_add (phys_as_u64 t) i) (f i)) (List.map of_nat [0..<k]) (ram e)" for k
  have "built owned e0 (T(t \<mapsto> c' k)) (e\<lparr>ram := m k\<rparr>)" if "k \<le> 512" for k
    using that
  proof (induction k)
    case 0
    have "T(t \<mapsto> c' 0) = T" using t by (auto simp: c'_def)
    then show ?case using b by (simp add: m_def)
  next
    case (Suc k)
    have c': "(c' k)(of_nat k := f (of_nat k)) = c' (Suc k)"
      using Suc.prems by (auto simp: c'_def fun_eq_iff less_Suc_eq)
    have m: "m (Suc k) = store64 (m k) (ptr_add (phys_as_u64 t) (of_nat k)) (f (of_nat k))" by (simp add: m_def)
    have "built owned e0 (T(t \<mapsto> c' k, t \<mapsto> (c' k)(of_nat k := f (of_nat k))))
        (e\<lparr>ram := m k, ram := store64 (ram (e\<lparr>ram := m k\<rparr>)) (ptr_add (phys_as_u64 t) (of_nat k)) (f (of_nat k))\<rparr>)"
      by (rule built_store [OF Suc.IH]) (use Suc.prems in simp_all)
    then show ?case unfolding c' fun_upd_upd m by (simp del: fun_upd_apply)
  qed
  from this [OF n] show ?thesis by (simp add: set_entries_def word_less_nat_alt c'_def m_def)
qed

lemma built_page:
  assumes svc: "pages_service bs owned" and b: "built owned e0 T e" and r: "AllocateZeroedPage bs e = (p, e')" and p: "p \<noteq> 0"
  shows "T (PhysAddr p) = None" and "built owned e0 (T(PhysAddr p \<mapsto> (\<lambda>_. 0))) e'"
proof -
  obtain st p1 e1 where a: "AllocatePages bs AllocateAnyPages EfiLoaderData 1 0 e = (st, p1, e1)" by (metis prod_cases3)
  then have st: "\<not> EFI_ERROR st" "p1 = p" and e': "e' = e1\<lparr>ram := set_entries p (\<lambda>_. 0) (PAGE_SIZE_4K div 8) (ram e1)\<rparr>"
    using r p by (auto simp: AllocateZeroedPage_def split: if_splits)
  note svc = pages_serviceD [OF svc a]
  let ?t = "PhysAddr p"
  have t: "entry_holds ?t" using svc(3,4) [OF st(1)] st(2) by (simp add: entry_holds_def is_frame_aligned_iff mod_eq_0_iff_dvd)
  have free: "page_bytes ?t \<inter> owned (firmware e) = {}" using svc(6) [OF st(1)] st(2) by simp
  show none: "T ?t = None"
  proof (rule ccontr)
    assume "T ?t \<noteq> None"
    then have "page_bytes ?t \<subseteq> owned (firmware e)" using builtD(2) [OF b] by auto
    moreover have "unat p \<in> page_bytes ?t" by (simp add: bytes_at_def)
    ultimately show False using free by blast
  qed
  let ?w = "\<lambda>i. quads (ram e1) (ptr_add p i)"
  have q: "quads (ram e1) (ptr_add (phys_as_u64 u) i) = c i" if "T u = Some c" "unat i < 512" for u c i
  proof -
    have "page_bytes u \<subseteq> owned (firmware e)" using builtD(2) [OF b] that(1) by auto
    then have "bytes_at (ptr_add (phys_as_u64 u) i) 8 \<subseteq> owned (firmware e)"
      using slot_in_page(3) [OF builtD(3) [OF b that(1)] that(2)] by blast
    then show ?thesis using quads_kept [OF svc(1)] builtD(5) [OF b that] by simp
  qed
  have "kept (owned (firmware e0)) (ram e) (ram e1)" using svc(1) builtD(2) [OF b] by (auto intro: kept_subset)
  then have "built owned e0 (T(?t \<mapsto> ?w)) e1"
    unfolding built_def
    using kept_trans [OF builtD(1) [OF b]] builtD(2,3,4) [OF b] svc(7) [OF st(1)] st(2) free t q none by auto
  from built_set_entries [OF this, of ?t ?w "PAGE_SIZE_4K div 8" "\<lambda>_. 0"]
  have "built owned e0 (T(?t \<mapsto> (\<lambda>i. if i < 512 then 0 else ?w i))) e'" by (simp add: e' PAGE_SIZE_4K_def)
  then show "built owned e0 (T(?t \<mapsto> (\<lambda>_. 0))) e'"
    unfolding built_def by (auto simp: word_less_nat_alt split: if_splits)
qed

section \<open>The whole construction\<close>

abbreviation table_word :: "u64 \<Rightarrow> u64" where
  "table_word p \<equiv> p OR PTE_PRESENT OR PTE_WRITABLE"

abbreviation large_word :: "u64 \<Rightarrow> u64" where
  "large_word p \<equiv> p OR PTE_PRESENT OR PTE_WRITABLE OR PTE_PS"

text \<open>\<open>n\<close> large pages from \<open>base\<close> on.\<close>

definition large_words :: "u64 \<Rightarrow> u64 \<Rightarrow> usize \<Rightarrow> u64" where
  "large_words base n i = (if i < n then large_word (base + i * PAGE_SIZE_2M) else 0)"

lemma built_gib:
  assumes svc: "pages_service bs owned" and b: "built owned e0 T e" and t: "T (PhysAddr pdpt) = Some c" and i: "unat gib < 512"
    and run: "identity_gibs bs pdpt (Suc n) gib e = (True, e')"
  obtains pd e1 where "T (PhysAddr pd) = None"
    and "built owned e0 (T(PhysAddr pd \<mapsto> large_words (gib * ONE_GIB) 512, PhysAddr pdpt \<mapsto> c(gib := table_word pd))) e1"
    and "identity_gibs bs pdpt n (gib + 1) e1 = (True, e')"
proof -
  obtain pd e1 where a: "AllocateZeroedPage bs e = (pd, e1)" by fastforce
  then have pd: "pd \<noteq> 0" using run by (auto split: if_splits)
  note p = built_page [OF svc b a pd]
  let ?f = "\<lambda>entry. large_word (gib * ONE_GIB + entry * PAGE_SIZE_2M)"
  let ?e2 = "e1\<lparr>ram := set_entries pd ?f 512 (ram e1)\<rparr>"
  have ne: "pd \<noteq> pdpt" using p(1) t by auto
  have "(\<lambda>i. if i < 512 then ?f i else 0) = large_words (gib * ONE_GIB) 512" by (auto simp: large_words_def)
  then have b2: "built owned e0 (T(PhysAddr pd \<mapsto> large_words (gib * ONE_GIB) 512)) ?e2"
    using built_set_entries [OF p(2), of "PhysAddr pd" "\<lambda>_. 0" 512 ?f] by simp
  have "(T(PhysAddr pd \<mapsto> large_words (gib * ONE_GIB) 512)) (PhysAddr pdpt) = Some c" using t ne by simp
  note b3 = built_store [OF b2 this i, of "table_word pd"]
  show thesis by (rule that [OF p(1) b3]) (use run a pd in \<open>simp add: Let_def ENTRIES_PER_TABLE_def\<close>)
qed

text \<open>The tables at the end, by address: the root, the two tables below it, and the tables of large pages.\<close>

definition kernel_pages :: "u64 \<Rightarrow> u64" where
  "kernel_pages KernelSizeBytes = (if KernelSizeBytes div PAGE_SIZE_2M = 0 then 1 else KernelSizeBytes div PAGE_SIZE_2M)"

definition boot_tables :: "contents \<Rightarrow> u64 \<Rightarrow> u64 \<Rightarrow> u64 list \<Rightarrow> u64 \<Rightarrow> u64 \<Rightarrow> u64 \<Rightarrow> u64 \<Rightarrow> bool" where
  "boot_tables T root idp ds kp kd base n \<longleftrightarrow>
     T (PhysAddr root) = Some (\<lambda>i. if i = 0 then table_word idp else if i = 511 then table_word kp else 0)
     \<and> T (PhysAddr idp) = Some (\<lambda>i. if i < 4 then table_word (ds ! unat i) else 0)
     \<and> (\<forall>k < 4. T (PhysAddr (ds ! k)) = Some (large_words (of_nat k * ONE_GIB) 512))
     \<and> T (PhysAddr kp) = Some (\<lambda>i. if i = 510 then table_word kd else 0)
     \<and> T (PhysAddr kd) = Some (large_words base n)
     \<and> dom T = PhysAddr ` set ([root, idp, kp, kd] @ ds)"

lemma word_less_4: "(i :: u64) < 4 \<longleftrightarrow> i = 0 \<or> i = 1 \<or> i = 2 \<or> i = 3"
proof -
  have "i < 4 \<longleftrightarrow> unat i < 4" by (simp add: word_less_nat_alt)
  also have "\<dots> \<longleftrightarrow> unat i = 0 \<or> unat i = 1 \<or> unat i = 2 \<or> unat i = 3" by auto
  also have "\<dots> \<longleftrightarrow> i = 0 \<or> i = 1 \<or> i = 2 \<or> i = 3" by (auto simp: word_unat_eq_iff)
  finally show ?thesis .
qed

lemma built_identity:
  assumes svc: "pages_service bs owned" and b: "built owned e0 T e" and t: "T (PhysAddr idp) = Some (\<lambda>_. 0)"
    and run: "identity_gibs bs idp 4 0 e = (True, e')"
  obtains ds T' where "length ds = 4" and "distinct ds" and "\<forall>d \<in> set ds. T (PhysAddr d) = None" and "built owned e0 T' e'"
    and "T' (PhysAddr idp) = Some (\<lambda>i. if i < 4 then table_word (ds ! unat i) else 0)"
    and "\<forall>k < 4. T' (PhysAddr (ds ! k)) = Some (large_words (of_nat k * ONE_GIB) 512)"
    and "\<And>u. u \<noteq> PhysAddr idp \<Longrightarrow> u \<notin> PhysAddr ` set ds \<Longrightarrow> T' u = T u"
proof -
  let ?i = "PhysAddr idp"
  let ?L = "\<lambda>k. large_words (k * ONE_GIB) 512"
  have run4: "identity_gibs bs idp (Suc 3) 0 e = (True, e')" using run by (simp add: numeral_eq_Suc)
  obtain a e1 where a: "T (PhysAddr a) = None" "built owned e0 (T(PhysAddr a \<mapsto> ?L 0, ?i \<mapsto> (\<lambda>_. 0)(0 := table_word a))) e1"
    "identity_gibs bs idp 3 1 e1 = (True, e')"
    by (rule built_gib [OF svc b t _ run4]) simp_all
  let ?T1 = "T(PhysAddr a \<mapsto> ?L 0, ?i \<mapsto> (\<lambda>_. 0)(0 := table_word a))"
  have run3: "identity_gibs bs idp (Suc 2) 1 e1 = (True, e')" using a(3) by (simp add: numeral_eq_Suc)
  obtain b' e2 where b': "?T1 (PhysAddr b') = None" "built owned e0 (?T1(PhysAddr b' \<mapsto> ?L 1, ?i \<mapsto> (\<lambda>_. 0)(0 := table_word a, 1 := table_word b'))) e2"
    "identity_gibs bs idp 2 2 e2 = (True, e')"
    by (rule built_gib [OF svc a(2) _ _ run3]) simp_all
  let ?T2 = "?T1(PhysAddr b' \<mapsto> ?L 1, ?i \<mapsto> (\<lambda>_. 0)(0 := table_word a, 1 := table_word b'))"
  have run2: "identity_gibs bs idp (Suc 1) 2 e2 = (True, e')" using b'(3) by (simp add: numeral_eq_Suc)
  obtain c e3 where c: "?T2 (PhysAddr c) = None"
    "built owned e0 (?T2(PhysAddr c \<mapsto> ?L 2, ?i \<mapsto> (\<lambda>_. 0)(0 := table_word a, 1 := table_word b', 2 := table_word c))) e3"
    "identity_gibs bs idp 1 3 e3 = (True, e')"
    by (rule built_gib [OF svc b'(2) _ _ run2]) simp_all
  let ?T3 = "?T2(PhysAddr c \<mapsto> ?L 2, ?i \<mapsto> (\<lambda>_. 0)(0 := table_word a, 1 := table_word b', 2 := table_word c))"
  have run1: "identity_gibs bs idp (Suc 0) 3 e3 = (True, e')" using c(3) by simp
  obtain d e4 where d: "?T3 (PhysAddr d) = None"
    "built owned e0 (?T3(PhysAddr d \<mapsto> ?L 3, ?i \<mapsto> (\<lambda>_. 0)(0 := table_word a, 1 := table_word b', 2 := table_word c, 3 := table_word d))) e4"
    "identity_gibs bs idp 0 4 e4 = (True, e')"
    by (rule built_gib [OF svc c(2) _ _ run1]) simp_all
  let ?T4 = "?T3(PhysAddr d \<mapsto> ?L 3, ?i \<mapsto> (\<lambda>_. 0)(0 := table_word a, 1 := table_word b', 2 := table_word c, 3 := table_word d))"
  have ne: "distinct [idp, a, b', c, d]" using a(1) b'(1) c(1) d(1) t by (auto split: if_splits)
  let ?ds = "[a, b', c, d]"
  have none: "\<forall>d \<in> set ?ds. T (PhysAddr d) = None" using a(1) b'(1) c(1) d(1) ne by auto
  have words: "?T4 ?i = Some (\<lambda>i. if i < 4 then table_word (?ds ! unat i) else 0)" by (auto simp: fun_eq_iff word_less_4)
  have large: "?T4 (PhysAddr (?ds ! k)) = Some (large_words (of_nat k * ONE_GIB) 512)" if "k < 4" for k
  proof -
    have "k = 0 \<or> k = 1 \<or> k = 2 \<or> k = 3" using that by auto
    then show ?thesis using ne by auto
  qed
  have e4: "e4 = e'" using d(3) by simp
  show thesis
    by (rule that [of ?ds ?T4]) (use ne none words large d(2) e4 in auto)
qed

end
