(* ===== verification/Boot_Paging_Props.thy ===== *)
theory Boot_Paging_Props
  imports Boot_Paging
begin

unbundle bit_operations_syntax

text \<open>
  What the tables of the bootloader translate: the low 4 GiB to themselves, the kernel's addresses to
  its image, and nothing else.
\<close>

section \<open>The tables at the end\<close>

lemma ram_updates: "ram (e\<lparr>ram := m\<rparr>) = m" "e\<lparr>ram := m, ram := m'\<rparr> = e\<lparr>ram := m'\<rparr>"
  by simp_all

lemma built_start: "built owned e Map.empty e"
  by (simp add: built_def)

text \<open>The first half of the construction: the root and the identity map.\<close>

lemma built_low:
  assumes svc: "pages_service bs owned" and a1: "AllocateZeroedPage bs e = (pml4, e1)" "pml4 \<noteq> 0"
    and a2: "AllocateZeroedPage bs e1 = (idp, e2)" "idp \<noteq> 0" and a3: "identity_gibs bs idp 4 0 e2 = (True, e3)"
  obtains ds T where "length ds = 4" and "distinct ([pml4, idp] @ ds)" and "built owned e T e3"
    and "T (PhysAddr pml4) = Some (\<lambda>_. 0)" and "T (PhysAddr idp) = Some (\<lambda>i. if i < 4 then table_word (ds ! unat i) else 0)"
    and "\<forall>k < 4. T (PhysAddr (ds ! k)) = Some (large_words (of_nat k * ONE_GIB) 512)"
    and "dom T = PhysAddr ` set (pml4 # idp # ds)"
proof -
  let ?r = "PhysAddr pml4"
  note p1 = built_page [OF svc built_start a1]
  note p2 = built_page [OF svc p1(2) a2]
  have ne1: "pml4 \<noteq> idp" using p2(1) by auto
  let ?T2 = "Map.empty(?r \<mapsto> (\<lambda>_. 0), PhysAddr idp \<mapsto> (\<lambda>_. 0)) :: contents"
  obtain ds T3 where ds: "length ds = 4" "distinct ds" "\<forall>d \<in> set ds. ?T2 (PhysAddr d) = None" and b3: "built owned e T3 e3"
    and T3: "T3 (PhysAddr idp) = Some (\<lambda>i. if i < 4 then table_word (ds ! unat i) else 0)"
      "\<forall>k < 4. T3 (PhysAddr (ds ! k)) = Some (large_words (of_nat k * ONE_GIB) 512)"
      "\<And>u. u \<noteq> PhysAddr idp \<Longrightarrow> u \<notin> PhysAddr ` set ds \<Longrightarrow> T3 u = ?T2 u"
    by (rule built_identity [OF svc p2(2) _ a3]) auto
  have ne2: "pml4 \<notin> set ds" "idp \<notin> set ds" using ds(3) by (auto split: if_splits)
  have t3: "T3 ?r = Some (\<lambda>_. 0)" using T3(3) [of ?r] ne1 ne2 by auto
  have in3: "PhysAddr d \<in> dom T3" if "d \<in> set ds" for d
    using that T3(2) ds(1) by (auto simp: in_set_conv_nth dom_def)
  have "u \<in> PhysAddr ` set (pml4 # idp # ds)" if "u \<in> dom T3" for u
    using that T3(3) [of u] by (cases "u = PhysAddr idp \<or> u \<in> PhysAddr ` set ds") (auto split: if_splits)
  moreover have "PhysAddr ` set (pml4 # idp # ds) \<subseteq> dom T3" using T3(1) t3 in3 by auto
  ultimately have "dom T3 = PhysAddr ` set (pml4 # idp # ds)" by blast
  then show thesis by (intro that [OF ds(1) _ b3 t3 T3(1,2)]) (use ne1 ne2 ds(2) in auto)
qed

lemma build_spec:
  assumes svc: "pages_service bs owned" and run: "BuildKernelPageTables bs base sz e = (root, e')" and root: "root \<noteq> 0"
  obtains T idp ds kp kd where "length ds = 4" and "distinct ([root, idp, kp, kd] @ ds)" and "kernel_pages sz \<le> 512"
    and "built owned e T e'" and "boot_tables T root idp ds kp kd base (kernel_pages sz)"
proof -
  obtain pml4 e1 where a1: "AllocateZeroedPage bs e = (pml4, e1)" by fastforce
  obtain idp e2 where a2: "AllocateZeroedPage bs e1 = (idp, e2)" by fastforce
  have nz1: "pml4 \<noteq> 0" "idp \<noteq> 0" using run root a1 a2 by (auto simp: BuildKernelPageTables_def split: if_splits)
  have four: "unat (IDENTITY_MAP_LIMIT div ONE_GIB) = 4" by (simp add: IDENTITY_MAP_LIMIT_def ONE_GIB_def)
  obtain ok e3 where a3: "identity_gibs bs idp 4 0 e2 = (ok, e3)" by fastforce
  let ?e4 = "e3\<lparr>ram := store64 (ram e3) (ptr_add pml4 0) (table_word idp)\<rparr>"
  obtain kp e5 where a5: "AllocateZeroedPage bs ?e4 = (kp, e5)" by fastforce
  obtain kd e6 where a6: "AllocateZeroedPage bs e5 = (kd, e6)" by fastforce
  let ?n = "kernel_pages sz"
  let ?m1 = "set_entries kd (\<lambda>entry. large_word (base + entry * PAGE_SIZE_2M)) ?n (ram e6)"
  let ?m2 = "store64 ?m1 (ptr_add kp 510) (table_word kd)"
  have r: "ok" "kp \<noteq> 0" "kd \<noteq> 0" "?n \<le> 512" "root = pml4" "e' = e6\<lparr>ram := store64 ?m2 (ptr_add pml4 511) (table_word kp)\<rparr>"
    using run root a1 a2 nz1 a3 a5 a6
    by (auto simp: BuildKernelPageTables_def four Let_def kernel_pages_def ENTRIES_PER_TABLE_def not_less split: if_splits)
  let ?r = "PhysAddr pml4"
  obtain ds T3 where ds: "length ds = 4" "distinct ([pml4, idp] @ ds)" and b3: "built owned e T3 e3" and t3: "T3 ?r = Some (\<lambda>_. 0)"
    and T3: "T3 (PhysAddr idp) = Some (\<lambda>i. if i < 4 then table_word (ds ! unat i) else 0)"
      "\<forall>k < 4. T3 (PhysAddr (ds ! k)) = Some (large_words (of_nat k * ONE_GIB) 512)"
    and dom3: "dom T3 = PhysAddr ` set (pml4 # idp # ds)"
    by (rule built_low [OF svc a1 nz1(1) a2 nz1(2) a3 [unfolded eqTrueI [OF r(1)]]])
  have s0: "unat (0 :: usize) < 512" by simp
  note b4 = built_store [OF b3 t3 s0, of "table_word idp", unfolded phys_addr.sel]
  note p5 = built_page [OF svc b4 a5 r(2)]
  note p6 = built_page [OF svc p5(2) a6 r(3)]
  have "PhysAddr kp \<notin> dom T3" "kp \<noteq> pml4" using p5(1) by (auto split: if_splits)
  moreover have "PhysAddr kd \<notin> dom T3" "kd \<noteq> pml4" "kd \<noteq> kp" using p6(1) by (auto split: if_splits)
  ultimately have ne: "distinct ([pml4, idp, kp, kd] @ ds)" using ds(2) unfolding dom3 by auto
  let ?T6 = "T3(?r \<mapsto> (\<lambda>_. 0)(0 := table_word idp), PhysAddr kp \<mapsto> (\<lambda>_. 0), PhysAddr kd \<mapsto> (\<lambda>_. 0))"
  have n: "unat ?n \<le> 512" using r(4) by (simp add: word_le_nat_alt)
  have t6: "?T6 (PhysAddr kd) = Some (\<lambda>_. 0)" by simp
  have lw: "(\<lambda>i. if i < ?n then large_word (base + i * PAGE_SIZE_2M) else 0) = large_words base ?n" by (auto simp: large_words_def)
  note b7 = built_set_entries [OF p6(2) t6 n, of "\<lambda>entry. large_word (base + entry * PAGE_SIZE_2M)", unfolded lw]
  have t7: "(?T6(PhysAddr kd \<mapsto> large_words base ?n)) (PhysAddr kp) = Some (\<lambda>_. 0)" using ne by auto
  have s510: "unat (510 :: usize) < 512" "unat (511 :: usize) < 512" by simp_all
  note b8 = built_store [OF b7 t7 s510(1), of "table_word kd"]
  have t8: "(?T6(PhysAddr kd \<mapsto> large_words base ?n, PhysAddr kp \<mapsto> (\<lambda>_. 0)(510 := table_word kd))) ?r = Some ((\<lambda>_. 0)(0 := table_word idp))"
    using ne by auto
  let ?T9 = "?T6(PhysAddr kd \<mapsto> large_words base ?n, PhysAddr kp \<mapsto> (\<lambda>_. 0)(510 := table_word kd),
      ?r \<mapsto> (\<lambda>_. 0)(0 := table_word idp, 511 := table_word kp))"
  have b9: "built owned e ?T9 e'" 
    unfolding r(6) using built_store [OF b8 t8 s510(2), of "table_word kp"] by (simp only: ram_updates phys_addr.sel)
  have large: "?T9 (PhysAddr (ds ! k)) = Some (large_words (of_nat k * ONE_GIB) 512)" if "k < 4" for k
  proof -
    have "ds ! k \<in> set ds" using that ds(1) by simp
    then have "ds ! k \<noteq> pml4" "ds ! k \<noteq> kp" "ds ! k \<noteq> kd" using ne by auto
    then show ?thesis using T3(2) that by simp
  qed
  have dom9: "dom ?T9 = PhysAddr ` set ([pml4, idp, kp, kd] @ ds)" using dom3 by auto
  have "boot_tables ?T9 root idp ds kp kd base ?n"
    unfolding boot_tables_def r(5) using T3(1) ne large dom9 by (auto simp: fun_eq_iff)
  then show thesis by (rule that [OF ds(1) ne [folded r(5)] r(4) b9])
qed

section \<open>Entries\<close>

lemma bit_PTE [simp]:
  "bit PTE_PRESENT k \<longleftrightarrow> k = 0" "bit PTE_WRITABLE k \<longleftrightarrow> k = 1" "bit PTE_PS k \<longleftrightarrow> k = 7"
proof -
  have "PTE_PRESENT = push_bit 0 1" "PTE_WRITABLE = push_bit 1 1" "PTE_PS = push_bit 7 1"
    by (simp_all add: PTE_PRESENT_def PTE_WRITABLE_def PTE_PS_def)
  then show "bit PTE_PRESENT k \<longleftrightarrow> k = 0" "bit PTE_WRITABLE k \<longleftrightarrow> k = 1" "bit PTE_PS k \<longleftrightarrow> k = 7"
    using bit_single [of 0 k] bit_single [of 1 k] bit_single [of 7 k] by simp_all
qed

lemma huge_iff: "is_huge e \<longleftrightarrow> bit (entry_bits e) 7"
  unfolding raw_has_flag_def FLAG_PAGE_SIZE_def by (rule and_one_bit) simp

lemma table_word_entry:
  assumes "entry_holds (PhysAddr p)"
  shows "is_present (PageTableEntry (table_word p))" and "\<not> is_huge (PageTableEntry (table_word p))"
    and "entry_addr (PageTableEntry (table_word p)) = PhysAddr p"
proof -
  have low: "\<not> bit p k" if "k < 12" for k using entry_holds_bits [OF assms, of k] that by auto
  show "is_present (PageTableEntry (table_word p))" "\<not> is_huge (PageTableEntry (table_word p))"
    using low by (simp_all add: entry_bits_iff huge_iff bit_or_iff)
  have "phys_as_u64 (entry_addr (PageTableEntry (table_word p))) = p"
    by (rule bit_eqI) (use entry_holds_bits [OF assms] in \<open>auto simp: bit_entry_addr bit_or_iff\<close>)
  then show "entry_addr (PageTableEntry (table_word p)) = PhysAddr p" by (metis phys_addr.collapse)
qed

lemma large_word_entry:
  assumes "entry_holds (PhysAddr p)"
  shows "is_present (PageTableEntry (large_word p))" and "is_huge (PageTableEntry (large_word p))"
    and "entry_addr (PageTableEntry (large_word p)) = PhysAddr p"
proof -
  show "is_present (PageTableEntry (large_word p))" "is_huge (PageTableEntry (large_word p))"
    by (simp_all add: entry_bits_iff huge_iff bit_or_iff)
  have "phys_as_u64 (entry_addr (PageTableEntry (large_word p))) = p"
    by (rule bit_eqI) (use entry_holds_bits [OF assms] in \<open>auto simp: bit_entry_addr bit_or_iff\<close>)
  then show "entry_addr (PageTableEntry (large_word p)) = PhysAddr p" by (metis phys_addr.collapse)
qed

lemma zero_word_entry [simp]: "\<not> is_present (PageTableEntry 0)" "\<not> is_huge (PageTableEntry 0)"
  by (simp_all add: entry_bits_iff huge_iff)

text \<open>The addresses the large pages of a table lead to.\<close>

definition large_run :: "u64 \<Rightarrow> u64 \<Rightarrow> bool" where
  "large_run base n \<longleftrightarrow> unat base mod 2 ^ 21 = 0 \<and> unat base + unat n * 2 ^ 21 \<le> 2 ^ 52"

lemma large_run_entry:
  assumes "large_run base n" and "i < n"
  shows "unat (base + i * PAGE_SIZE_2M) = unat base + unat i * 2 ^ 21" and "entry_holds (PhysAddr (base + i * PAGE_SIZE_2M))"
proof -
  have i: "unat i + 1 \<le> unat n" using assms(2) by (simp add: word_less_nat_alt)
  then have "(unat i + 1) * 2 ^ 21 \<le> unat n * 2 ^ 21" by (rule mult_le_mono1)
  then have lt: "unat base + unat i * 2 ^ 21 < 2 ^ 52" using assms(1) by (simp add: large_run_def)
  have "unat (i * PAGE_SIZE_2M) = unat i * 2 ^ 21"
    using lt by (simp add: PAGE_SIZE_2M_def unat_mult_no_wrap)
  then show u: "unat (base + i * PAGE_SIZE_2M) = unat base + unat i * 2 ^ 21"
    using lt by (simp add: unat_add_no_wrap)
  have "2 ^ 21 dvd unat base" using assms(1) by (simp add: large_run_def dvd_eq_mod_eq_0)
  then have "2 ^ 21 dvd unat base + unat i * 2 ^ 21" by simp
  then have "4096 dvd unat base + unat i * 2 ^ 21" by (rule dvd_trans [rotated]) simp
  then show "entry_holds (PhysAddr (base + i * PAGE_SIZE_2M))"
    using lt u by (simp add: entry_holds_def is_frame_aligned_iff dvd_eq_mod_eq_0)
qed

lemma gib_run: "k < 4 \<Longrightarrow> large_run (of_nat k * ONE_GIB) 512" "k < 4 \<Longrightarrow> unat (of_nat k * ONE_GIB) = k * 2 ^ 30"
proof -
  assume k: "k < 4"
  show "unat (of_nat k * ONE_GIB) = k * 2 ^ 30" using k by (simp add: ONE_GIB_def unat_mult_no_wrap)
  then show "large_run (of_nat k * ONE_GIB) 512" using k by (simp add: large_run_def mod_mult_right_eq)
qed

section \<open>Walks\<close>

definition boot_entries :: "qmem \<Rightarrow> u64 \<Rightarrow> u64 \<Rightarrow> u64 list \<Rightarrow> u64 \<Rightarrow> u64 \<Rightarrow> u64 \<Rightarrow> u64 \<Rightarrow> bool" where
  "boot_entries m root idp ds kp kd base n \<longleftrightarrow>
     length ds = 4 \<and> distinct ([root, idp, kp, kd] @ ds)
     \<and> (\<forall>p \<in> set ([root, idp, kp, kd] @ ds). entry_holds (PhysAddr p) \<and> low_table (PhysAddr p))
     \<and> large_run base n
     \<and> (\<forall>i. unat i < 512 \<longrightarrow>
          entry_at m (PhysAddr root) i = PageTableEntry (if i = 0 then table_word idp else if i = 511 then table_word kp else 0)
          \<and> entry_at m (PhysAddr idp) i = PageTableEntry (if i < 4 then table_word (ds ! unat i) else 0)
          \<and> (\<forall>k < 4. entry_at m (PhysAddr (ds ! k)) i = PageTableEntry (large_words (of_nat k * ONE_GIB) 512 i))
          \<and> entry_at m (PhysAddr kp) i = PageTableEntry (if i = 510 then table_word kd else 0)
          \<and> entry_at m (PhysAddr kd) i = PageTableEntry (large_words base n i))"

lemma boot_entriesD:
  assumes "boot_entries m root idp ds kp kd base n"
  shows "length ds = 4" and "distinct ([root, idp, kp, kd] @ ds)" and "large_run base n"
    and "p \<in> set ([root, idp, kp, kd] @ ds) \<Longrightarrow> entry_holds (PhysAddr p)"
    and "p \<in> set ([root, idp, kp, kd] @ ds) \<Longrightarrow> low_table (PhysAddr p)"
    and "unat i < 512 \<Longrightarrow> entry_at m (PhysAddr root) i = PageTableEntry (if i = 0 then table_word idp else if i = 511 then table_word kp else 0)"
    and "unat i < 512 \<Longrightarrow> entry_at m (PhysAddr idp) i = PageTableEntry (if i < 4 then table_word (ds ! unat i) else 0)"
    and "unat i < 512 \<Longrightarrow> k < 4 \<Longrightarrow> entry_at m (PhysAddr (ds ! k)) i = PageTableEntry (large_words (of_nat k * ONE_GIB) 512 i)"
    and "unat i < 512 \<Longrightarrow> entry_at m (PhysAddr kp) i = PageTableEntry (if i = 510 then table_word kd else 0)"
    and "unat i < 512 \<Longrightarrow> entry_at m (PhysAddr kd) i = PageTableEntry (large_words base n i)"
  using assms unfolding boot_entries_def by (blast | simp)+

lemma large_words_entry:
  assumes "large_run base n"
  shows "is_present (PageTableEntry (large_words base n i)) \<longleftrightarrow> i < n" and "is_huge (PageTableEntry (large_words base n i)) \<longleftrightarrow> i < n"
  using large_run_entry(2) [OF assms, of i] large_word_entry(1,2) [of "base + i * PAGE_SIZE_2M"] by (simp_all add: large_words_def)

lemma walk_boot:
  assumes b: "boot_entries m root idp ds kp kd base n" and i: "unat i1 < 512" "unat i2 < 512" "unat i3 < 512"
  shows "walk m (PhysAddr root) [i1, i2, i3, i4] =
    (if i1 = 0 \<and> i2 < 4 then Huge 1 (PageTableEntry (large_words (i2 * ONE_GIB) 512 i3))
     else if i1 = 511 \<and> i2 = 510 \<and> i3 < n then Huge 1 (PageTableEntry (large_words base n i3)) else Missing)"
proof -
  note d = boot_entriesD [OF b]
  have low: "low_table (PhysAddr root)" "low_table (PhysAddr idp)" "low_table (PhysAddr kp)" "low_table (PhysAddr kd)" using d(5) by simp_all
  have tw: "is_present (PageTableEntry (table_word p))" "\<not> is_huge (PageTableEntry (table_word p))"
    "entry_addr (PageTableEntry (table_word p)) = PhysAddr p" if "p \<in> set ([root, idp, kp, kd] @ ds)" for p
    using table_word_entry [OF d(4) [OF that]] by simp_all
  have dk: "ds ! unat i2 \<in> set ([root, idp, kp, kd] @ ds)" if "i2 < 4" using that d(1) by (simp add: word_less_nat_alt)
  have u: "unat i2 < 4" if "i2 < 4" using that by (simp add: word_less_nat_alt)
  have i3: "i3 < 512" using i(3) by (simp add: word_less_nat_alt)
  consider "i1 = 0" "i2 < 4" | "i1 = 0" "\<not> i2 < 4" | "i1 = 511" "i2 = 510" | "i1 = 511" "i2 \<noteq> 510" | "i1 \<noteq> 0" "i1 \<noteq> 511" by blast
  then show ?thesis
  proof cases
    case 1
    have run: "large_run (i2 * ONE_GIB) 512" using gib_run(1) [OF u [OF 1(2)]] by simp
    have "entry_at m (PhysAddr (ds ! unat i2)) i3 = PageTableEntry (large_words (i2 * ONE_GIB) 512 i3)"
      using d(8) [OF i(3) u [OF 1(2)]] by simp
    then show ?thesis
      using 1 low d(6) [OF i(1)] d(7) [OF i(2)] tw [of idp] tw [OF dk [OF 1(2)]] d(5) [OF dk [OF 1(2)]] large_words_entry [OF run] i3 by simp
  next
    case 3
    then show ?thesis
      using low d(6) [OF i(1)] d(9) [OF i(2)] d(10) [OF i(3)] tw [of kp] tw [of kd] large_words_entry [OF d(3)] by simp
  qed (use low d(6) [OF i(1)] d(7) [OF i(2)] d(9) [OF i(2)] tw [of idp] tw [of kp] in auto)
qed

lemma table_at_boot:
  assumes b: "boot_entries m root idp ds kp kd base n" and p: "valid_path p" "table_at m (PhysAddr root) p = Some u"
  shows "(p, u) \<in> {([], PhysAddr root), ([0], PhysAddr idp), ([511], PhysAddr kp), ([511, 510], PhysAddr kd)}
    \<union> (\<lambda>k. ([0, of_nat k], PhysAddr (ds ! k))) ` {..<4}"
proof -
  note d = boot_entriesD [OF b]
  have tw: "is_present (PageTableEntry (table_word p))" "\<not> is_huge (PageTableEntry (table_word p))"
    "entry_addr (PageTableEntry (table_word p)) = PhysAddr p" if "p \<in> set ([root, idp, kp, kd] @ ds)" for p
    using table_word_entry [OF d(4) [OF that]] by simp_all
  have pd: "q = [] \<and> u = PhysAddr t"
    if "table_at m (PhysAddr t) q = Some u" "valid_path q" "\<And>i. unat i < 512 \<Longrightarrow> entry_at m (PhysAddr t) i = PageTableEntry (large_words s k i)" "large_run s k" for t q s k
    using that large_words_entry [OF that(4)] by (cases q) (auto split: if_splits)
  have idp: "q = [] \<and> u = PhysAddr idp \<or> (\<exists>k < 4. q = [of_nat k] \<and> u = PhysAddr (ds ! k))"
    if q: "table_at m (PhysAddr idp) q = Some u" "valid_path q" for q
  proof (cases q)
    case (Cons j r)
    have j: "unat j < 512" "valid_path r" using q(2) Cons by simp_all
    have lt: "j < 4" using q(1) Cons d(7) [OF j(1)] by (auto split: if_splits)
    then have k: "unat j < 4" by (simp add: word_less_nat_alt)
    then have ds: "ds ! unat j \<in> set ([root, idp, kp, kd] @ ds)" using d(1) by simp
    have "table_at m (PhysAddr (ds ! unat j)) r = Some u"
      using q(1) Cons d(7) [OF j(1)] lt tw [OF ds] by (auto split: if_splits)
    then have "r = [] \<and> u = PhysAddr (ds ! unat j)" by (rule pd [OF _ j(2) d(8) [OF _ k] gib_run(1) [OF k]])
    then show ?thesis using Cons k by (intro disjI2 exI [of _ "unat j"]) simp
  qed (use q in simp)
  have kp: "q = [] \<and> u = PhysAddr kp \<or> q = [510] \<and> u = PhysAddr kd"
    if q: "table_at m (PhysAddr kp) q = Some u" "valid_path q" for q
  proof (cases q)
    case (Cons j r)
    have j: "unat j < 512" "valid_path r" using q(2) Cons by simp_all
    have "j = 510" using q(1) Cons d(9) [OF j(1)] by (auto split: if_splits)
    moreover from this have "table_at m (PhysAddr kd) r = Some u"
      using q(1) Cons d(9) [OF j(1)] tw [of kd] by (auto split: if_splits)
    ultimately show ?thesis using pd [OF _ j(2) d(10) d(3)] Cons by auto
  qed (use q in simp)
  show ?thesis
  proof (cases p)
    case (Cons i q)
    have i: "unat i < 512" "valid_path q" using p(1) Cons by simp_all
    have "i = 0 \<or> i = 511" using p(2) Cons d(6) [OF i(1)] by (auto split: if_splits)
    then show ?thesis
    proof
      assume "i = 0"
      moreover from this have "table_at m (PhysAddr idp) q = Some u"
        using p(2) Cons d(6) [OF i(1)] tw [of idp] by (auto split: if_splits)
      ultimately show ?thesis using idp [OF _ i(2)] Cons by auto
    next
      assume "i = 511"
      moreover from this have "table_at m (PhysAddr kp) q = Some u"
        using p(2) Cons d(6) [OF i(1)] tw [of kp] by (auto split: if_splits)
      ultimately show ?thesis using kp [OF _ i(2)] Cons by auto
    qed
  qed (use p in simp)
qed

lemma boot_tables_ok:
  assumes b: "boot_entries m root idp ds kp kd base n"
  shows "tables_ok m (PhysAddr root)"
proof (rule tables_okI)
  note d = boot_entriesD [OF b]
  show "is_frame_aligned (PhysAddr root)" using d(4) [of root] by (simp add: entry_holds_def)
  have "\<not> is_huge (PageTableEntry (table_word idp))" "\<not> is_huge (PageTableEntry (table_word kp))"
    using table_word_entry(2) d(4) by simp_all
  then show "\<not> is_huge (entry_at m (PhysAddr root) i)" if "unat i < 512" for i
    using d(6) [OF that] by simp
  fix p q u
  assume a: "valid_path p" "valid_path q" "table_at m (PhysAddr root) p = Some u" "table_at m (PhysAddr root) q = Some u"
  note pq = table_at_boot [OF b a(1,3)] table_at_boot [OF b a(2,4)]
  have ne: "root \<noteq> idp" "root \<noteq> kp" "root \<noteq> kd" "idp \<noteq> kp" "idp \<noteq> kd" "kp \<noteq> kd" using d(2) by simp_all
  have nk: "ds ! k \<noteq> root" "ds ! k \<noteq> idp" "ds ! k \<noteq> kp" "ds ! k \<noteq> kd" if "k < 4" for k
    using d(1,2) nth_mem [of k ds] that by auto
  have "distinct ds" using d(2) by simp
  then have inj: "ds ! k = ds ! j \<longleftrightarrow> k = j" if "k < 4" "j < 4" for k j
    using nth_eq_iff_index_eq [of ds k j] that d(1) by simp
  show "p = q"
    using pq by (elim UnE insertE emptyE imageE Pair_inject) (simp_all add: ne ne [symmetric] nk nk [symmetric] inj)
qed

lemma boot_entries_built:
  assumes b: "built owned e T e'" and t: "boot_tables T root idp ds kp kd base n" and ds: "length ds = 4" "distinct ([root, idp, kp, kd] @ ds)"
    and run: "large_run base n" and low: "owned (firmware e') - owned (firmware e) \<subseteq> {..<2 ^ 32}"
  shows "boot_entries (quads (ram e')) root idp ds kp kd base n"
proof -
  note t = t [unfolded boot_tables_def]
  have holds: "entry_holds (PhysAddr p) \<and> low_table (PhysAddr p)" if "p \<in> set ([root, idp, kp, kd] @ ds)" for p
  proof -
    have "PhysAddr p \<in> dom T" using t that by auto
    then obtain c where c: "T (PhysAddr p) = Some c" by blast
    have "unat p \<in> page_bytes (PhysAddr p)" by (simp add: bytes_at_def)
    then have "unat p \<in> owned (firmware e') - owned (firmware e)" using builtD(2,4) [OF b] c by blast
    then have "unat p < 2 ^ 32" using low by auto
    then show ?thesis using builtD(3) [OF b c] by (simp add: low_table_unat)
  qed
  have words: "entry_at (quads (ram e')) (PhysAddr p) i = PageTableEntry (c i)" if "T (PhysAddr p) = Some c" "unat i < 512" for p c i
    using builtD(5) [OF b that] by (simp add: entry_at_def)
  have dk: "T (PhysAddr (ds ! k)) = Some (large_words (of_nat k * ONE_GIB) 512)" if "k < 4" for k using t that by blast
  show ?thesis
    unfolding boot_entries_def
    using ds run holds words [OF dk] words [OF conjunct1 [OF t]] words [of idp] words [of kp] words [of kd] t by simp
qed

section \<open>Translations\<close>

lemma resolve_large:
  assumes run: "large_run s k" and i: "i < k"
  obtains p where "resolve (Huge 1 (PageTableEntry (large_words s k i))) virt = Some (PhysAddr p)"
    and "unat p = unat s + unat i * 2 ^ 21 + unat (virt_as_u64 virt) mod 2 ^ 21"
proof -
  let ?q = "s + i * PAGE_SIZE_2M"
  note q = large_run_entry [OF run i]
  have "2 ^ 21 dvd unat s + unat i * 2 ^ 21" using run by (simp add: large_run_def dvd_eq_mod_eq_0)
  then have "unat ?q div 2 ^ 21 * 2 ^ 21 = unat s + unat i * 2 ^ 21" unfolding q(1) by (rule dvd_div_mult_self)
  then show thesis
    using that large_word_entry(3) [OF q(2)] i huge_base_numerals(2) [of ?q "virt_as_u64 virt"]
    by (simp add: resolve_def large_words_def)
qed

lemma kernel_base_nat: "unat KERNEL_VIRTUAL_BASE = 2 ^ 64 - 2 ^ 31"
  by (simp add: KERNEL_VIRTUAL_BASE_def)

lemma sparse_index:
  assumes "a < 256 \<or> 2 ^ 25 - 256 \<le> a" "a < (2::nat) ^ 25"
  shows "a mod 512 = 0 \<longleftrightarrow> a = 0" and "a mod 512 = 511 \<longleftrightarrow> a = 2 ^ 25 - 1"
proof -
  consider "a < 256" | k where "a = (256 + k) + 65535 * 512" "k < 256"
    using assms le_Suc_ex [of "2 ^ 25 - 256" a] by fastforce
  note cases = this
  have m: "a mod 512 = 256 + k" if "a = (256 + k) + 65535 * 512" "k < 256" for k
    unfolding that(1) mod_mult_self1 using that(2) by simp
  show "a mod 512 = 0 \<longleftrightarrow> a = 0" by (rule cases) (use m in auto)
  show "a mod 512 = 511 \<longleftrightarrow> a = 2 ^ 25 - 1" by (rule cases) (use m in auto)
qed

lemma gib_510:
  assumes "r < (2::nat) ^ 30"
  shows "2 ^ 64 - 2 ^ 31 \<le> y * 2 ^ 30 + r \<and> y * 2 ^ 30 + r < 2 ^ 64 - 2 ^ 31 + 2 ^ 30 \<longleftrightarrow> y = 2 ^ 34 - 2"
proof -
  have "y * 2 ^ 30 + r < (2 ^ 34 - 1) * 2 ^ 30 \<longleftrightarrow> y < 2 ^ 34 - 1"
    using assms by simp linarith
  moreover have "(2 ^ 34 - 2) * 2 ^ 30 \<le> y * 2 ^ 30 + r \<longleftrightarrow> 2 ^ 34 - 2 \<le> y"
    using assms by simp linarith
  ultimately show ?thesis by simp linarith
qed

lemma gib_split: 
  assumes "b < (512::nat)"
  shows "a * 512 + b = 2 ^ 34 - 2 \<longleftrightarrow> a = 2 ^ 25 - 1 \<and> b = 510"
proof
  assume y: "a * 512 + b = 2 ^ 34 - 2"
  have "a = (a * 512 + b) div 512" "b = (a * 512 + b) mod 512" using assms by simp_all
  then show "a = 2 ^ 25 - 1 \<and> b = 510" unfolding y by simp
qed simp
lemma canonical_parts:
  assumes "canonical x"
  shows "unat x < 2 ^ 32 \<longleftrightarrow> unat x div 2 ^ 39 mod 512 = 0 \<and> unat x div 2 ^ 30 mod 512 < 4"
    and "unat KERNEL_VIRTUAL_BASE \<le> unat x \<and> unat x < unat KERNEL_VIRTUAL_BASE + 2 ^ 30
      \<longleftrightarrow> unat x div 2 ^ 39 mod 512 = 511 \<and> unat x div 2 ^ 30 mod 512 = 510"
proof -
  define a b r where "a = unat x div 2 ^ 39" and "b = unat x div 2 ^ 30 mod 512" and "r = unat x mod 2 ^ 30"
  have "unat x div 2 ^ 30 div 512 = a" by (simp add: a_def div_mult2_eq [symmetric])
  then have "unat x div 2 ^ 30 = a * 512 + b" unfolding b_def by (metis div_mult_mod_eq)
  then have x: "unat x = (a * 512 + b) * 2 ^ 30 + r" unfolding r_def by (metis div_mult_mod_eq)
  have lt: "b < 512" "r < 2 ^ 30" "a < 2 ^ 25"
    using unat_lt64 [of x] by (simp_all add: a_def b_def r_def less_mult_imp_div_less)
  have can: "a < 256 \<or> 2 ^ 25 - 256 \<le> a" using assms x lt unfolding canonical_def by simp linarith
  have "unat x < 2 ^ 32 \<longleftrightarrow> a = 0 \<and> b < 4" using x lt by simp linarith
  then show "unat x < 2 ^ 32 \<longleftrightarrow> unat x div 2 ^ 39 mod 512 = 0 \<and> unat x div 2 ^ 30 mod 512 < 4"
    unfolding a_def [symmetric] b_def [symmetric] sparse_index(1) [OF can lt(3)] .
  from gib_510 [OF lt(2), of "a * 512 + b", folded x kernel_base_nat]
  show "unat KERNEL_VIRTUAL_BASE \<le> unat x \<and> unat x < unat KERNEL_VIRTUAL_BASE + 2 ^ 30
      \<longleftrightarrow> unat x div 2 ^ 39 mod 512 = 511 \<and> unat x div 2 ^ 30 mod 512 = 510"
    unfolding a_def [symmetric] b_def [symmetric] sparse_index(2) [OF can lt(3)] gib_split [OF lt(1)] .
qed

text \<open>What the tables promise: the target of each canonical address, in terms of the addresses alone.\<close>

definition boot_target :: "u64 \<Rightarrow> u64 \<Rightarrow> u64 \<Rightarrow> phys_addr option" where
  "boot_target base n x =
     (if unat x < 2 ^ 32 then Some (PhysAddr x)
      else if KERNEL_VIRTUAL_BASE \<le> x \<and> unat (x - KERNEL_VIRTUAL_BASE) < unat n * 2 ^ 21 then Some (PhysAddr (base + (x - KERNEL_VIRTUAL_BASE)))
      else None)"

lemma parts_2m: "(y :: nat) = y div 2 ^ 30 * 2 ^ 30 + y div 2 ^ 21 mod 512 * 2 ^ 21 + y mod 2 ^ 21"
proof -
  have "y div 2 ^ 21 div 512 = y div 2 ^ 30" by (simp add: div_mult2_eq [symmetric])
  then have "y div 2 ^ 21 = y div 2 ^ 30 * 512 + y div 2 ^ 21 mod 512" by (metis div_mult_mod_eq)
  then have "y div 2 ^ 21 * 2 ^ 21 = y div 2 ^ 30 * 2 ^ 30 + y div 2 ^ 21 mod 512 * 2 ^ 21" by simp
  then show ?thesis by (metis div_mult_mod_eq)
qed

lemma kernel_offset:
  assumes "KERNEL_VIRTUAL_BASE \<le> x"
  shows "unat (x - KERNEL_VIRTUAL_BASE) = unat x - unat KERNEL_VIRTUAL_BASE"
    and "unat x div 2 ^ 21 mod 512 = unat (x - KERNEL_VIRTUAL_BASE) div 2 ^ 21 mod 512"
    and "unat x mod 2 ^ 21 = unat (x - KERNEL_VIRTUAL_BASE) mod 2 ^ 21"
proof -
  show u: "unat (x - KERNEL_VIRTUAL_BASE) = unat x - unat KERNEL_VIRTUAL_BASE"
    using assms by (simp only: unat_sub)
  have K: "unat KERNEL_VIRTUAL_BASE = (2 ^ 34 - 2) * 512 * 2 ^ 21" unfolding kernel_base_nat by simp
  have "unat KERNEL_VIRTUAL_BASE \<le> unat x" using assms by (simp add: word_le_nat_alt)
  then have x: "unat x = unat (x - KERNEL_VIRTUAL_BASE) + (2 ^ 34 - 2) * 512 * 2 ^ 21" using u K by simp
  show "unat x mod 2 ^ 21 = unat (x - KERNEL_VIRTUAL_BASE) mod 2 ^ 21" unfolding x by (rule mod_mult_self1)
  have "unat x div 2 ^ 21 = (2 ^ 34 - 2) * 512 + unat (x - KERNEL_VIRTUAL_BASE) div 2 ^ 21"
    unfolding x by (rule div_mult_self1) simp
  then show "unat x div 2 ^ 21 mod 512 = unat (x - KERNEL_VIRTUAL_BASE) div 2 ^ 21 mod 512" by (metis mod_mult_self3)
qed

text \<open>The two kinds of large page, by the indices of an address.\<close>

lemma resolve_identity:
  assumes "unat (virt_as_u64 v) < 2 ^ 32"
  shows "resolve (Huge 1 (PageTableEntry (large_words (pdpt_index v * ONE_GIB) 512 (pd_index v)))) v = Some (PhysAddr (virt_as_u64 v))"
proof -
  let ?x = "virt_as_u64 v"
  have "unat ?x div 2 ^ 30 < 4" using assms by (simp add: less_mult_imp_div_less)
  then have k: "unat (pdpt_index v) = unat ?x div 2 ^ 30" "unat (pdpt_index v) < 4" by (simp_all add: unat_indices)
  have i3: "pd_index v < 512" using index_bounds(3) [of v] by (simp add: word_less_nat_alt)
  have gib: "large_run (pdpt_index v * ONE_GIB) 512" "unat (pdpt_index v * ONE_GIB) = unat (pdpt_index v) * 2 ^ 30"
    using gib_run [OF k(2)] by simp_all
  obtain p where p: "resolve (Huge 1 (PageTableEntry (large_words (pdpt_index v * ONE_GIB) 512 (pd_index v)))) v = Some (PhysAddr p)"
    "unat p = unat (pdpt_index v * ONE_GIB) + unat (pd_index v) * 2 ^ 21 + unat ?x mod 2 ^ 21"
    by (rule resolve_large [OF gib(1) i3])
  have "unat p = unat ?x" unfolding p(2) gib(2) k(1) unat_indices(3) by (rule parts_2m [symmetric])
  then show ?thesis using p(1) by (simp add: word_unat_eq_iff)
qed

lemma resolve_image:
  assumes run: "large_run base n" and x: "KERNEL_VIRTUAL_BASE \<le> virt_as_u64 v" "unat (virt_as_u64 v) < unat KERNEL_VIRTUAL_BASE + 2 ^ 30"
  shows "pd_index v < n \<longleftrightarrow> unat (virt_as_u64 v - KERNEL_VIRTUAL_BASE) < unat n * 2 ^ 21"
    and "pd_index v < n \<Longrightarrow> resolve (Huge 1 (PageTableEntry (large_words base n (pd_index v)))) v
      = Some (PhysAddr (base + (virt_as_u64 v - KERNEL_VIRTUAL_BASE)))"
proof -
  let ?o = "virt_as_u64 v - KERNEL_VIRTUAL_BASE"
  note o = kernel_offset [OF x(1)]
  have "unat ?o < 2 ^ 30" using x(2) o(1) unat_lt64 [of "virt_as_u64 v"] unfolding kernel_base_nat by simp
  then have "unat ?o div 2 ^ 21 < 512" "unat ?o div 2 ^ 30 = 0" by (simp_all add: less_mult_imp_div_less)
  then have i3: "unat (pd_index v) = unat ?o div 2 ^ 21" "unat ?o = unat (pd_index v) * 2 ^ 21 + unat (virt_as_u64 v) mod 2 ^ 21"
    using o(2,3) parts_2m [of "unat ?o"] by (simp_all add: unat_indices)
  show "pd_index v < n \<longleftrightarrow> unat ?o < unat n * 2 ^ 21"
    unfolding word_less_nat_alt i3(1) by (rule div_less_iff_less_mult) simp
  assume "pd_index v < n"
  then obtain p where p: "resolve (Huge 1 (PageTableEntry (large_words base n (pd_index v)))) v = Some (PhysAddr p)"
    "unat p = unat base + unat (pd_index v) * 2 ^ 21 + unat (virt_as_u64 v) mod 2 ^ 21"
    by (rule resolve_large [OF run])
  have sum: "unat p = unat base + unat ?o" using p(2) i3(2) by simp
  then have "unat p = unat (base + ?o)" using unat_lt64 [of p] by (simp add: unat_add_no_wrap)
  then show "resolve (Huge 1 (PageTableEntry (large_words base n (pd_index v)))) v = Some (PhysAddr (base + ?o))"
    using p(1) by (simp only: word_unat_eq_iff [symmetric])
qed

lemma boot_translate:
  assumes b: "boot_entries (mem c) root idp ds kp kd base n" and n: "n \<le> 512" and x: "canonical x"
  shows "translate \<lparr>pml4_phys = PhysAddr root\<rparr> c (VirtAddr x) = boot_target base n x"
proof -
  let ?v = "VirtAddr x"
  let ?K = "unat KERNEL_VIRTUAL_BASE"
  note can = canonical_parts [OF x]
  note run = boot_entriesD(3) [OF b]
  have tr: "translate \<lparr>pml4_phys = PhysAddr root\<rparr> c ?v = resolve (walk (mem c) (PhysAddr root) (indices ?v)) ?v"
    using translate_walk [of c "\<lparr>pml4_phys = PhysAddr root\<rparr>"] boot_tables_ok [OF b] by simp
  note w = walk_boot [OF b index_bounds(1,2,3) [of ?v], of "pt_index ?v", folded indices_def]
  have ix: "pml4_index ?v = 0 \<longleftrightarrow> unat x div 2 ^ 39 mod 512 = 0" "pml4_index ?v = 511 \<longleftrightarrow> unat x div 2 ^ 39 mod 512 = 511"
    "pdpt_index ?v < 4 \<longleftrightarrow> unat x div 2 ^ 30 mod 512 < 4" "pdpt_index ?v = 510 \<longleftrightarrow> unat x div 2 ^ 30 mod 512 = 510"
    unfolding unat_indices(1,2) [of ?v, unfolded virt_addr.sel, symmetric] by (simp_all add: word_unat_eq_iff word_less_nat_alt)
  consider "unat x < 2 ^ 32" | "\<not> unat x < 2 ^ 32" "?K \<le> unat x \<and> unat x < ?K + 2 ^ 30" | "\<not> unat x < 2 ^ 32" "\<not> (?K \<le> unat x \<and> unat x < ?K + 2 ^ 30)" by blast
  then show ?thesis
  proof cases
    case 1
    then have "pml4_index ?v = 0 \<and> pdpt_index ?v < 4" using can(1) ix by simp
    then show ?thesis using 1 resolve_identity [of ?v] unfolding tr w boot_target_def by simp
  next
    case 2
    then have i: "pml4_index ?v \<noteq> 0" "pml4_index ?v = 511" "pdpt_index ?v = 510" using can ix by simp_all
    have le: "KERNEL_VIRTUAL_BASE \<le> x" using 2 by (simp add: word_le_nat_alt)
    note im = resolve_image [OF run, of ?v, unfolded virt_addr.sel, OF le conjunct2 [OF 2(2)]]
    show ?thesis by (cases "pd_index ?v < n") (use 2(1) i le im in \<open>simp_all add: tr w boot_target_def\<close>)
  next
    case 3
    have "unat n * 2 ^ 21 \<le> 2 ^ 30" using n by (simp add: word_le_nat_alt)
    then have "\<not> (KERNEL_VIRTUAL_BASE \<le> x \<and> unat (x - KERNEL_VIRTUAL_BASE) < unat n * 2 ^ 21)"
      using 3(2) kernel_offset(1) [of x] by (auto simp: word_le_nat_alt)
    moreover have "\<not> (pml4_index ?v = 0 \<and> pdpt_index ?v < 4)" "\<not> (pml4_index ?v = 511 \<and> pdpt_index ?v = 510)"
      using can ix 3 by simp_all
    ultimately show ?thesis using 3(1) unfolding tr w boot_target_def by auto
  qed
qed
end
