(* ===== verification/Boot_Memory_Map.thy ===== *)
theory Boot_Memory_Map
  imports Uefi Frame_Allocator
begin

unbundle bit_operations_syntax

text \<open>
  Leaving the boot services (\<open>src/boot/memory_map.c\<close>): the memory map is fetched into a buffer of the
  kernel's and the exit tried with its key, at most five times, each time from scratch.
\<close>

section \<open>The loop\<close>

definition MAX_EXIT_ATTEMPTS :: nat where "MAX_EXIT_ATTEMPTS = 5"

definition MEMORY_MAP_SLACK_ENTRIES :: u64 where "MEMORY_MAP_SLACK_ENTRIES = 8"

record boot_memory_map =
  Map :: u64
  MapSizeBytes :: u64
  DescriptorSize :: u64
  DescriptorVersion :: u32
  EntryCount :: u64

text \<open>One round of the loop: the function returns a value, or the loop goes on.\<close>

definition exit_attempt :: "'f boot_services \<Rightarrow> u64 \<Rightarrow> 'f env \<Rightarrow> boot_memory_map option option \<times> 'f env" where
  "exit_attempt bs ImageHandle e =
     (case GetMemoryMap bs 0 \<lparr>mapSize = 0, mapKey = 0, descriptorSize = 0, descriptorVersion = 0\<rparr> e of (_, q, e) \<Rightarrow>
      if descriptorSize q = 0 then (Some None, e)
      else
        let q = q\<lparr>mapSize := mapSize q + descriptorSize q * MEMORY_MAP_SLACK_ENTRIES\<rparr>;
            pageCount = RoundUpTo (mapSize q) PAGE_SIZE_4K div PAGE_SIZE_4K
        in (case AllocatePages bs AllocateMaxAddress EfiLoaderData pageCount (IDENTITY_MAP_LIMIT - 1) e of (status, mapPhysAddr, e) \<Rightarrow>
      if EFI_ERROR status then (Some None, e)
      else (case GetMemoryMap bs mapPhysAddr q e of (status, q, e) \<Rightarrow>
      if EFI_ERROR status then (None, snd (FreePages bs mapPhysAddr pageCount e))
      else (case ExitBootServices bs ImageHandle (mapKey q) e of (status, e) \<Rightarrow>
      if status = EFI_SUCCESS
      then (Some (Some \<lparr>Map = mapPhysAddr, MapSizeBytes = mapSize q, DescriptorSize = descriptorSize q,
          DescriptorVersion = descriptorVersion q, EntryCount = mapSize q div descriptorSize q\<rparr>), e)
      else (None, snd (FreePages bs mapPhysAddr pageCount e))))))"

primrec exit_attempts :: "nat \<Rightarrow> 'f boot_services \<Rightarrow> u64 \<Rightarrow> 'f env \<Rightarrow> boot_memory_map option \<times> 'f env" where
  "exit_attempts 0 bs ImageHandle e = (None, e)"
| "exit_attempts (Suc n) bs ImageHandle e =
     (case exit_attempt bs ImageHandle e of
        (Some r, e) \<Rightarrow> (r, e)
      | (None, e) \<Rightarrow> exit_attempts n bs ImageHandle e)"

definition ExitBootServicesWithRetry :: "'f boot_services \<Rightarrow> u64 \<Rightarrow> 'f env \<Rightarrow> boot_memory_map option \<times> 'f env" where
  "ExitBootServicesWithRetry bs ImageHandle e = exit_attempts MAX_EXIT_ATTEMPTS bs ImageHandle e"

section \<open>What an attempt does\<close>

lemma round_pages:
  assumes "unat v \<le> 2 ^ 52 + 2 ^ 20"
  shows "unat v \<le> unat (RoundUpTo v PAGE_SIZE_4K div PAGE_SIZE_4K) * 4096"
proof -
  have "unat (RoundUpTo v PAGE_SIZE_4K) = (unat v + 4095) div 4096 * 4096"
    using RoundUpTo_spec [of v 12] assms by (simp add: PAGE_SIZE_4K_def)
  then have "unat (RoundUpTo v PAGE_SIZE_4K div PAGE_SIZE_4K) = (unat v + 4095) div 4096" by (simp add: PAGE_SIZE_4K_def unat_div)
  then show ?thesis by simp
qed

lemma read_entry_cong:
  assumes "unat p + 32 \<le> 2 ^ 64" and "\<And>x. unat x \<in> bytes_at p 32 \<Longrightarrow> m' x = m x"
  shows "read_entry_at m' p = read_entry_at m p"
proof -
  have b: "m' (p + of_nat i) = m (p + of_nat i)" if "i < 32" for i
    using assms(1) that by (intro assms(2)) (simp add: bytes_at_def unat_add_no_wrap)
  have "read_bytes m' (p + of_nat d) n = read_bytes m (p + of_nat d) n" if "d + n \<le> 32" for d n
    using b [of "d + i" for i] that by (simp add: read_bytes_def add.assoc)
  from this [of 0 4] this [of 8 8] this [of 24 8] show ?thesis
    by (simp add: read_entry_at_def read_unaligned_u32_def read_unaligned_u64_def)
qed

lemma offers_kept:
  assumes "kept (bytes_at buf (unat sz)) m m'" and "40 \<le> d" and "unat buf + unat sz \<le> 2 ^ 64"
  shows "map_entries m' buf sz d = map_entries m buf sz d" and "offers m' buf sz d = offers m buf sz d"
proof -
  have "read_entry_at m' (buf + of_nat k * d) = read_entry_at m (buf + of_nat k * d)" if k: "k < unat sz div unat d" for k
  proof -
    have d: "40 \<le> unat d" using assms(2) by (simp add: word_le_nat_alt)
    have "Suc k * unat d \<le> unat sz div unat d * unat d" using k by (intro mult_le_mono1) simp
    then have kd: "k * unat d + unat d \<le> unat sz" using le_trans [OF _ div_times_less_eq_dividend [of "unat sz" "unat d"]] by simp
    then have lt: "k * unat d < 18446744073709551616" using d unat_lt64 [of sz] by linarith
    have "k \<le> k * unat d" using d by simp
    then have "k < 18446744073709551616" using lt by linarith
    then have uk: "unat (of_nat k :: u64) = k" by (simp add: unat_of_nat)
    have "unat (of_nat k * d) = k * unat d" using lt by (subst unat_mult_no_wrap) (simp_all add: uk)
    then have p: "unat (buf + of_nat k * d) = unat buf + k * unat d" using kd d assms(3) by (simp add: unat_add_no_wrap)
    show ?thesis
      by (rule read_entry_cong) (use p kd d assms(1,3) in \<open>auto simp: kept_def bytes_at_def\<close>)
  qed
  then show "map_entries m' buf sz d = map_entries m buf sz d" by (simp add: map_entries_def)
  then show "offers m' buf sz d = offers m buf sz d" by (simp add: offers_def)
qed

text \<open>What is delivered with a map: a buffer of the loader's own, whole below 4 GiB, that offers nothing of what is held.\<close>

definition map_delivered :: "('f \<Rightarrow> holdings) \<Rightarrow> memory_map_entry list set \<Rightarrow> 'f env \<Rightarrow> boot_memory_map \<Rightarrow> 'f env \<Rightarrow> bool" where
  "map_delivered V M e mm e' \<longleftrightarrow>
     bytes_at (Map mm) (unat (MapSizeBytes mm)) \<subseteq> held_in V e' - held_in V e
     \<and> unat (Map mm) + unat (MapSizeBytes mm) \<le> 2 ^ 32 \<and> 40 \<le> DescriptorSize mm
     \<and> EntryCount mm = MapSizeBytes mm div DescriptorSize mm
     \<and> map_entries (ram e') (Map mm) (MapSizeBytes mm) (DescriptorSize mm) \<in> M
     \<and> offers (ram e') (Map mm) (MapSizeBytes mm) (DescriptorSize mm) \<inter> held_in V e' = {}"

text \<open>The steps of an attempt after the buffer is there.\<close>

lemma attempt_buffer:
  assumes mem: "memory_services bs V" and maps: "map_service bs V key M"
    and g0: "GetMemoryMap bs 0 \<lparr>mapSize = 0, mapKey = 0, descriptorSize = 0, descriptorVersion = 0\<rparr> e = (st0, q0, e1)"
    and q: "q = q0\<lparr>mapSize := mapSize q0 + descriptorSize q0 * MEMORY_MAP_SLACK_ENTRIES\<rparr>"
    and al: "AllocatePages bs AllocateMaxAddress EfiLoaderData (RoundUpTo (mapSize q) PAGE_SIZE_4K div PAGE_SIZE_4K) lim e1 = (st1, p, e2)" "\<not> EFI_ERROR st1"
    and g: "GetMemoryMap bs p q e2 = (st2, q', e3)" and ex: "ExitBootServices bs img k e3 = (st3, e4)"
    and B: "B = bytes_at p (unat (RoundUpTo (mapSize q) PAGE_SIZE_4K div PAGE_SIZE_4K) * 4096)"
  shows "keeps V (held_in V e) e e3" and "keeps V (held_in V e) e e4"
    and "held_in V e3 = held_in V e \<union> B" and "held_in V e4 = held_in V e \<union> B" and "B \<inter> held_in V e = {}"
    and "bytes_at p (unat (mapSize q)) \<subseteq> B"
proof -
  let ?H = "held_in V e"
  note pages = pages_serviceD [OF memory_servicesD(1) [OF mem] al(1)]
  have h1: "held_in V e1 = ?H" using map_serviceD(1) [OF maps g0] by (simp add: calm_def)
  have k1: "keeps V ?H e e1" by (rule keeps_calm [OF map_serviceD(1) [OF maps g0]]) (simp add: bytes_at_def)
  have k2: "keeps V ?H e e2" by (rule keeps_trans [OF k1 keeps_pages [OF mem al(1)]]) (simp add: h1)
  have "unat (descriptorSize q0 * 8) = unat (descriptorSize q0) * 8" "unat (mapSize q0) + unat (descriptorSize q0) * 8 \<le> 2 ^ 52"
    using map_serviceD(2) [OF maps g0] by (simp_all add: unat_mult_no_wrap)
  then have "unat (mapSize q) \<le> 2 ^ 52" by (simp add: q MEMORY_MAP_SLACK_ENTRIES_def unat_add_no_wrap)
  then have "unat (mapSize q) \<le> unat (RoundUpTo (mapSize q) PAGE_SIZE_4K div PAGE_SIZE_4K) * 4096" by (intro round_pages) simp
  then show W: "bytes_at p (unat (mapSize q)) \<subseteq> B" by (auto simp: bytes_at_def B)
  show free: "B \<inter> ?H = {}" using pages(6) [OF al(2)] h1 by (simp add: B)
  have h2: "held_in V e2 = ?H \<union> B" using pages(7) [OF al(2)] h1 by (simp add: B)
  have "keeps V ?H e2 e3" by (rule keeps_calm [OF map_serviceD(1) [OF maps g]]) (use h2 W free in auto)
  then show k3: "keeps V ?H e e3" by (rule keeps_trans [OF k2])
  show h3: "held_in V e3 = ?H \<union> B" using map_serviceD(1) [OF maps g] h2 by (simp add: calm_def)
  then show "held_in V e4 = ?H \<union> B" using map_serviceD(6) [OF maps ex] by (simp add: calm_def)
  show "keeps V ?H e e4" by (rule keeps_trans [OF k3 keeps_calm [OF map_serviceD(6) [OF maps ex]]]) (use h3 in simp)
qed

lemma exit_attempt_spec:
  assumes mem: "memory_services bs V" and maps: "map_service bs V key M" and run: "exit_attempt bs img e = (r, e')"
  shows "keeps V (held_in V e) e e' \<and> (r = Some (Some mm) \<longrightarrow> map_delivered V M e mm e')"
proof -
  let ?q0 = "\<lparr>mapSize = 0, mapKey = 0, descriptorSize = 0, descriptorVersion = 0\<rparr> :: map_query"
  obtain st0 q0 e1 where g0: "GetMemoryMap bs 0 ?q0 e = (st0, q0, e1)" by (metis prod_cases3)
  define q where "q = q0\<lparr>mapSize := mapSize q0 + descriptorSize q0 * MEMORY_MAP_SLACK_ENTRIES\<rparr>"
  let ?n = "RoundUpTo (mapSize q) PAGE_SIZE_4K div PAGE_SIZE_4K"
  obtain st1 p e2 where al: "AllocatePages bs AllocateMaxAddress EfiLoaderData ?n (IDENTITY_MAP_LIMIT - 1) e1 = (st1, p, e2)" by (metis prod_cases3)
  obtain st2 q' e3 where g: "GetMemoryMap bs p q e2 = (st2, q', e3)" by (metis prod_cases3)
  obtain st3 e4 where ex: "ExitBootServices bs img (mapKey q') e3 = (st3, e4)" by fastforce
  note r = run [unfolded exit_attempt_def g0 prod.case Let_def q_def [symmetric] al g ex]
  note pages = pages_serviceD [OF memory_servicesD(1) [OF mem] al]
  let ?H = "held_in V e" and ?B = "bytes_at p (unat ?n * 4096)"
  note buffer = attempt_buffer [OF mem maps g0 q_def al _ g ex refl]
  have k1: "keeps V ?H e e1" by (rule keeps_calm [OF map_serviceD(1) [OF maps g0]]) (simp add: bytes_at_def)
  have k2: "keeps V ?H e e2"
    by (rule keeps_trans [OF k1 keeps_pages [OF mem al]]) (use map_serviceD(1) [OF maps g0] in \<open>simp add: calm_def\<close>)
  consider (early) "keeps V ?H e e'" "r = Some None"
    | (late) "\<not> EFI_ERROR st1" "r = None" "e' = snd (FreePages bs p ?n (if EFI_ERROR st2 then e3 else e4))"
    | (left) "\<not> EFI_ERROR st1" "\<not> EFI_ERROR st2" "e' = e4"
        "r = Some (Some \<lparr>Map = p, MapSizeBytes = mapSize q', DescriptorSize = descriptorSize q',
          DescriptorVersion = descriptorVersion q', EntryCount = mapSize q' div descriptorSize q'\<rparr>)"
    using r k1 k2 by (auto split: if_splits)
  then show ?thesis
  proof cases
    case early
    then show ?thesis by simp
  next
    case late
    note b = buffer [OF late(1)]
    let ?e = "if EFI_ERROR st2 then e3 else e4"
    have k: "keeps V ?H e ?e" using b(1,2) by simp
    then have "keeps V ?H ?e e'" unfolding late(3) by (intro keeps_free_pages [OF mem _ b(5)]) (simp add: keeps_def)
    then show ?thesis using keeps_trans [OF k] late(2) by simp
  next
    case left
    note b = buffer [OF left(1)] and size = map_serviceD(3,4,5,8) [OF maps g left(2)]
    let ?W = "bytes_at p (unat (mapSize q'))"
    have "?W \<subseteq> bytes_at p (unat (mapSize q))" using size(1) by (auto simp: bytes_at_def word_le_nat_alt)
    then have W: "?W \<subseteq> ?B" using b(6) by blast
    have "unat (mapSize q') \<le> unat ?n * 4096" using W by (cases "unat (mapSize q') = 0") (auto simp: bytes_at_def)
    then have lim: "unat p + unat (mapSize q') \<le> 2 ^ 32" using pages(5) [OF left(1)] by (simp add: IDENTITY_MAP_LIMIT_def)
    have "keeps V ?W e3 e4" by (rule keeps_calm [OF map_serviceD(6) [OF maps ex]]) (use W b(3) in auto)
    then have "map_entries (ram e4) p (mapSize q') (descriptorSize q') = map_entries (ram e3) p (mapSize q') (descriptorSize q')"
      "offers (ram e4) p (mapSize q') (descriptorSize q') = offers (ram e3) p (mapSize q') (descriptorSize q')"
      using offers_kept [OF _ size(2)] lim by (simp_all add: keeps_def)
    then have "offers (ram e4) p (mapSize q') (descriptorSize q') \<inter> held_in V e4 = {}"
      "map_entries (ram e4) p (mapSize q') (descriptorSize q') \<in> M" using size(3,4) b(3,4) by simp_all
    moreover have "?W \<subseteq> held_in V e4 - ?H" using W b(4,5) by auto
    ultimately show ?thesis using left b(2) size(2) lim by (auto simp: map_delivered_def)
  qed
qed

lemma delivered_later: "held_in V e \<subseteq> held_in V e1 \<Longrightarrow> map_delivered V M e1 mm e' \<Longrightarrow> map_delivered V M e mm e'"
  by (auto simp: map_delivered_def)

lemma exit_attempts_spec:
  assumes "memory_services bs V" and "map_service bs V key M" and "exit_attempts n bs img e = (r, e')"
  shows "keeps V (held_in V e) e e' \<and> (r = Some mm \<longrightarrow> map_delivered V M e mm e')"
  using assms(3)
proof (induction n arbitrary: e)
  case (Suc n)
  obtain r1 e1 where a: "exit_attempt bs img e = (r1, e1)" by fastforce
  note s = exit_attempt_spec [OF assms(1,2) a]
  show ?case
  proof (cases r1)
    case None
    then have "exit_attempts n bs img e1 = (r, e')" using Suc.prems a by simp
    note ih = Suc.IH [OF this]
    have sub: "held_in V e \<subseteq> held_in V e1" using s by (auto simp: keeps_def)
    then have "keeps V (held_in V e) e1 e'" using ih by (auto simp: keeps_def intro: kept_subset)
    then show ?thesis using keeps_trans s ih delivered_later [OF sub] by blast
  next
    case (Some x)
    then show ?thesis using Suc.prems a s by auto
  qed
qed (simp add: keeps_def)

end
