(* ===== verification/Kernel_Loader.thy ===== *)
theory Kernel_Loader
  imports Uefi Frame_Allocator
begin

unbundle bit_operations_syntax

text \<open>
  Loading the kernel (\<open>src/boot/kernel_loader.c\<close> and \<open>elf.h\<close>): the file is read into the pool, its
  headers are checked, and its segments are copied to a place of their own, all through pointers into
  memory.
\<close>

section \<open>ELF structures\<close>

definition read_unaligned_u16 :: "byte_mem \<Rightarrow> u64 \<Rightarrow> u16" where
  "read_unaligned_u16 m p = of_nat (le_bytes (read_bytes m p 2))"

definition sizeof_Elf64_Ehdr :: u64 where "sizeof_Elf64_Ehdr = 64"

definition e_ident :: "byte_mem \<Rightarrow> u64 \<Rightarrow> u64 \<Rightarrow> u8" where "e_ident m hdr i = m (hdr + i)"
definition e_type :: "byte_mem \<Rightarrow> u64 \<Rightarrow> u16" where "e_type m hdr = read_unaligned_u16 m (hdr + 16)"
definition e_machine :: "byte_mem \<Rightarrow> u64 \<Rightarrow> u16" where "e_machine m hdr = read_unaligned_u16 m (hdr + 18)"
definition e_entry :: "byte_mem \<Rightarrow> u64 \<Rightarrow> u64" where "e_entry m hdr = read_unaligned_u64 m (hdr + 24)"
definition e_phoff :: "byte_mem \<Rightarrow> u64 \<Rightarrow> u64" where "e_phoff m hdr = read_unaligned_u64 m (hdr + 32)"
definition e_phentsize :: "byte_mem \<Rightarrow> u64 \<Rightarrow> u16" where "e_phentsize m hdr = read_unaligned_u16 m (hdr + 54)"
definition e_phnum :: "byte_mem \<Rightarrow> u64 \<Rightarrow> u16" where "e_phnum m hdr = read_unaligned_u16 m (hdr + 56)"

definition p_type :: "byte_mem \<Rightarrow> u64 \<Rightarrow> u32" where "p_type m phdr = read_unaligned_u32 m phdr"
definition p_offset :: "byte_mem \<Rightarrow> u64 \<Rightarrow> u64" where "p_offset m phdr = read_unaligned_u64 m (phdr + 8)"
definition p_vaddr :: "byte_mem \<Rightarrow> u64 \<Rightarrow> u64" where "p_vaddr m phdr = read_unaligned_u64 m (phdr + 16)"
definition p_filesz :: "byte_mem \<Rightarrow> u64 \<Rightarrow> u64" where "p_filesz m phdr = read_unaligned_u64 m (phdr + 32)"
definition p_memsz :: "byte_mem \<Rightarrow> u64 \<Rightarrow> u64" where "p_memsz m phdr = read_unaligned_u64 m (phdr + 40)"

definition EI_MAG0 :: u64 where "EI_MAG0 = 0"
definition EI_MAG1 :: u64 where "EI_MAG1 = 1"
definition EI_MAG2 :: u64 where "EI_MAG2 = 2"
definition EI_MAG3 :: u64 where "EI_MAG3 = 3"
definition EI_CLASS :: u64 where "EI_CLASS = 4"
definition EI_DATA :: u64 where "EI_DATA = 5"

definition ELFMAG0 :: u8 where "ELFMAG0 = 0x7F"
definition ELFMAG1 :: u8 where "ELFMAG1 = 0x45"
definition ELFMAG2 :: u8 where "ELFMAG2 = 0x4C"
definition ELFMAG3 :: u8 where "ELFMAG3 = 0x46"
definition ELFCLASS64 :: u8 where "ELFCLASS64 = 2"
definition ELFDATA2LSB :: u8 where "ELFDATA2LSB = 1"
definition ET_EXEC :: u16 where "ET_EXEC = 2"
definition EM_X86_64 :: u16 where "EM_X86_64 = 62"
definition PT_LOAD :: u32 where "PT_LOAD = 1"

definition ValidateElfHeader :: "byte_mem \<Rightarrow> u64 \<Rightarrow> bool" where
  "ValidateElfHeader m hdr =
     (if e_ident m hdr EI_MAG0 \<noteq> ELFMAG0 \<or> e_ident m hdr EI_MAG1 \<noteq> ELFMAG1
         \<or> e_ident m hdr EI_MAG2 \<noteq> ELFMAG2 \<or> e_ident m hdr EI_MAG3 \<noteq> ELFMAG3 then False
      else if e_ident m hdr EI_CLASS \<noteq> ELFCLASS64 then False
      else if e_ident m hdr EI_DATA \<noteq> ELFDATA2LSB then False
      else if e_machine m hdr \<noteq> EM_X86_64 then False
      else if e_type m hdr \<noteq> ET_EXEC then False
      else if e_phnum m hdr = 0 \<or> e_phentsize m hdr = 0 then False
      else True)"

section \<open>The loops\<close>

text \<open>A counter that is below some bound has not come to the end of its type.\<close>

lemma counter_up: "x < y \<Longrightarrow> 2 ^ LENGTH('a) - unat (x + 1 :: 'a::len word) < 2 ^ LENGTH('a) - unat x"
  using unat_suc_less [of x y] unsigned_less [of x] by (metis diff_less_mono2 lessI)

definition phdr_at :: "byte_mem \<Rightarrow> u64 \<Rightarrow> u16 \<Rightarrow> u64" where
  "phdr_at m fileBuffer i = fileBuffer + e_phoff m fileBuffer + ucast i * ucast (e_phentsize m fileBuffer)"

text \<open>The span of the segments: lowest address, highest end, and whether there is any; none if a segment is too low.\<close>

type_synonym vaddr_span = "u64 \<times> u64 \<times> bool"

function scan_segments :: "byte_mem \<Rightarrow> u64 \<Rightarrow> u16 \<Rightarrow> vaddr_span \<Rightarrow> vaddr_span option" where
  "scan_segments m fileBuffer i (minVAddr, maxVAddrEnd, foundAnyLoadSegment) =
     (if i < e_phnum m fileBuffer then
        let phdr = phdr_at m fileBuffer i in
        if p_type m phdr \<noteq> PT_LOAD then scan_segments m fileBuffer (i + 1) (minVAddr, maxVAddrEnd, foundAnyLoadSegment)
        else if p_vaddr m phdr < KERNEL_VIRTUAL_BASE then None
        else
          let minVAddr = (if p_vaddr m phdr < minVAddr then p_vaddr m phdr else minVAddr);
              segmentEnd = p_vaddr m phdr + p_memsz m phdr;
              maxVAddrEnd = (if segmentEnd > maxVAddrEnd then segmentEnd else maxVAddrEnd)
          in scan_segments m fileBuffer (i + 1) (minVAddr, maxVAddrEnd, True)
      else Some (minVAddr, maxVAddrEnd, foundAnyLoadSegment))"
  by pat_completeness auto

termination scan_segments
  by (relation "measure (\<lambda>(m, f, i, s). 2 ^ LENGTH(16) - unat i)") (simp_all only: wf_measure in_measure prod.case counter_up)

function zero_bytes :: "byte_mem \<Rightarrow> u64 \<Rightarrow> u64 \<Rightarrow> u64 \<Rightarrow> byte_mem" where
  "zero_bytes m destBase alignedSize i =
     (if i < alignedSize then zero_bytes (m(destBase + i := 0)) destBase alignedSize (i + 1) else m)"
  by pat_completeness auto
termination
  by (relation "measure (\<lambda>(m, d, n, i). 2 ^ LENGTH(64) - unat i)") (simp_all only: wf_measure in_measure prod.case counter_up)

function copy_bytes :: "byte_mem \<Rightarrow> u64 \<Rightarrow> u64 \<Rightarrow> u64 \<Rightarrow> u64 \<Rightarrow> byte_mem" where
  "copy_bytes m phdr dest src b =
     (if b < p_filesz m phdr then copy_bytes (m(dest + b := m (src + b))) phdr dest src (b + 1) else m)"
  by pat_completeness auto
termination
  by (relation "measure (\<lambda>(m, h, d, s, b). 2 ^ LENGTH(64) - unat b)") (simp_all only: wf_measure in_measure prod.case counter_up)

function copy_segments :: "byte_mem \<Rightarrow> u64 \<Rightarrow> u64 \<Rightarrow> u64 \<Rightarrow> u16 \<Rightarrow> byte_mem" where
  "copy_segments m fileBuffer destBase minVAddr i =
     (if i < e_phnum m fileBuffer then
        let phdr = phdr_at m fileBuffer i in
        if p_type m phdr \<noteq> PT_LOAD then copy_segments m fileBuffer destBase minVAddr (i + 1)
        else
          let destOffset = p_vaddr m phdr - minVAddr;
              dest = destBase + destOffset;
              src = fileBuffer + p_offset m phdr
          in copy_segments (copy_bytes m phdr dest src 0) fileBuffer destBase minVAddr (i + 1)
      else m)"
  by pat_completeness auto
termination
  by (relation "measure (\<lambda>(m, f, d, v, i). 2 ^ LENGTH(16) - unat i)") (simp_all only: wf_measure in_measure prod.case counter_up)

declare scan_segments.simps [simp del] zero_bytes.simps [simp del] copy_bytes.simps [simp del] copy_segments.simps [simp del]

section \<open>The loader\<close>

record loaded_kernel =
  KernelPhysicalBase :: u64
  KernelVirtualBase :: u64
  KernelSizeBytes :: u64
  EntryPointVirtual :: u64

text \<open>Step 1: the whole file in a block of the pool; first its size, then its bytes.\<close>

definition read_contents :: "'f boot_services \<Rightarrow> 'f file_protocol \<Rightarrow> u64 \<Rightarrow> u64 \<Rightarrow> 'f env \<Rightarrow> (u64 \<times> u64) option \<times> 'f env" where
  "read_contents BS fs file fileSize e =
     (case AllocatePool BS EfiLoaderData fileSize 0 e of (status, fileBuffer, e) \<Rightarrow>
      if EFI_ERROR status then (None, snd (Close fs file e))
      else (case Read fs file fileSize fileBuffer e of (status, fileSize, e) \<Rightarrow>
        let e = snd (Close fs file e) in
        if EFI_ERROR status then (None, snd (FreePool BS fileBuffer e))
        else (Some (fileBuffer, fileSize), e)))"

definition read_file :: "'f boot_services \<Rightarrow> 'f file_protocol \<Rightarrow> u64 \<Rightarrow> CHAR16 list \<Rightarrow> 'f env \<Rightarrow> (u64 \<times> u64) option \<times> 'f env" where
  "read_file BS fs Root Path e =
     (case Open fs Root 0 Path EFI_FILE_MODE_READ 0 e of (status, file, e) \<Rightarrow>
      if EFI_ERROR status then (None, e)
      else (case GetInfo fs file EFI_FILE_INFO_ID 0 0 e of (_, infoSize, e) \<Rightarrow>
      (case AllocatePool BS EfiLoaderData infoSize 0 e of (status, fileInfo, e) \<Rightarrow>
      if EFI_ERROR status then (None, snd (Close fs file e))
      else (case GetInfo fs file EFI_FILE_INFO_ID infoSize fileInfo e of (status, infoSize, e) \<Rightarrow>
      if EFI_ERROR status then (None, snd (Close fs file (snd (FreePool BS fileInfo e))))
      else
        let fileSize = read_unaligned_u64 (ram e) (fileInfo + 8)
        in read_contents BS fs file fileSize (snd (FreePool BS fileInfo e))))))"

text \<open>Steps 2 and 3: the checks, and the span of the image as \<open>(minVAddr, alignedSize)\<close>.\<close>

definition plan_image :: "byte_mem \<Rightarrow> u64 \<Rightarrow> u64 \<Rightarrow> (u64 \<times> u64) option" where
  "plan_image m fileBuffer fileSize =
     (if fileSize < sizeof_Elf64_Ehdr then None
      else if \<not> ValidateElfHeader m fileBuffer then None
      else (case scan_segments m fileBuffer 0 (0xFFFFFFFFFFFFFFFF, 0, False) of
          None \<Rightarrow> None
        | Some (minVAddr, maxVAddrEnd, foundAnyLoadSegment) \<Rightarrow>
            if \<not> foundAnyLoadSegment then None
            else
              let kernelSpan = maxVAddrEnd - minVAddr;
                  alignedSize = RoundUpTo kernelSpan PAGE_SIZE_2M
              in if alignedSize = 0 \<or> alignedSize > KERNEL_MAX_SIZE_BYTES then None
              else if e_entry m fileBuffer < minVAddr \<or> e_entry m fileBuffer \<ge> maxVAddrEnd then None
              else Some (minVAddr, alignedSize)))"

definition LoadKernelElf :: "'f boot_services \<Rightarrow> 'f file_protocol \<Rightarrow> u64 \<Rightarrow> CHAR16 list \<Rightarrow> 'f env \<Rightarrow> loaded_kernel option \<times> 'f env" where
  "LoadKernelElf BS fs Root Path e =
     (case read_file BS fs Root Path e of
        (None, e) \<Rightarrow> (None, e)
      | (Some (fileBuffer, fileSize), e) \<Rightarrow>
          (case plan_image (ram e) fileBuffer fileSize of
             None \<Rightarrow> (None, snd (FreePool BS fileBuffer e))
           | Some (minVAddr, alignedSize) \<Rightarrow>
               let pagesNeeded4K = (alignedSize + PAGE_SIZE_2M) div PAGE_SIZE_4K in
               (case AllocatePages BS AllocateMaxAddress EfiLoaderData pagesNeeded4K (IDENTITY_MAP_LIMIT - 1) e of (status, physAllocation, e) \<Rightarrow>
                  if EFI_ERROR status then (None, snd (FreePool BS fileBuffer e))
                  else
                    let physBase = RoundUpTo physAllocation PAGE_SIZE_2M;
                        m = zero_bytes (ram e) physBase alignedSize 0;
                        m = copy_segments m fileBuffer physBase minVAddr 0;
                        entryPoint = e_entry m fileBuffer;
                        e = snd (FreePool BS fileBuffer (e\<lparr>ram := m\<rparr>))
                    in (Some \<lparr>KernelPhysicalBase = physBase, KernelVirtualBase = minVAddr, KernelSizeBytes = alignedSize,
                         EntryPointVirtual = entryPoint\<rparr>, e))))"

section \<open>Memory after the loops\<close>

lemma in_bytes_at: "unat x \<in> bytes_at d n \<longleftrightarrow> unat d \<le> unat x \<and> unat x < unat d + n"
  by (simp add: bytes_at_def)

lemma unat_offset: "unat d + n \<le> 2 ^ 64 \<Longrightarrow> unat b < n \<Longrightarrow> unat (d + b) = unat (d :: u64) + unat b"
  by (simp add: unat_add_no_wrap)

lemma zero_bytes_spec:
  assumes "unat d + unat n \<le> 2 ^ 64"
  shows "zero_bytes m d n i = (\<lambda>x. if unat d + unat i \<le> unat x \<and> unat x < unat d + unat n then 0 else m x)"
  using assms
proof (induction m d n i rule: zero_bytes.induct)
  case (1 m d n i)
  show ?case
  proof (cases "i < n")
    case True
    then have lt: "unat i < unat n" by (simp add: word_less_nat_alt)
    have d: "unat (d + i) = unat d + unat i" by (rule unat_offset [OF 1(2) lt])
    have "zero_bytes m d n i = zero_bytes (m(d + i := 0)) d n (i + 1)" using True by (simp add: zero_bytes.simps)
    then show ?thesis
      using 1(1) [OF True 1(2)] lt d by (auto simp: unat_suc_less [OF True] fun_eq_iff word_unat_eq_iff)
  qed (auto simp: zero_bytes.simps [of m d n i] word_less_nat_alt fun_eq_iff)
qed

lemma copy_bytes_spec:
  assumes "p_filesz m phdr = n" and "unat dest + unat n \<le> 2 ^ 64" and "unat src + unat n \<le> 2 ^ 64" and "unat (phdr + 32) + 8 \<le> 2 ^ 64"
    and "bytes_at dest (unat n) \<inter> bytes_at src (unat n) = {}" and "bytes_at dest (unat n) \<inter> bytes_at (phdr + 32) 8 = {}"
  shows "copy_bytes m phdr dest src b =
    (\<lambda>x. if unat dest + unat b \<le> unat x \<and> unat x < unat dest + unat n then m (src + (x - dest)) else m x)"
  using assms
proof (induction m phdr dest src b rule: copy_bytes.induct)
  case (1 m phdr dest src b)
  show ?case
  proof (cases "b < n")
    case True
    then have lt: "unat b < unat n" by (simp add: word_less_nat_alt)
    have d: "unat (dest + b) = unat dest + unat b" by (rule unat_offset [OF 1(3) lt])
    let ?m = "m(dest + b := m (src + b))"
    have in_dest: "unat (dest + b) \<in> bytes_at dest (unat n)" using lt d by (simp add: bytes_at_def)
    have "read_unaligned_u64 ?m (phdr + 32) = read_unaligned_u64 m (phdr + 32)"
      by (rule read64_cong) (use 1(5,7) in_dest in auto)
    then have sz: "p_filesz ?m phdr = n" using 1(2) by (simp add: p_filesz_def)
    have other: "?m (src + (x - dest)) = m (src + (x - dest))" if "unat dest \<le> unat x" "unat x < unat dest + unat n" for x
    proof -
      have "unat (x - dest) < unat n" using that by (simp add: unat_sub word_le_nat_alt)
      from unat_offset [OF 1(4) this] have "unat (src + (x - dest)) \<in> bytes_at src (unat n)"
        using \<open>unat (x - dest) < unat n\<close> by (simp add: bytes_at_def)
      then have "src + (x - dest) \<noteq> dest + b" using 1(6) in_dest by (metis IntI empty_iff)
      then show ?thesis by simp
    qed
    have "copy_bytes m phdr dest src b = copy_bytes ?m phdr dest src (b + 1)" using True 1(2) by (simp add: copy_bytes.simps)
    then have eq: "copy_bytes m phdr dest src b
        = (\<lambda>x. if unat dest + Suc (unat b) \<le> unat x \<and> unat x < unat dest + unat n then ?m (src + (x - dest)) else ?m x)"
      using 1(1) [OF _ sz 1(3-7)] True 1(2) by (simp add: unat_suc_less [OF True])
    show ?thesis
    proof
      fix x
      show "copy_bytes m phdr dest src b x = (if unat dest + unat b \<le> unat x \<and> unat x < unat dest + unat n then m (src + (x - dest)) else m x)"
      proof (cases "x = dest + b")
        case True
        then show ?thesis unfolding eq using lt d by simp
      next
        case False
        then have "unat x \<noteq> unat dest + unat b" using d by (metis word_unat_eq_iff)
        then show ?thesis unfolding eq using False other [of x] by auto
      qed
    qed
  qed (use 1(2) in \<open>auto simp: copy_bytes.simps [of m phdr] word_less_nat_alt fun_eq_iff\<close>)
qed

section \<open>A file and its image\<close>

text \<open>What a file says, on the bytes alone: its segments in order, and the byte of the image at a virtual address.\<close>

definition file_mem :: "u8 list \<Rightarrow> byte_mem" where
  "file_mem file x = (if unat x < length file then file ! unat x else 0)"

record segment =
  seg_vaddr :: nat
  seg_offset :: nat
  seg_filesz :: nat
  seg_memsz :: nat

definition segment_at :: "byte_mem \<Rightarrow> u64 \<Rightarrow> segment" where
  "segment_at h ph = \<lparr>seg_vaddr = unat (p_vaddr h ph), seg_offset = unat (p_offset h ph),
     seg_filesz = unat (p_filesz h ph), seg_memsz = unat (p_memsz h ph)\<rparr>"

definition segments_from :: "byte_mem \<Rightarrow> nat \<Rightarrow> segment list" where
  "segments_from h i = List.map (\<lambda>k. segment_at h (phdr_at h 0 (of_nat k)))
     (filter (\<lambda>k. p_type h (phdr_at h 0 (of_nat k)) = PT_LOAD) [i..<unat (e_phnum h 0)])"

definition segments :: "u8 list \<Rightarrow> segment list" where
  "segments file = segments_from (file_mem file) 0"

definition put_segment :: "u8 list \<Rightarrow> nat \<Rightarrow> segment \<Rightarrow> u8 \<Rightarrow> u8" where
  "put_segment file v s b = (if seg_vaddr s \<le> v \<and> v < seg_vaddr s + seg_filesz s then file ! (seg_offset s + (v - seg_vaddr s)) else b)"

definition image_byte :: "u8 list \<Rightarrow> nat \<Rightarrow> u8" where
  "image_byte file v = fold (put_segment file v) (segments file) 0"

text \<open>A file whose headers and segments lie within it and whose segments have room in memory for their bytes.\<close>

definition elf_ok :: "u8 list \<Rightarrow> bool" where
  "elf_ok file \<longleftrightarrow> 64 \<le> length file \<and> length file < 2 ^ 52 \<and> 56 \<le> e_phentsize (file_mem file) 0
     \<and> unat (e_phoff (file_mem file) 0) + unat (e_phnum (file_mem file) 0) * unat (e_phentsize (file_mem file) 0) \<le> length file
     \<and> list_all (\<lambda>s. seg_offset s + seg_filesz s \<le> length file \<and> seg_filesz s \<le> seg_memsz s
          \<and> seg_vaddr s + seg_memsz s < 2 ^ 64) (segments file)"

text \<open>The file at an address of memory.\<close>

definition file_at :: "byte_mem \<Rightarrow> u64 \<Rightarrow> u8 list \<Rightarrow> bool" where
  "file_at m f file \<longleftrightarrow> unat f + length file < 2 ^ 64 \<and> (\<forall>i. unat i < length file \<longrightarrow> m (f + i) = file ! unat i)"

lemma file_at_bytes:
  assumes "file_at m f file" and "unat off + k \<le> length file"
  shows "read_bytes m (f + off) k = read_bytes (file_mem file) off k"
proof -
  have "m (f + off + of_nat i) = file_mem file (off + of_nat i)" if "i < k" for i
  proof -
    have len: "length file \<le> 2 ^ 64" using assms(1) by (simp add: file_at_def)
    have "unat (of_nat i :: u64) = i" using that assms(2) len by (simp add: unat_of_nat)
    then have u: "unat (off + of_nat i) = unat off + i" using that assms(2) len by (simp add: unat_add_no_wrap)
    then have "m (f + (off + of_nat i)) = file ! (unat off + i)" using assms that by (simp add: file_at_def)
    then show ?thesis using u that assms(2) by (simp add: file_mem_def add.assoc)
  qed
  then show ?thesis by (simp add: read_bytes_def)
qed

lemma file_at_reads:
  assumes "file_at m f file"
  shows "unat off + 2 \<le> length file \<Longrightarrow> read_unaligned_u16 m (f + off) = read_unaligned_u16 (file_mem file) off"
    and "unat off + 4 \<le> length file \<Longrightarrow> read_unaligned_u32 m (f + off) = read_unaligned_u32 (file_mem file) off"
    and "unat off + 8 \<le> length file \<Longrightarrow> read_unaligned_u64 m (f + off) = read_unaligned_u64 (file_mem file) off"
  using file_at_bytes [OF assms] by (simp_all add: read_unaligned_u16_def read_unaligned_u32_def read_unaligned_u64_def)

lemma file_at_header:
  assumes "file_at m f file" and "64 \<le> length file"
  shows "e_entry m f = e_entry (file_mem file) 0" and "e_phoff m f = e_phoff (file_mem file) 0"
    and "e_phentsize m f = e_phentsize (file_mem file) 0" and "e_phnum m f = e_phnum (file_mem file) 0"
    and "ValidateElfHeader m f = ValidateElfHeader (file_mem file) 0"
proof -
  have id: "e_ident m f k = e_ident (file_mem file) 0 k" if "unat k < 64" for k
    using that assms by (simp add: file_at_def e_ident_def file_mem_def)
  show "e_entry m f = e_entry (file_mem file) 0" "e_phoff m f = e_phoff (file_mem file) 0"
    "e_phentsize m f = e_phentsize (file_mem file) 0" "e_phnum m f = e_phnum (file_mem file) 0"
    using file_at_reads [OF assms(1)] assms(2)
    by (simp_all add: e_entry_def e_phoff_def e_phentsize_def e_phnum_def)
  then show "ValidateElfHeader m f = ValidateElfHeader (file_mem file) 0"
    using id file_at_reads(1) [OF assms(1)] assms(2)
    by (simp add: ValidateElfHeader_def e_machine_def e_type_def EI_MAG0_def EI_MAG1_def EI_MAG2_def EI_MAG3_def EI_CLASS_def EI_DATA_def)
qed

lemma unat_ucast16 [simp]: "unat (ucast (i :: u16) :: u64) = unat i"
proof -
  have "unat i < 65536" using unsigned_less [of i, where ?'a = nat] by simp
  then show ?thesis by (simp add: unsigned_ucast_eq take_bit_nat_eq_self)
qed

lemma elf_okD:
  assumes "elf_ok file"
  shows "64 \<le> length file" and "length file < 2 ^ 52"
    and "i < e_phnum (file_mem file) 0 \<Longrightarrow> unat (phdr_at (file_mem file) 0 i) + 56 \<le> length file"
    and "s \<in> set (segments file) \<Longrightarrow> seg_offset s + seg_filesz s \<le> length file"
    and "s \<in> set (segments file) \<Longrightarrow> seg_filesz s \<le> seg_memsz s"
    and "s \<in> set (segments file) \<Longrightarrow> seg_vaddr s + seg_memsz s < 2 ^ 64"
proof -
  show len: "64 \<le> length file" "length file < 2 ^ 52" using assms by (simp_all add: elf_ok_def)
  show "seg_offset s + seg_filesz s \<le> length file" "seg_filesz s \<le> seg_memsz s" "seg_vaddr s + seg_memsz s < 2 ^ 64"
    if "s \<in> set (segments file)"
    using assms that by (simp_all add: elf_ok_def list_all_iff)
  assume i: "i < e_phnum (file_mem file) 0"
  let ?o = "unat (e_phoff (file_mem file) 0)" and ?z = "unat (e_phentsize (file_mem file) 0)"
  have ok: "56 \<le> ?z" "?o + unat (e_phnum (file_mem file) 0) * ?z \<le> length file"
    using assms by (simp_all add: elf_ok_def word_le_nat_alt)
  have "Suc (unat i) * ?z \<le> unat (e_phnum (file_mem file) 0) * ?z"
    using i by (intro mult_le_mono1) (simp add: word_less_nat_alt)
  then have le: "?o + unat i * ?z + 56 \<le> length file" using ok by simp
  have "unat (ucast i * ucast (e_phentsize (file_mem file) 0) :: u64) = unat i * ?z"
    using le len by (subst unat_mult_no_wrap) (simp_all add: unat_ucast16)
  then show "unat (phdr_at (file_mem file) 0 i) + 56 \<le> length file"
    using le len by (simp add: phdr_at_def unat_add_no_wrap)
qed

lemma file_at_segment:
  assumes f: "file_at m f file" and ok: "elf_ok file" and i: "i < e_phnum (file_mem file) 0"
  defines "ph \<equiv> phdr_at (file_mem file) 0 i"
  shows "phdr_at m f i = f + ph" and "p_type m (f + ph) = p_type (file_mem file) ph"
    and "p_vaddr m (f + ph) = p_vaddr (file_mem file) ph" and "p_memsz m (f + ph) = p_memsz (file_mem file) ph"
    and "p_filesz m (f + ph) = p_filesz (file_mem file) ph" and "p_offset m (f + ph) = p_offset (file_mem file) ph"
proof -
  note h = file_at_header [OF f elf_okD(1) [OF ok]]
  show "phdr_at m f i = f + ph" by (simp add: ph_def phdr_at_def h add.assoc)
  have le: "unat ph + 56 \<le> length file" unfolding ph_def by (rule elf_okD(3) [OF ok i])
  have u: "unat (ph + k) = unat ph + unat k" if "unat k < 56" for k
    using that le elf_okD(2) [OF ok] by (simp add: unat_add_no_wrap)
  show "p_type m (f + ph) = p_type (file_mem file) ph"
    using file_at_reads(2) [OF f, of ph] le by (simp add: p_type_def)
  show "p_vaddr m (f + ph) = p_vaddr (file_mem file) ph" "p_memsz m (f + ph) = p_memsz (file_mem file) ph"
    "p_filesz m (f + ph) = p_filesz (file_mem file) ph" "p_offset m (f + ph) = p_offset (file_mem file) ph"
    using file_at_reads(3) [OF f, of "ph + 16"] file_at_reads(3) [OF f, of "ph + 40"] file_at_reads(3) [OF f, of "ph + 32"]
      file_at_reads(3) [OF f, of "ph + 8"] le u [of 16] u [of 40] u [of 32] u [of 8]
    by (simp_all add: p_vaddr_def p_memsz_def p_filesz_def p_offset_def add.assoc)
qed

lemma segments_from_step:
  assumes "i < e_phnum h 0"
  shows "segments_from h (unat i) = (if p_type h (phdr_at h 0 i) = PT_LOAD then [segment_at h (phdr_at h 0 i)] else []) @ segments_from h (unat (i + 1))"
  using assms unat_suc_less [OF assms]
  by (simp add: segments_from_def word_less_nat_alt upt_conv_Cons)

lemma segments_from_end: "\<not> i < e_phnum h 0 \<Longrightarrow> segments_from h (unat i) = []"
  by (simp add: segments_from_def word_less_nat_alt)

section \<open>The span\<close>

definition span_over :: "segment list \<Rightarrow> nat \<times> nat \<times> bool \<Rightarrow> nat \<times> nat \<times> bool" where
  "span_over ss s = fold (\<lambda>s (lo, hi, found). (min lo (seg_vaddr s), max hi (seg_vaddr s + seg_memsz s), True)) ss s"

definition span_nat :: "vaddr_span \<Rightarrow> nat \<times> nat \<times> bool" where
  "span_nat s = (case s of (lo, hi, found) \<Rightarrow> (unat lo, unat hi, found))"

lemma scan_segments_spec:
  assumes f: "file_at m f file" and ok: "elf_ok file" and sub: "set (segments_from (file_mem file) (unat i)) \<subseteq> set (segments file)"
  shows "map_option span_nat (scan_segments m f i s) =
    (if \<exists>s \<in> set (segments_from (file_mem file) (unat i)). seg_vaddr s < unat KERNEL_VIRTUAL_BASE then None
     else Some (span_over (segments_from (file_mem file) (unat i)) (span_nat s)))"
  using f sub
proof (induction m f i s rule: scan_segments.induct)
  case (1 m f i lo hi found)
  note f = 1(3)
  let ?h = "file_mem file"
  note hd = file_at_header [OF f elf_okD(1) [OF ok]]
  show ?case
  proof (cases "i < e_phnum ?h 0")
    case True
    let ?o = "phdr_at ?h 0 i"
    note sg = file_at_segment [OF f ok True]
    note st = segments_from_step [OF True]
    have sub1: "set (segments_from ?h (unat (i + 1))) \<subseteq> set (segments file)" using 1(4) st by (auto split: if_splits)
    have i: "i < e_phnum m f" using True hd by simp
    show ?thesis
    proof (cases "p_type ?h ?o = PT_LOAD")
      case False
      then have ne: "p_type m (phdr_at m f i) \<noteq> PT_LOAD" using sg by simp
      have "scan_segments m f i (lo, hi, found) = scan_segments m f (i + 1) (lo, hi, found)"
        using i ne by (simp add: scan_segments.simps [of m f i] Let_def)
      then show ?thesis using 1(1) [OF i refl ne f sub1] st False by simp
    next
      case load: True
      let ?v = "p_vaddr ?h ?o" and ?z = "p_memsz ?h ?o"
      have in_file: "segment_at ?h ?o \<in> set (segments file)" using 1(4) st load by auto
      have sum: "unat (?v + ?z) = unat ?v + unat ?z"
        using elf_okD(6) [OF ok in_file] by (simp add: segment_at_def unat_add_no_wrap)
      have ld: "p_type m (phdr_at m f i) = PT_LOAD" using load sg by simp
      show ?thesis
      proof (cases "?v < KERNEL_VIRTUAL_BASE")
        case True
        then have "scan_segments m f i (lo, hi, found) = None"
          using i ld sg by (simp add: scan_segments.simps [of m f i] Let_def)
        then show ?thesis using True st load by (simp add: segment_at_def word_less_nat_alt)
      next
        case False
        have nt: "\<not> p_type m (phdr_at m f i) \<noteq> PT_LOAD" and nv: "\<not> p_vaddr m (phdr_at m f i) < KERNEL_VIRTUAL_BASE"
          using ld sg False by simp_all
        let ?s = "(if ?v < lo then ?v else lo, if ?v + ?z > hi then ?v + ?z else hi, True)"
        have step: "scan_segments m f i (lo, hi, found) = scan_segments m f (i + 1) ?s"
          using i ld sg False by (simp add: scan_segments.simps [of m f i] Let_def)
        have "span_nat ?s = (min (unat lo) (unat ?v), max (unat hi) (unat ?v + unat ?z), True)"
          by (auto simp: span_nat_def word_less_nat_alt sum min_def max_def)
        then have over: "span_over (segments_from ?h (unat i)) (span_nat (lo, hi, found)) = span_over (segments_from ?h (unat (i + 1))) (span_nat ?s)"
          using st load by (simp add: span_over_def span_nat_def [of "(lo, hi, found)"] segment_at_def)
        have low: "(\<exists>s \<in> set (segments_from ?h (unat i)). seg_vaddr s < unat KERNEL_VIRTUAL_BASE)
            \<longleftrightarrow> (\<exists>s \<in> set (segments_from ?h (unat (i + 1))). seg_vaddr s < unat KERNEL_VIRTUAL_BASE)"
          using st load False by (simp add: segment_at_def word_less_nat_alt)
        show ?thesis
          unfolding step over low using 1(2) [OF i refl nt nv refl refl refl f sub1] by (simp only: sg)
      qed
    qed
  qed (simp add: scan_segments.simps [of m f i] hd segments_from_end span_over_def)
qed

lemma span_over_bounds:
  assumes "span_over ss (lo, hi, found) = (lo', hi', found')"
  shows "lo' \<le> lo \<and> hi \<le> hi' \<and> (found' \<longleftrightarrow> found \<or> ss \<noteq> []) \<and> lo' \<in> insert lo (seg_vaddr ` set ss)
    \<and> hi' \<in> insert hi ((\<lambda>s. seg_vaddr s + seg_memsz s) ` set ss)
    \<and> (\<forall>s \<in> set ss. lo' \<le> seg_vaddr s \<and> seg_vaddr s + seg_memsz s \<le> hi')"
  using assms
proof (induction ss arbitrary: lo hi found)
  case (Cons s ss)
  have "span_over ss (min lo (seg_vaddr s), max hi (seg_vaddr s + seg_memsz s), True) = (lo', hi', found')"
    using Cons.prems by (simp add: span_over_def)
  from Cons.IH [OF this] show ?case by (auto simp: min_def max_def split: if_splits)
qed (simp add: span_over_def)

section \<open>The copy\<close>

text \<open>One segment, copied into a region apart from the file.\<close>

lemma copy_one:
  assumes f: "file_at m f file" and apart: "bytes_at base n \<inter> bytes_at f (length file) = {}" and base: "unat base + n < 2 ^ 64"
    and ph: "unat (phdr + 32) \<in> bytes_at f (length file)" "unat (phdr + 32) + 8 \<le> unat f + length file" and sz: "p_filesz m phdr = sz"
    and off: "unat off + unat sz \<le> length file" and lo: "lo \<le> v" "unat v + unat sz \<le> unat lo + n"
    and m1: "m1 = copy_bytes m phdr (base + (v - lo)) (f + off) 0"
  shows "file_at m1 f file" and "unat x \<notin> bytes_at base n \<Longrightarrow> m1 x = m x"
    and "unat d < n \<Longrightarrow> m1 (base + d) = (if unat v \<le> unat lo + unat d \<and> unat lo + unat d < unat v + unat sz
      then file ! (unat off + (unat lo + unat d - unat v)) else m (base + d))"
proof -
  let ?dest = "base + (v - lo)" and ?src = "f + off"
  have lov: "unat lo \<le> unat v" "unat (v - lo) = unat v - unat lo" using lo(1) by (simp_all add: word_le_nat_alt unat_sub)
  have fits: "unat f + length file < 2 ^ 64" using f by (simp add: file_at_def)
  have dest: "unat ?dest = unat base + (unat v - unat lo)" using lov lo(2) base by (simp add: unat_add_no_wrap)
  have src: "unat ?src = unat f + unat off" using off fits by (simp add: unat_add_no_wrap)
  have sub: "bytes_at ?dest (unat sz) \<subseteq> bytes_at base n" using dest lov lo(2) by (auto simp: bytes_at_def)
  have ssub: "bytes_at ?src (unat sz) \<subseteq> bytes_at f (length file)" using src off by (auto simp: bytes_at_def)
  have psub: "bytes_at (phdr + 32) 8 \<subseteq> bytes_at f (length file)" using ph by (auto simp: bytes_at_def)
  have eq: "m1 = (\<lambda>x. if unat ?dest + unat (0 :: u64) \<le> unat x \<and> unat x < unat ?dest + unat sz then m (?src + (x - ?dest)) else m x)"
    unfolding m1 by (rule copy_bytes_spec [OF sz]) (use dest src lov lo(2) off base fits ph(2) sub ssub psub apart in auto)
  show out: "m1 x = m x" if "unat x \<notin> bytes_at base n" for x
    using that sub by (auto simp: eq bytes_at_def)
  show "file_at m1 f file"
    unfolding file_at_def
  proof (intro conjI allI impI fits)
    fix i :: u64
    assume i: "unat i < length file"
    have "unat (f + i) \<in> bytes_at f (length file)" using i fits by (simp add: bytes_at_def unat_add_no_wrap)
    then show "m1 (f + i) = file ! unat i" using out [of "f + i"] apart f i by (auto simp: file_at_def)
  qed
  assume d: "unat d < n"
  have u: "unat (base + d) = unat base + unat d" using d base by (simp add: unat_add_no_wrap)
  show "m1 (base + d) = (if unat v \<le> unat lo + unat d \<and> unat lo + unat d < unat v + unat sz
      then file ! (unat off + (unat lo + unat d - unat v)) else m (base + d))"
  proof (cases "unat v \<le> unat lo + unat d \<and> unat lo + unat d < unat v + unat sz")
    case True
    let ?k = "off + (d - (v - lo))"
    have "v - lo \<le> d" using True lov unfolding word_le_nat_alt by linarith
    then have e: "unat (d - (v - lo)) = unat lo + unat d - unat v" using True lov by (simp add: unat_sub)
    then have lt: "unat (d - (v - lo)) < unat sz" using True by linarith
    have "unat off + unat sz \<le> 2 ^ 64" using off fits by simp
    from unat_offset [OF this lt] have k: "unat ?k = unat off + (unat lo + unat d - unat v)" "unat ?k < length file"
      using e lt off by simp_all
    have "unat ?dest + unat (0 :: u64) \<le> unat (base + d) \<and> unat (base + d) < unat ?dest + unat sz"
      using True lov(1) unfolding u dest unat_0 by linarith
    then have "m1 (base + d) = m (?src + (base + d - ?dest))" unfolding eq by (rule if_P)
    also have "?src + (base + d - ?dest) = f + ?k" by simp
    also have "m (f + ?k) = file ! unat ?k" using f k(2) by (simp add: file_at_def)
    finally show ?thesis using True k(1) by simp
  next
    case False
    then show ?thesis using u dest lov by (auto simp: eq)
  qed
qed

lemma copy_segments_spec:
  assumes f: "file_at m f file" and ok: "elf_ok file" and apart: "bytes_at base n \<inter> bytes_at f (length file) = {}" and base: "unat base + n < 2 ^ 64"
    and segs: "set (segments_from (file_mem file) (unat i)) \<subseteq> set (segments file)"
      "\<forall>s \<in> set (segments file). unat lo \<le> seg_vaddr s \<and> seg_vaddr s + seg_filesz s \<le> unat lo + n"
  shows "file_at (copy_segments m f base lo i) f file \<and> (\<forall>x. unat x \<notin> bytes_at base n \<longrightarrow> copy_segments m f base lo i x = m x)
    \<and> (\<forall>d. unat d < n \<longrightarrow> copy_segments m f base lo i (base + d)
         = fold (put_segment file (unat lo + unat d)) (segments_from (file_mem file) (unat i)) (m (base + d)))"
  using f apart base segs
proof (induction m f base lo i rule: copy_segments.induct)
  case (1 m f base lo i)
  note f = 1(3)
  let ?h = "file_mem file"
  note hd = file_at_header [OF f elf_okD(1) [OF ok]]
  show ?case
  proof (cases "i < e_phnum ?h 0")
    case True
    let ?o = "phdr_at ?h 0 i"
    note sg = file_at_segment [OF f ok True]
    note st = segments_from_step [OF True]
    have sub1: "set (segments_from ?h (unat (i + 1))) \<subseteq> set (segments file)" using 1(6) st by (auto split: if_splits)
    have i: "i < e_phnum m f" using True hd by simp
    show ?thesis
    proof (cases "p_type ?h ?o = PT_LOAD")
      case False
      then have ne: "p_type m (phdr_at m f i) \<noteq> PT_LOAD" using sg by simp
      have "copy_segments m f base lo i = copy_segments m f base lo (i + 1)"
        using i ne by (simp add: copy_segments.simps [of m f] Let_def)
      then show ?thesis using 1(1) [OF i refl ne f 1(4,5) sub1 1(7)] st False by simp
    next
      case load: True
      then have nt: "\<not> p_type m (phdr_at m f i) \<noteq> PT_LOAD" using sg by simp
      let ?v = "p_vaddr ?h ?o" and ?sz = "p_filesz ?h ?o" and ?off = "p_offset ?h ?o"
      let ?m1 = "copy_bytes m (f + ?o) (base + (?v - lo)) (f + ?off) 0"
      have step: "copy_segments m f base lo i = copy_segments ?m1 f base lo (i + 1)"
        using i nt sg by (simp add: copy_segments.simps [of m f] Let_def)
      have "segment_at ?h ?o \<in> set (segments file)" using 1(6) st load by auto
      note seg = elf_okD(4) [OF ok this] bspec [OF 1(7) this]
      have fits: "unat f + length file < 2 ^ 64" using f by (simp add: file_at_def)
      have ole: "unat ?o + 56 \<le> length file" by (rule elf_okD(3) [OF ok True])
      then have "unat (f + ?o + 32) = unat f + unat ?o + 32" using fits by (simp add: unat_add_no_wrap)
      then have ph: "unat (f + ?o + 32) \<in> bytes_at f (length file)" "unat (f + ?o + 32) + 8 \<le> unat f + length file"
        using ole by (simp_all add: bytes_at_def)
      note one = copy_one [OF f 1(4,5) ph sg(5) _ _ _ refl, of ?off lo ?v]
      have one: "file_at ?m1 f file" "unat x \<notin> bytes_at base n \<Longrightarrow> ?m1 x = m x"
        "unat d < n \<Longrightarrow> ?m1 (base + d) = put_segment file (unat lo + unat d) (segment_at ?h ?o) (m (base + d))" for x d
        using one seg by (simp_all add: segment_at_def word_le_nat_alt put_segment_def)
      have "file_at (copy_bytes m (phdr_at m f i) (base + (p_vaddr m (phdr_at m f i) - lo)) (f + p_offset m (phdr_at m f i)) 0) f file"
        using one(1) by (simp only: sg)
      note ih = 1(2) [OF i refl nt refl refl refl this 1(4,5) sub1 1(7), unfolded sg]
      show ?thesis using ih one(2,3) st load unfolding step by simp
    qed
  qed (use f in \<open>simp add: copy_segments.simps [of m f] hd segments_from_end\<close>)
qed

end
