(* ===== verification/Kernel_Loader_Props.thy ===== *)
theory Kernel_Loader_Props
  imports Kernel_Loader
begin

unbundle bit_operations_syntax

text \<open>
  What loading the kernel achieves: of a file whose headers are consistent, the image its segments
  describe, byte for byte, in memory that nobody else holds.
\<close>

section \<open>The plan\<close>

lemma file_at_itself: "length file < 2 ^ 64 \<Longrightarrow> file_at (file_mem file) 0 file"
  by (simp add: file_at_def file_mem_def)

lemma span_nat_inj: "span_nat s = span_nat t \<longleftrightarrow> s = t"
  by (auto simp: span_nat_def word_unat_eq_iff split: prod.splits)

text \<open>The plan depends on the bytes of the file alone.\<close>

lemma plan_image_file:
  assumes "file_at m f file" and "elf_ok file"
  shows "plan_image m f sz = plan_image (file_mem file) 0 sz"
proof -
  have self: "file_at (file_mem file) 0 file" by (rule file_at_itself) (use elf_okD(2) [OF assms(2)] in simp)
  have "map_option span_nat (scan_segments m f 0 s) = map_option span_nat (scan_segments (file_mem file) 0 0 s)" for s
    using scan_segments_spec [OF assms, of 0] scan_segments_spec [OF self assms(2), of 0] by (simp add: segments_def)
  then have scan: "scan_segments m f 0 s = scan_segments (file_mem file) 0 0 s" for s
    by (metis (mono_tags) span_nat_inj option.inj_map_strong)
  show ?thesis
    unfolding plan_image_def scan file_at_header(1,5) [OF assms(1) elf_okD(1) [OF assms(2)]] ..
qed

text \<open>What an accepted plan says of the file: all segments high, the span of them, whole large pages, and the entry inside.\<close>

definition planned :: "u8 list \<Rightarrow> u64 \<Rightarrow> u64 \<Rightarrow> bool" where
  "planned file lo n \<longleftrightarrow> unat n mod 2 ^ 21 = 0 \<and> n \<noteq> 0 \<and> unat n \<le> 2 ^ 30
     \<and> unat KERNEL_VIRTUAL_BASE \<le> unat lo \<and> unat lo \<in> seg_vaddr ` set (segments file)
     \<and> (\<forall>s \<in> set (segments file). unat lo \<le> seg_vaddr s \<and> seg_vaddr s + seg_memsz s \<le> unat lo + unat n)
     \<and> unat lo \<le> unat (e_entry (file_mem file) 0) \<and> unat (e_entry (file_mem file) 0) < unat lo + unat n"

lemma round_up_2m:
  assumes "unat v + 2 ^ 21 \<le> 2 ^ 64"
  shows "unat (RoundUpTo v PAGE_SIZE_2M) mod 2 ^ 21 = 0" and "unat v \<le> unat (RoundUpTo v PAGE_SIZE_2M)"
    and "unat (RoundUpTo v PAGE_SIZE_2M) < unat v + 2 ^ 21"
proof -
  have "(2 :: u64) ^ 21 = PAGE_SIZE_2M" by (simp add: PAGE_SIZE_2M_def)
  then have r: "unat (RoundUpTo v PAGE_SIZE_2M) = (unat v + (2 ^ 21 - 1)) div 2 ^ 21 * 2 ^ 21"
    using RoundUpTo_spec [of v 21] assms by simp
  show "unat (RoundUpTo v PAGE_SIZE_2M) mod 2 ^ 21 = 0" unfolding r by (rule mod_mult_self2_is_0)
  have "unat v + (2 ^ 21 - 1) = unat (RoundUpTo v PAGE_SIZE_2M) + (unat v + (2 ^ 21 - 1)) mod 2 ^ 21"
    unfolding r by simp
  moreover have "(unat v + (2 ^ 21 - 1)) mod 2 ^ 21 < 2 ^ 21" by simp
  ultimately show "unat v \<le> unat (RoundUpTo v PAGE_SIZE_2M)" "unat (RoundUpTo v PAGE_SIZE_2M) < unat v + 2 ^ 21" by linarith+
qed

lemma plan_image_sound:
  assumes f: "file_at m f file" and ok: "elf_ok file" and plan: "plan_image m f sz = Some (lo, n)"
  shows "planned file lo n"
proof -
  obtain hi where scan: "scan_segments m f 0 (0xFFFFFFFFFFFFFFFF, 0, False) = Some (lo, hi, True)"
    and n: "n = RoundUpTo (hi - lo) PAGE_SIZE_2M" "n \<noteq> 0" "\<not> n > KERNEL_MAX_SIZE_BYTES"
    and entry: "lo \<le> e_entry m f" "e_entry m f < hi"
    using plan by (auto simp: plan_image_def Let_def not_less split: if_splits option.splits)
  let ?ss = "segments file"
  have high: "\<forall>s \<in> set ?ss. unat KERNEL_VIRTUAL_BASE \<le> seg_vaddr s"
    and span: "span_over ?ss (2 ^ 64 - 1, 0, False) = (unat lo, unat hi, True)"
    using scan_segments_spec [OF f ok, of 0 "(0xFFFFFFFFFFFFFFFF, 0, False)"] scan
    by (auto simp: segments_def span_nat_def not_less split: if_splits)
  note b = span_over_bounds [OF span]
  have segs: "unat lo \<le> seg_vaddr s" "seg_vaddr s + seg_memsz s \<le> unat hi" "seg_vaddr s < 2 ^ 64" if "s \<in> set ?ss" for s
    using b that elf_okD(6) [OF ok that] by auto
  obtain s where s: "s \<in> set ?ss" using b by (cases ?ss) auto
  have lo_in: "unat lo \<in> seg_vaddr ` set ?ss"
  proof (cases "unat lo = 2 ^ 64 - 1")
    case True
    then have "unat lo = seg_vaddr s" using segs(1,3) [OF s] by simp
    then show ?thesis using s by blast
  qed (use b in auto)
  have base: "unat KERNEL_VIRTUAL_BASE \<le> unat lo" using lo_in high by auto
  have le: "unat lo \<le> unat hi" using segs [OF s] by simp
  then have d: "unat (hi - lo) = unat hi - unat lo" by (simp add: unat_sub word_le_nat_alt)
  have "18446744071562067968 \<le> unat lo" using base by (simp add: KERNEL_VIRTUAL_BASE_def)
  then have "unat (hi - lo) + 2097152 \<le> 18446744073709551616" using d unat_lt64 [of hi] by linarith
  then have "unat (hi - lo) + 2 ^ 21 \<le> 2 ^ 64" by simp
  note r = round_up_2m [OF this, folded n(1)]
  have hin: "unat hi \<le> unat lo + unat n" using r(2) d le by simp
  have "unat n \<le> 2 ^ 30" using n(3) by (simp add: not_less KERNEL_MAX_SIZE_BYTES_def PAGE_SIZE_2M_def word_le_nat_alt)
  moreover have "e_entry m f = e_entry (file_mem file) 0" by (rule file_at_header(1) [OF f elf_okD(1) [OF ok]])
  ultimately show ?thesis
    unfolding planned_def using r(1) n(2) base lo_in segs(1,2) hin entry by (auto simp: word_le_nat_alt word_less_nat_alt intro: order_trans)
qed

section \<open>Reading the file\<close>

lemma alloc_pool:
  assumes "pool_service bs V" and "AllocatePool bs mt n p0 e = (st, p, e')"
  shows "S \<subseteq> held_in V e \<Longrightarrow> keeps V S e e'"
    and "\<not> EFI_ERROR st \<Longrightarrow> unat p + unat n \<le> 2 ^ 52 \<and> bytes_at p (unat n) \<inter> held_in V e = {}
      \<and> V (firmware e') = V (firmware e)\<lparr>held := held_in V e \<union> bytes_at p (unat n), blocks := (blocks (V (firmware e)))(p \<mapsto> unat n)\<rparr>"
    and "EFI_ERROR st \<Longrightarrow> V (firmware e') = V (firmware e)"
proof -
  note a = conjunct1 [OF assms(1) [unfolded pool_service_def], rule_format, OF assms(2)]
  show "\<not> EFI_ERROR st \<Longrightarrow> unat p + unat n \<le> 2 ^ 52 \<and> bytes_at p (unat n) \<inter> held_in V e = {}
      \<and> V (firmware e') = V (firmware e)\<lparr>held := held_in V e \<union> bytes_at p (unat n), blocks := (blocks (V (firmware e)))(p \<mapsto> unat n)\<rparr>"
    using a by simp
  show "EFI_ERROR st \<Longrightarrow> V (firmware e') = V (firmware e)" using a by simp
  show "S \<subseteq> held_in V e \<Longrightarrow> keeps V S e e'" using a by (cases "EFI_ERROR st") (auto simp: keeps_def intro: kept_subset)
qed

lemma free_pool:
  assumes "pool_service bs V" and "blocks (V (firmware e)) p = Some n"
  shows "S \<subseteq> held_in V e \<Longrightarrow> S \<inter> bytes_at p n = {} \<Longrightarrow> keeps V S e (snd (FreePool bs p e))"
    and "opened (V (firmware (snd (FreePool bs p e)))) = opened (V (firmware e))"
    and "q \<noteq> p \<Longrightarrow> blocks (V (firmware (snd (FreePool bs p e)))) q = blocks (V (firmware e)) q"
proof -
  obtain st e' where f: "FreePool bs p e = (st, e')" by fastforce
  note a = conjunct2 [OF assms(1) [unfolded pool_service_def], rule_format, OF f assms(2)]
  show "opened (V (firmware (snd (FreePool bs p e)))) = opened (V (firmware e))"
    "q \<noteq> p \<Longrightarrow> blocks (V (firmware (snd (FreePool bs p e)))) q = blocks (V (firmware e)) q"
    using a f by simp_all
  assume S: "S \<subseteq> held_in V e" "S \<inter> bytes_at p n = {}"
  then have "S \<subseteq> held_in V e'" using a by (cases "EFI_ERROR st") auto
  then show "keeps V S e (snd (FreePool bs p e))" using a f by (auto simp: keeps_def intro: kept_subset)
qed

lemma close_file:
  assumes "file_service fs V root disk"
  shows "S \<subseteq> held_in V e \<Longrightarrow> keeps V S e (snd (Close fs h e))"
    and "held_in V (snd (Close fs h e)) = held_in V e" and "blocks (V (firmware (snd (Close fs h e)))) = blocks (V (firmware e))"
proof -
  obtain st e' where c: "Close fs h e = (st, e')" by fastforce
  then have "kept (held_in V e) (ram e) (ram e') \<and> V (firmware e') = V (firmware e)\<lparr>opened := (opened (V (firmware e)))(h := None)\<rparr>"
    using assms unfolding file_service_def by blast
  then show "S \<subseteq> held_in V e \<Longrightarrow> keeps V S e (snd (Close fs h e))"
    "held_in V (snd (Close fs h e)) = held_in V e" "blocks (V (firmware (snd (Close fs h e)))) = blocks (V (firmware e))"
    using c by (auto simp: keeps_def intro: kept_subset)
qed

lemma file_serviceD:
  assumes "file_service fs V root disk"
  shows "Open fs root h0 path mode attr e = (st, h, e') \<Longrightarrow> kept (held_in V e) (ram e) (ram e')
      \<and> (if EFI_ERROR st then V (firmware e') = V (firmware e)
         else \<exists>bytes. disk path = Some bytes \<and> V (firmware e') = V (firmware e)\<lparr>opened := (opened (V (firmware e)))(h \<mapsto> bytes)\<rparr>)"
    and "GetInfo fs h ty n buf e = (st, n', e') \<Longrightarrow> opened (V (firmware e)) h = Some bytes \<Longrightarrow> calm V (bytes_at buf (unat n)) e e'"
    and "GetInfo fs h EFI_FILE_INFO_ID n buf e = (st, n', e') \<Longrightarrow> opened (V (firmware e)) h = Some bytes \<Longrightarrow> \<not> EFI_ERROR st \<Longrightarrow>
      length bytes < 2 ^ 64 \<and> read_unaligned_u64 (ram e') (buf + 8) = of_nat (length bytes)"
    and "Read fs h n buf e = (st, n', e') \<Longrightarrow> opened (V (firmware e)) h = Some bytes \<Longrightarrow>
      kept (held_in V e - bytes_at buf (unat n)) (ram e) (ram e')
      \<and> (if EFI_ERROR st then held_in V e' = held_in V e \<and> blocks (V (firmware e')) = blocks (V (firmware e))
         else unat n' = min (unat n) (length bytes) \<and> (\<forall>i < unat n'. ram e' (buf + of_nat i) = bytes ! i)
           \<and> V (firmware e') = V (firmware e)\<lparr>opened := (opened (V (firmware e)))(h \<mapsto> drop (unat n') bytes)\<rparr>)"
proof -
  note s = assms [unfolded file_service_def]
  note info = s [THEN conjunct2, THEN conjunct1, rule_format] and rd = s [THEN conjunct2, THEN conjunct2, THEN conjunct1, rule_format]
  show "kept (held_in V e) (ram e) (ram e')
      \<and> (if EFI_ERROR st then V (firmware e') = V (firmware e)
         else \<exists>bytes. disk path = Some bytes \<and> V (firmware e') = V (firmware e)\<lparr>opened := (opened (V (firmware e)))(h \<mapsto> bytes)\<rparr>)"
    if "Open fs root h0 path mode attr e = (st, h, e')"
    by (rule s [THEN conjunct1, rule_format, OF that])
  show "calm V (bytes_at buf (unat n)) e e'"
    if "GetInfo fs h ty n buf e = (st, n', e')" "opened (V (firmware e)) h = Some bytes"
    by (rule conjunct1 [OF info [OF that]])
  show "length bytes < 2 ^ 64 \<and> read_unaligned_u64 (ram e') (buf + 8) = of_nat (length bytes)"
    if "GetInfo fs h EFI_FILE_INFO_ID n buf e = (st, n', e')" "opened (V (firmware e)) h = Some bytes" "\<not> EFI_ERROR st"
    using info [OF that(1,2)] that(3) by simp
qed (rule assms [unfolded file_service_def, THEN conjunct2, THEN conjunct2, THEN conjunct1, rule_format])

text \<open>The file in memory, in a block of its own.\<close>

definition read_in :: "('f \<Rightarrow> holdings) \<Rightarrow> 'f env \<Rightarrow> u8 list \<Rightarrow> u64 \<Rightarrow> 'f env \<Rightarrow> bool" where
  "read_in V e file buf e' \<longleftrightarrow> file_at (ram e') buf file \<and> blocks (V (firmware e')) buf = Some (length file)
     \<and> bytes_at buf (length file) \<subseteq> held_in V e' - held_in V e"

lemma read_block:
  assumes pool: "pool_service bs V" and files: "file_service fs V root disk" and opn: "opened (V (firmware e)) h = Some file"
    and len: "length file < 2 ^ 64"
    and al: "AllocatePool bs EfiLoaderData (of_nat (length file)) 0 e = (st, buf, e1)" "\<not> EFI_ERROR st"
    and rd: "Read fs h (of_nat (length file)) buf e1 = (st2, n', e2)"
  shows "keeps V (held_in V e) e (snd (Close fs h e2))"
    and "if EFI_ERROR st2 then keeps V (held_in V e) e (snd (FreePool bs buf (snd (Close fs h e2))))
      else unat n' = length file \<and> read_in V e file buf (snd (Close fs h e2))"
proof -
  let ?n = "of_nat (length file) :: u64" and ?H = "held_in V e" and ?B = "bytes_at buf (length file)" and ?e3 = "snd (Close fs h e2)"
  have n: "unat ?n = length file" using len by (simp add: unat_of_nat)
  note a = alloc_pool(2) [OF pool al, unfolded n]
  have o1: "opened (V (firmware e1)) h = Some file" using a opn by simp
  note r = file_serviceD(4) [OF files rd o1, unfolded n]
  have h2: "held_in V e2 = ?H \<union> ?B" "blocks (V (firmware e2)) buf = Some (length file)"
    using r a by (cases "EFI_ERROR st2"; simp)+
  have k1: "keeps V ?H e e1" by (rule alloc_pool(1) [OF pool al(1)]) simp
  have h1: "held_in V e1 = ?H \<union> ?B" "?B \<inter> ?H = {}" "unat buf + length file \<le> 2 ^ 52" using a by simp_all
  have "?H \<subseteq> held_in V e1 - ?B" unfolding h1(1) using h1(2) by blast
  from kept_subset [OF conjunct1 [OF r] this] have "keeps V ?H e1 e2" by (simp add: keeps_def h2(1))
  note k2 = keeps_trans [OF k1 this]
  note c = close_file [OF files, where e = e2 and h = h]
  show k3: "keeps V ?H e ?e3" by (rule keeps_trans [OF k2 c(1)]) (simp add: h2)
  show "if EFI_ERROR st2 then keeps V ?H e (snd (FreePool bs buf ?e3)) else unat n' = length file \<and> read_in V e file buf ?e3"
  proof (cases "EFI_ERROR st2")
    case True
    have "keeps V ?H ?e3 (snd (FreePool bs buf ?e3))"
      by (rule free_pool(1) [OF pool, of ?e3 buf "length file"]) (use h1(2) in \<open>simp_all add: c h2 Int_commute\<close>)
    then show ?thesis using True keeps_trans [OF k3] by simp
  next
    case False
    then have r': "unat n' = length file" "\<forall>i < length file. ram e2 (buf + of_nat i) = file ! i" using r by auto
    have "ram ?e3 (buf + i) = file ! unat i" if "unat i < length file" for i
    proof -
      have "unat (buf + i) \<in> ?B" using that h1(3) by (simp add: bytes_at_def unat_add_no_wrap)
      then have "ram ?e3 (buf + i) = ram e2 (buf + i)" using c(1) [of ?B] h2(1) by (simp add: keeps_def kept_def)
      then show ?thesis using r'(2) [rule_format, OF that] by simp
    qed
    then have "file_at (ram ?e3) buf file" using h1(3) by (simp add: file_at_def)
    moreover have "?B \<subseteq> held_in V ?e3 - ?H" using h1(2) unfolding c(2) h2(1) by blast
    ultimately show ?thesis using False r'(1) h2(2) by (simp add: read_in_def c(3))
  qed
qed

lemma read_contents_spec:
  assumes pool: "pool_service bs V" and files: "file_service fs V root disk" and opn: "opened (V (firmware e)) h = Some file"
    and len: "length file < 2 ^ 64" and run: "read_contents bs fs h (of_nat (length file)) e = (r, e')"
  shows "keeps V (held_in V e) e e' \<and> (\<forall>buf n. r = Some (buf, n) \<longrightarrow> unat n = length file \<and> read_in V e file buf e')"
proof -
  let ?n = "of_nat (length file) :: u64" and ?H = "held_in V e"
  obtain st buf e1 where al: "AllocatePool bs EfiLoaderData ?n 0 e = (st, buf, e1)" by (metis prod_cases3)
  obtain st2 n' e2 where rd: "Read fs h ?n buf e1 = (st2, n', e2)" by (metis prod_cases3)
  show ?thesis
  proof (cases "EFI_ERROR st")
    case True
    have k: "keeps V ?H e e1" by (rule alloc_pool(1) [OF pool al]) simp
    then have "keeps V ?H e1 (snd (Close fs h e1))" by (intro close_file(1) [OF files]) (simp add: keeps_def)
    then show ?thesis using run al True keeps_trans [OF k] by (simp add: read_contents_def)
  next
    case False
    then show ?thesis
      using read_block [OF pool files opn len al False rd] run al rd
      by (cases "EFI_ERROR st2") (auto simp: read_contents_def Let_def)
  qed
qed

lemma read_in_later: "held_in V e \<subseteq> held_in V e1 \<Longrightarrow> read_in V e1 file buf e' \<Longrightarrow> read_in V e file buf e'"
  by (auto simp: read_in_def)

lemma keeps_subset: "keeps V S e e' \<Longrightarrow> T \<subseteq> S \<Longrightarrow> keeps V T e e'"
  by (auto simp: keeps_def intro: kept_subset)

text \<open>The structure with the size of the file: a block of the pool for as long as it is read.\<close>

lemma info_block:
  assumes pool: "pool_service bs V" and files: "file_service fs V root disk" and opn: "opened (V (firmware e)) h = Some file"
    and al: "AllocatePool bs EfiLoaderData n 0 e = (st, p, e1)" "\<not> EFI_ERROR st" and info: "GetInfo fs h EFI_FILE_INFO_ID n p e1 = (st2, n', e2)"
  shows "keeps V (held_in V e) e (snd (FreePool bs p e2))" and "opened (V (firmware (snd (FreePool bs p e2)))) h = Some file"
    and "\<not> EFI_ERROR st2 \<Longrightarrow> length file < 2 ^ 64 \<and> read_unaligned_u64 (ram e2) (p + 8) = of_nat (length file)"
proof -
  let ?H = "held_in V e" and ?B = "bytes_at p (unat n)"
  note a = alloc_pool(2) [OF pool al]
  have o1: "opened (V (firmware e1)) h = Some file" using a opn by simp
  have c: "calm V ?B e1 e2" by (rule file_serviceD(2) [OF files info o1])
  then have v: "V (firmware e2) = V (firmware e1)" by (simp add: calm_def)
  have h1: "held_in V e1 = ?H \<union> ?B" "?B \<inter> ?H = {}" and b: "blocks (V (firmware e2)) p = Some (unat n)" using a v by simp_all
  have apart: "?H \<subseteq> held_in V e1 - ?B" unfolding h1(1) using h1(2) by blast
  have k1: "keeps V ?H e e1" by (rule alloc_pool(1) [OF pool al(1)]) simp
  have k2: "keeps V ?H e e2" by (rule keeps_trans [OF k1 keeps_calm [OF c apart]])
  show "keeps V ?H e (snd (FreePool bs p e2))"
    by (rule keeps_trans [OF k2 free_pool(1) [OF pool b]]) (use k2 h1(2) in \<open>simp_all add: keeps_def Int_commute\<close>)
  show "opened (V (firmware (snd (FreePool bs p e2)))) h = Some file" using free_pool(2) [OF pool b] v o1 by simp
  show "\<not> EFI_ERROR st2 \<Longrightarrow> length file < 2 ^ 64 \<and> read_unaligned_u64 (ram e2) (p + 8) = of_nat (length file)"
    by (rule file_serviceD(3) [OF files info o1])
qed

lemma read_file_spec:
  assumes pool: "pool_service bs V" and files: "file_service fs V root disk" and run: "read_file bs fs root path e = (r, e')"
  shows "keeps V (held_in V e) e e' \<and> (\<forall>buf n. r = Some (buf, n) \<longrightarrow>
    (\<exists>file. disk path = Some file \<and> unat n = length file \<and> read_in V e file buf e'))"
proof -
  let ?H = "held_in V e"
  obtain st1 h e1 where opn: "Open fs root 0 path EFI_FILE_MODE_READ 0 e = (st1, h, e1)" by (metis prod_cases3)
  obtain st2 n2 e2 where i2: "GetInfo fs h EFI_FILE_INFO_ID 0 0 e1 = (st2, n2, e2)" by (metis prod_cases3)
  obtain st3 p e3 where a3: "AllocatePool bs EfiLoaderData n2 0 e2 = (st3, p, e3)" by (metis prod_cases3)
  obtain st4 n4 e4 where i4: "GetInfo fs h EFI_FILE_INFO_ID n2 p e3 = (st4, n4, e4)" by (metis prod_cases3)
  note run = run [unfolded read_file_def opn prod.case i2 a3 i4 Let_def]
  note so = file_serviceD(1) [OF files opn]
  show ?thesis
  proof (cases "EFI_ERROR st1")
    case True
    then show ?thesis using run so by (auto simp: keeps_def)
  next
    case False
    then obtain bytes where found: "disk path = Some bytes" "opened (V (firmware e1)) h = Some bytes" and h1: "held_in V e1 = ?H"
      using so by auto
    have k1: "keeps V ?H e e1" using so h1 by (simp add: keeps_def)
    have c2: "calm V {} e1 e2" using file_serviceD(2) [OF files i2 found(2)] by (simp add: bytes_at_def)
    then have v2: "V (firmware e2) = V (firmware e1)" by (simp add: calm_def)
    have k2: "keeps V ?H e e2" by (rule keeps_trans [OF k1 keeps_calm [OF c2]]) (simp add: h1)
    have h2: "held_in V e2 = ?H" "opened (V (firmware e2)) h = Some bytes" using v2 h1 found(2) by simp_all
    have close: "keeps V ?H e (snd (Close fs h x))" if "keeps V ?H e x" for x
      by (rule keeps_trans [OF that close_file(1) [OF files]]) (use that in \<open>simp add: keeps_def\<close>)
    have k3: "keeps V ?H e e3" by (rule keeps_trans [OF k2 alloc_pool(1) [OF pool a3]]) (simp add: h2)
    show ?thesis
    proof (cases "EFI_ERROR st3")
      case True
      then show ?thesis using run \<open>\<not> EFI_ERROR st1\<close> close [OF k3] by simp
    next
      case ok3: False
      note ib = info_block [OF pool files h2(2) a3 ok3 i4]
      let ?e5 = "snd (FreePool bs p e4)"
      have k5: "keeps V ?H e ?e5" using keeps_trans [OF k2] ib(1) h2(1) by simp
      show ?thesis
      proof (cases "EFI_ERROR st4")
        case True
        then show ?thesis using run \<open>\<not> EFI_ERROR st1\<close> ok3 close [OF k5] by simp
      next
        case ok4: False
        note len = ib(3) [OF ok4]
        have run5: "read_contents bs fs h (of_nat (length bytes)) ?e5 = (r, e')" using run \<open>\<not> EFI_ERROR st1\<close> ok3 ok4 len by simp
        note rc = read_contents_spec [OF pool files ib(2) conjunct1 [OF len] run5]
        have sub: "?H \<subseteq> held_in V ?e5" using k5 by (simp add: keeps_def)
        have "keeps V ?H e e'" by (rule keeps_trans [OF k5 keeps_subset [OF conjunct1 [OF rc] sub]])
        then show ?thesis using rc found(1) read_in_later [OF sub] by blast
      qed
    qed
  qed
qed

section \<open>The loaded image\<close>

definition loaded :: "('f \<Rightarrow> holdings) \<Rightarrow> 'f env \<Rightarrow> u8 list \<Rightarrow> loaded_kernel \<Rightarrow> 'f env \<Rightarrow> bool" where
  "loaded V e file k e' \<longleftrightarrow> planned file (KernelVirtualBase k) (KernelSizeBytes k)
     \<and> unat (KernelPhysicalBase k) mod 2 ^ 21 = 0 \<and> unat (KernelPhysicalBase k) + unat (KernelSizeBytes k) \<le> 2 ^ 32
     \<and> bytes_at (KernelPhysicalBase k) (unat (KernelSizeBytes k)) \<subseteq> held_in V e' - held_in V e
     \<and> EntryPointVirtual k = e_entry (file_mem file) 0
     \<and> (\<forall>d. unat d < unat (KernelSizeBytes k) \<longrightarrow> ram e' (KernelPhysicalBase k + d) = image_byte file (unat (KernelVirtualBase k) + unat d))"

lemma file_at_kept: "file_at m f file \<Longrightarrow> kept (bytes_at f (length file)) m m' \<Longrightarrow> file_at m' f file"
  by (auto simp: file_at_def kept_def bytes_at_def unat_add_no_wrap)

text \<open>The loops, once there is room: the region holds the image, and nothing else has changed.\<close>

lemma image_written:
  assumes f: "file_at m f file" and ok: "elf_ok file" and plan: "planned file lo n" and base: "unat base + unat n < 2 ^ 64"
    and apart: "bytes_at base (unat n) \<inter> bytes_at f (length file) = {}"
    and m': "m' = copy_segments (zero_bytes m base n 0) f base lo 0"
  shows "file_at m' f file" and "unat x \<notin> bytes_at base (unat n) \<Longrightarrow> m' x = m x"
    and "unat d < unat n \<Longrightarrow> m' (base + d) = image_byte file (unat lo + unat d)"
proof -
  let ?z = "zero_bytes m base n 0"
  have z: "?z x = (if unat x \<in> bytes_at base (unat n) then 0 else m x)" for x
    using zero_bytes_spec [of base n m 0] base by (simp add: in_bytes_at)
  have fits: "unat f + length file < 2 ^ 64" using f by (simp add: file_at_def)
  have "?z (f + i) = m (f + i)" if "unat i < length file" for i
  proof -
    have "unat (f + i) \<in> bytes_at f (length file)" using that fits by (simp add: bytes_at_def unat_add_no_wrap)
    then show ?thesis using apart unfolding z by auto
  qed
  then have fz: "file_at ?z f file" using f by (simp add: file_at_def)
  have segs: "\<forall>s \<in> set (segments file). unat lo \<le> seg_vaddr s \<and> seg_vaddr s + seg_filesz s \<le> unat lo + unat n"
    using plan elf_okD(5) [OF ok] unfolding planned_def by (meson add_left_mono order_trans)
  note c = copy_segments_spec [OF fz ok apart base _ segs, of 0, folded segments_def m', unfolded unat_0]
  have c: "file_at m' f file" "\<forall>x. unat x \<notin> bytes_at base (unat n) \<longrightarrow> m' x = ?z x"
    "\<forall>d. unat d < unat n \<longrightarrow> m' (base + d) = fold (put_segment file (unat lo + unat d)) (segments file) (?z (base + d))"
    using c by (simp_all add: segments_def)
  show "file_at m' f file" by (rule c(1))
  show "unat x \<notin> bytes_at base (unat n) \<Longrightarrow> m' x = m x" using c(2) z by simp
  assume d: "unat d < unat n"
  then have "?z (base + d) = 0" using base by (simp add: z bytes_at_def unat_add_no_wrap)
  then show "m' (base + d) = image_byte file (unat lo + unat d)" using c(3) d by (simp add: image_byte_def)
qed

lemma image_place:
  assumes "planned file lo n" and "unat p mod 4096 = 0" and "unat p + unat ((n + PAGE_SIZE_2M) div PAGE_SIZE_4K) * 4096 \<le> 2 ^ 32"
  shows "unat (RoundUpTo p PAGE_SIZE_2M) mod 2 ^ 21 = 0" and "unat (RoundUpTo p PAGE_SIZE_2M) + unat n \<le> 2 ^ 32"
    and "bytes_at (RoundUpTo p PAGE_SIZE_2M) (unat n) \<subseteq> bytes_at p (unat ((n + PAGE_SIZE_2M) div PAGE_SIZE_4K) * 4096)"
proof -
  have n: "unat n mod 2 ^ 21 = 0" "unat n \<le> 2 ^ 30" using assms(1) by (simp_all add: planned_def)
  have "unat (n + PAGE_SIZE_2M) = unat n + 2 ^ 21" using n(2) by (simp add: PAGE_SIZE_2M_def unat_add_no_wrap)
  moreover have "4096 dvd unat n + 2 ^ 21" using n(1) by (intro dvd_add) (auto simp: mod_eq_0_iff_dvd intro: dvd_trans [rotated])
  ultimately have sz: "unat ((n + PAGE_SIZE_2M) div PAGE_SIZE_4K) * 4096 = unat n + 2 ^ 21" by (simp add: PAGE_SIZE_4K_def unat_div)
  have "unat p + 2 ^ 21 \<le> 2 ^ 64" using assms(3) sz by simp
  note r = round_up_2m [OF this]
  show "unat (RoundUpTo p PAGE_SIZE_2M) mod 2 ^ 21 = 0" by (rule r(1))
  show "unat (RoundUpTo p PAGE_SIZE_2M) + unat n \<le> 2 ^ 32" using r(3) assms(3) sz by simp
  show "bytes_at (RoundUpTo p PAGE_SIZE_2M) (unat n) \<subseteq> bytes_at p (unat ((n + PAGE_SIZE_2M) div PAGE_SIZE_4K) * 4096)"
    unfolding sz using r(2,3) by (auto simp: bytes_at_def)
qed

lemma image_loaded:
  assumes pool: "pool_service bs V" and ok: "elf_ok file" and plan: "planned file lo n" and f: "file_at (ram e2) f file"
    and bl: "blocks (V (firmware e2)) f = Some (length file)" and F: "bytes_at f (length file) \<inter> held_in V e = {}"
    and kH: "keeps V (held_in V e) e e2" and p: "unat p mod 4096 = 0" "unat p + unat ((n + PAGE_SIZE_2M) div PAGE_SIZE_4K) * 4096 \<le> 2 ^ 32"
    and B: "bytes_at p (unat ((n + PAGE_SIZE_2M) div PAGE_SIZE_4K) * 4096) \<subseteq> held_in V e2 - held_in V e - bytes_at f (length file)"
    and base: "base = RoundUpTo p PAGE_SIZE_2M" and m: "m = copy_segments (zero_bytes (ram e2) base n 0) f base lo 0"
    and e': "e' = snd (FreePool bs f (e2\<lparr>ram := m\<rparr>))"
  shows "keeps V (held_in V e) e e'"
    and "loaded V e file \<lparr>KernelPhysicalBase = base, KernelVirtualBase = lo, KernelSizeBytes = n, EntryPointVirtual = e_entry m f\<rparr> e'"
proof -
  let ?H = "held_in V e" and ?R = "bytes_at base (unat n)" and ?F = "bytes_at f (length file)" and ?e3 = "e2\<lparr>ram := m\<rparr>"
  note pl = image_place [OF plan p, folded base]
  have R: "?R \<subseteq> held_in V e2" "?R \<inter> ?H = {}" "?R \<inter> ?F = {}" using pl(3) B by blast+
  note w = image_written [OF f ok plan _ R(3) m]
  have fits: "unat base + unat n < 2 ^ 64" using pl(2) by simp
  have "kept ?H (ram e2) m" unfolding kept_def using w(2) [OF fits] R(2) by blast
  then have k3: "keeps V ?H e ?e3" using kH by (auto simp: keeps_def intro: kept_trans)
  have bl3: "blocks (V (firmware ?e3)) f = Some (length file)" using bl by simp
  show "keeps V ?H e e'"
    unfolding e' by (rule keeps_trans [OF k3 free_pool(1) [OF pool bl3]]) (use k3 F in \<open>simp_all add: keeps_def Int_commute\<close>)
  have kR: "keeps V ?R ?e3 e'" unfolding e' by (rule free_pool(1) [OF pool bl3]) (use R in simp_all)
  have "ram e' (base + d) = image_byte file (unat lo + unat d)" if "unat d < unat n" for d
  proof -
    have "unat (base + d) \<in> ?R" using that fits by (simp add: bytes_at_def unat_add_no_wrap)
    then have "ram e' (base + d) = m (base + d)" using kR by (simp add: keeps_def kept_def)
    then show ?thesis using w(3) [OF fits that] by simp
  qed
  moreover have "e_entry m f = e_entry (file_mem file) 0" by (rule file_at_header(1) [OF w(1) [OF fits] elf_okD(1) [OF ok]])
  moreover have "?R \<subseteq> held_in V e' - ?H" using kR R(2) by (auto simp: keeps_def)
  ultimately show "loaded V e file \<lparr>KernelPhysicalBase = base, KernelVirtualBase = lo, KernelSizeBytes = n, EntryPointVirtual = e_entry m f\<rparr> e'"
    using plan pl(1,2) by (simp add: loaded_def)
qed

lemma LoadKernelElf_spec:
  assumes mem: "memory_services bs V" and pool: "pool_service bs V" and files: "file_service fs V root disk"
    and disk: "disk path = Some file" and ok: "elf_ok file" and run: "LoadKernelElf bs fs root path e = (r, e')"
  shows "keeps V (held_in V e) e e' \<and> (\<forall>k. r = Some k \<longrightarrow> loaded V e file k e')"
proof -
  let ?H = "held_in V e" and ?L = "length file"
  obtain r1 e1 where rd: "read_file bs fs root path e = (r1, e1)" by fastforce
  note s1 = read_file_spec [OF pool files rd]
  show ?thesis
  proof (cases r1)
    case None
    then show ?thesis using run rd s1 by (simp add: LoadKernelElf_def)
  next
    case (Some bn)
    then obtain f sz where r1: "r1 = Some (f, sz)" by (cases bn) simp
    have k1: "keeps V ?H e e1" and ri: "read_in V e file f e1" using s1 r1 disk by auto
    have fa: "file_at (ram e1) f file" and bl: "blocks (V (firmware e1)) f = Some ?L"
      and F: "bytes_at f ?L \<subseteq> held_in V e1 - ?H" using ri by (simp_all add: read_in_def)
    have free: "keeps V S e (snd (FreePool bs f x))"
      if "keeps V S e x" "blocks (V (firmware x)) f = Some ?L" "S \<inter> bytes_at f ?L = {}" for S x
      by (rule keeps_trans [OF that(1) free_pool(1) [OF pool that(2) _ that(3)]]) (use that(1) in \<open>simp add: keeps_def\<close>)
    have HF: "?H \<inter> bytes_at f ?L = {}" using F by blast
    show ?thesis
    proof (cases "plan_image (ram e1) f sz")
      case None
      then show ?thesis using run rd r1 free [OF k1 bl HF] by (simp add: LoadKernelElf_def)
    next
      case (Some ln)
      then obtain lo n where pl: "plan_image (ram e1) f sz = Some (lo, n)" by (cases ln) simp
      note plan = plan_image_sound [OF fa ok pl]
      let ?p4 = "(n + PAGE_SIZE_2M) div PAGE_SIZE_4K"
      obtain st p e2 where al: "AllocatePages bs AllocateMaxAddress EfiLoaderData ?p4 (IDENTITY_MAP_LIMIT - 1) e1 = (st, p, e2)" by (metis prod_cases3)
      note pages = pages_serviceD [OF memory_servicesD(1) [OF mem] al]
      have bl2: "blocks (V (firmware e2)) f = Some ?L" using memory_servicesD(2) [OF mem al] bl by simp
      have k2: "keeps V (held_in V e1) e1 e2" by (rule keeps_pages [OF mem al]) simp
      have kH2: "keeps V ?H e e2" by (rule keeps_trans [OF k1 keeps_subset [OF k2]]) (use k1 in \<open>simp add: keeps_def\<close>)
      show ?thesis
      proof (cases "EFI_ERROR st")
        case True
        then show ?thesis using run rd r1 pl al free [OF kH2 bl2 HF] by (simp add: LoadKernelElf_def)
      next
        case False
        let ?B = "bytes_at p (unat ?p4 * 4096)"
        have h2: "held_in V e2 = held_in V e1 \<union> ?B" "?B \<inter> held_in V e1 = {}" using pages(6,7) [OF False] by simp_all
        have H: "?H \<subseteq> held_in V e1" using k1 by (simp add: keeps_def)
        have "?B \<subseteq> held_in V e2 - ?H - bytes_at f ?L" unfolding h2(1) using h2(2) H F by blast
        moreover have "file_at (ram e2) f file"
          using file_at_kept [OF fa] keeps_subset [OF k2] F by (auto simp: keeps_def)
        moreover have "unat p + unat ?p4 * 4096 \<le> 2 ^ 32" using pages(5) [OF False] by (simp add: IDENTITY_MAP_LIMIT_def)
        ultimately show ?thesis
          using image_loaded [OF pool ok plan _ bl2 _ kH2 pages(3) [OF False] _ _ refl refl refl] HF run rd r1 pl al False
          by (auto simp: LoadKernelElf_def Let_def Int_commute)
      qed
    qed
  qed
qed

end
