(* ===== verification/Boot_Serial.thy ===== *)
theory Boot_Serial
  imports Serial
begin

unbundle bit_operations_syntax

text \<open>
  The bootloader's own driver of the serial port (\<open>src/boot/serial.c\<close>), written in C against the same
  device the kernel drives after it, and that the two drivers do the same.
\<close>

definition SERIAL_COM1_BASE :: u16 where "SERIAL_COM1_BASE = 0x3F8"

definition SerialInit :: "ports \<Rightarrow> ports" where
  "SerialInit t =
     (let t = outb (SERIAL_COM1_BASE + 1) 0x00 t;
          t = outb (SERIAL_COM1_BASE + 3) 0x80 t;
          t = outb (SERIAL_COM1_BASE + 0) (ucast (3 AND 0xFF :: u32)) t;
          t = outb (SERIAL_COM1_BASE + 1) (ucast (drop_bit 8 3 AND 0xFF :: u32)) t;
          t = outb (SERIAL_COM1_BASE + 3) 0x03 t;
          t = outb (SERIAL_COM1_BASE + 2) (0x01 OR 0x02 OR 0x04 OR 0xC0) t
      in outb (SERIAL_COM1_BASE + 4) (0x01 OR 0x02 OR 0x08) t)"

partial_function (option) wait_transmit :: "device \<Rightarrow> ports \<Rightarrow> ports option" where
  "wait_transmit dev t =
     (let r = inb dev (SERIAL_COM1_BASE + 5) t
      in if fst r AND 0x20 = 0 then wait_transmit dev (snd r) else Some (snd r))"

function SerialWriteChar :: "device \<Rightarrow> u8 \<Rightarrow> ports \<Rightarrow> ports option" where
  "SerialWriteChar dev c t =
     (case (if c = 10 then SerialWriteChar dev 13 t else Some t) of
        None \<Rightarrow> None
      | Some t \<Rightarrow> do {
          t \<leftarrow> wait_transmit dev t;
          Some (outb (SERIAL_COM1_BASE + 0) c t)
        })"
  by pat_completeness auto
termination
  by (relation "measure (\<lambda>(dev, c, t). if c = 10 then 1 else 0)") auto

declare SerialWriteChar.simps [simp del]

text \<open>A string is given by the bytes from its first; the loop stops at the terminator.\<close>

fun SerialWriteString :: "device \<Rightarrow> u8 list \<Rightarrow> ports \<Rightarrow> ports option" where
  "SerialWriteString dev [] t = Some t"
| "SerialWriteString dev (c # str) t = (if c = 0 then Some t else do { t \<leftarrow> SerialWriteChar dev c t; SerialWriteString dev str t })"

primrec hex_loop :: "nat \<Rightarrow> u64 \<Rightarrow> u8 list \<Rightarrow> u8 list" where
  "hex_loop 0 value buffer = buffer"
| "hex_loop (Suc i) value buffer = hex_loop i (drop_bit 4 value) (buffer[i := ascii ''0123456789ABCDEF'' ! unat (value AND 0xF)])"

definition SerialWriteHex64 :: "device \<Rightarrow> u64 \<Rightarrow> ports \<Rightarrow> ports option" where
  "SerialWriteHex64 dev value t = SerialWriteString dev (hex_loop 16 value ((replicate 17 0)[16 := 0])) t"

section \<open>The two drivers\<close>

lemma SerialInit_same: "SerialInit = serial_init"
  by (simp add: fun_eq_iff SerialInit_def serial_init_def SERIAL_COM1_BASE_def serial_consts Let_def)

lemma com1_same: "SERIAL_COM1_BASE + 5 = COM1 + REG_LINE_STATUS" "SERIAL_COM1_BASE = COM1 + REG_DATA"
  by (simp_all add: SERIAL_COM1_BASE_def serial_consts)

lemma wait_is_poll: "wait_transmit dev t = Some t' \<Longrightarrow> poll_tx dev t = Some t'"
proof (erule wait_transmit.raw_induct [rotated])
  fix wait dev t t'
  assume "\<And>dev t t'. wait dev t = Some t' \<Longrightarrow> poll_tx dev t = Some t'"
    and "(let r = inb dev (SERIAL_COM1_BASE + 5) t in if fst r AND 0x20 = 0 then wait dev (snd r) else Some (snd r)) = Some t'"
  then show "poll_tx dev t = Some t'"
    by (subst poll_tx.simps) (simp add: com1_same(1) LSR_TX_EMPTY_def Let_def split: if_splits)
qed

lemma poll_is_wait: "poll_tx dev t = Some t' \<Longrightarrow> wait_transmit dev t = Some t'"
proof (erule poll_tx.raw_induct [rotated])
  fix poll dev t t'
  assume "\<And>dev t t'. poll dev t = Some t' \<Longrightarrow> wait_transmit dev t = Some t'"
    and "(let r = inb dev (COM1 + REG_LINE_STATUS) t in if fst r AND LSR_TX_EMPTY = 0 then poll dev (snd r) else Some (snd r)) = Some t'"
  then show "wait_transmit dev t = Some t'"
    by (subst wait_transmit.simps) (simp add: com1_same(1) LSR_TX_EMPTY_def Let_def split: if_splits)
qed

lemma wait_transmit_same: "wait_transmit dev t = poll_tx dev t"
  using wait_is_poll [of dev t] poll_is_wait [of dev t] by (metis not_Some_eq)

lemma SerialWriteChar_same: "SerialWriteChar dev c t = write_byte dev c t"
proof -
  have plain: "SerialWriteChar dev c t = write_byte dev c t" if "c \<noteq> 10" for c t
    using that by (simp add: SerialWriteChar.simps write_byte.simps wait_transmit_same com1_same(2))
  then show ?thesis
    by (cases "c = 10") (simp_all add: SerialWriteChar.simps [of dev 10] write_byte.simps [of dev 10] wait_transmit_same com1_same(2) split: option.split)
qed

lemma SerialWriteString_same: "SerialWriteString dev str t = write_bytes dev (takeWhile (\<lambda>c. c \<noteq> 0) str) t"
proof (induction str arbitrary: t)
  case (Cons c str)
  then show ?case by (cases "c = 0"; cases "write_byte dev c t") (simp_all add: SerialWriteChar_same)
qed simp

lemma hex_loop_same: "n \<le> length buf \<Longrightarrow> hex_loop n v (buf @ rest) = hex_fill n v buf @ rest"
  by (induction n arbitrary: v buf) (simp_all add: list_update_append HEX_DIGITS_def)

lemma hex_digits_nonzero: "0 \<notin> set (hex_digits_of n m)"
proof (induction n arbitrary: m)
  case (Suc n)
  have "HEX_DIGITS ! (m mod 16) \<in> set HEX_DIGITS" by (rule hex_digit_facts(3)) simp
  moreover have "0 \<notin> set HEX_DIGITS" by (simp add: hex_digits)
  ultimately show ?case using Suc.IH by auto
qed simp

lemma SerialWriteHex64_same: "SerialWriteHex64 dev v t = write_hex64 dev v t"
proof -
  let ?d = "hex_digits_of 16 (unat v)"
  have "replicate (Suc 16) (0 :: u8) = replicate 16 0 @ [0]" by (simp only: replicate_append_same replicate_Suc)
  then have "(replicate 17 0)[16 := 0] = replicate 16 (0 :: u8) @ [0]" by (simp add: list_update_append del: replicate_Suc)
  then have "hex_loop 16 v ((replicate 17 0)[16 := 0]) = ?d @ [0]"
    using hex_loop_same [of 16 "replicate 16 0" v "[0]"] by (simp add: hex_fill_digits)
  moreover have "takeWhile (\<lambda>c. c \<noteq> 0) (?d @ [0]) = ?d"
    using hex_digits_nonzero [of 16 "unat v"] by (subst takeWhile_append2) auto
  ultimately show ?thesis by (simp add: SerialWriteHex64_def SerialWriteString_same write_hex64_def hex_fill_digits)
qed

end
