(* ===== verification/Boot_Main.thy ===== *)
theory Boot_Main
  imports Boot_Paging_Props Boot_Memory_Map Kernel_Loader_Props Boot_Serial
begin

unbundle bit_operations_syntax

text \<open>
  The bootloader as a whole (\<open>src/boot/main.c\<close>, \<open>trampoline.asm\<close>): the check that files can be read,
  loading the kernel, the structure handed to it, the page tables, leaving the boot services, and the
  jump.
\<close>

section \<open>Console\<close>

definition con_out :: "'f system_table \<Rightarrow> CHAR16 list \<Rightarrow> 'f env \<Rightarrow> 'f env" where
  "con_out st s e = snd (OutputString (ConOut st) s e)"

definition crlf :: "CHAR16 list" where "crlf = [13, 10]"

definition put_chunk :: "CHAR16 list \<Rightarrow> u64 \<Rightarrow> CHAR16 \<Rightarrow> CHAR16 list option" where
  "put_chunk chunk i v = (if unat i < length chunk then Some (chunk[unat i := v]) else None)"

text \<open>
  \<open>PrintAscii\<close>: the array \<open>chunk\<close> and the number of characters in it; \<open>None\<close> is a write outside the
  array. A string passed on ends at its terminator.
\<close>

definition print_step :: "'f system_table \<Rightarrow> u64 \<Rightarrow> u64 \<Rightarrow> u64 \<Rightarrow> CHAR16 list \<times> u64 \<times> 'f env \<Rightarrow> (CHAR16 list \<times> u64 \<times> 'f env) option" where
  "print_step st buffer len i s =
     (case s of (chunk, chunkLen, e) \<Rightarrow>
      let c = ram e (buffer + i) in
      case (if c = 10 \<and> (chunkLen = 0 \<or> chunk ! unat (chunkLen - 1) \<noteq> 13)
            then map_option (\<lambda>chunk. (chunk, chunkLen + 1)) (put_chunk chunk chunkLen 13) else Some (chunk, chunkLen)) of
        None \<Rightarrow> None
      | Some (chunk, chunkLen) \<Rightarrow>
          (case put_chunk chunk chunkLen (scast c) of
             None \<Rightarrow> None
           | Some chunk \<Rightarrow>
               let chunkLen = chunkLen + 1 in
               if chunkLen \<ge> 125 \<or> i = len - 1 then
                 (case put_chunk chunk chunkLen 0 of
                    None \<Rightarrow> None
                  | Some chunk \<Rightarrow> Some (chunk, 0, con_out st (takeWhile (\<lambda>c. c \<noteq> 0) chunk) e))
               else Some (chunk, chunkLen, e)))"

function print_loop :: "'f system_table \<Rightarrow> u64 \<Rightarrow> u64 \<Rightarrow> u64 \<Rightarrow> CHAR16 list \<times> u64 \<times> 'f env \<Rightarrow> 'f env option" where
  "print_loop st buffer len i s =
     (if i < len then (case print_step st buffer len i s of None \<Rightarrow> None | Some s \<Rightarrow> print_loop st buffer len (i + 1) s)
      else Some (snd (snd s)))"
  by pat_completeness auto
termination
  by (relation "measure (\<lambda>(st, b, n, i, s). 2 ^ LENGTH(64) - unat i)") (simp_all only: wf_measure in_measure prod.case counter_up)

declare print_loop.simps [simp del]

definition PrintAscii :: "'f system_table \<Rightarrow> u64 \<Rightarrow> u64 \<Rightarrow> 'f env \<Rightarrow> 'f env option" where
  "PrintAscii st buffer len e = print_loop st buffer len 0 (replicate 128 0, 0, e)"

section \<open>Reading a file\<close>

definition open_root :: "'f system_table \<Rightarrow> u64 \<Rightarrow> 'f env \<Rightarrow> u64 option \<times> 'f env" where
  "open_root st ImageHandle e =
     (case HandleProtocol (BootServices st) ImageHandle EFI_LOADED_IMAGE_PROTOCOL_GUID 0 e of (status, loadedImage, e) \<Rightarrow>
      if EFI_ERROR status then (None, con_out st (wide ''FAILED: could not get LoadedImageProtocol'' @ crlf) e)
      else
        let e = con_out st (wide ''[OK] LoadedImageProtocol acquired.'' @ crlf) e;
            DeviceHandle = read_unaligned_u64 (ram e) (loadedImage + 24)
        in (case HandleProtocol (BootServices st) DeviceHandle EFI_SIMPLE_FILE_SYSTEM_PROTOCOL_GUID 0 e of (status, sfsp, e) \<Rightarrow>
      if EFI_ERROR status then (None, con_out st (wide ''FAILED: could not get SimpleFileSystemProtocol'' @ crlf) e)
      else
        let e = con_out st (wide ''[OK] SimpleFileSystemProtocol acquired.'' @ crlf) e
        in (case OpenVolume (Files st) sfsp 0 e of (status, root, e) \<Rightarrow>
      if EFI_ERROR status then (None, con_out st (wide ''FAILED: OpenVolume failed'' @ crlf) e)
      else (Some root, con_out st (wide ''[OK] Root directory opened.'' @ crlf) e))))"

definition rule_line :: "CHAR16 list" where
  "rule_line = wide (replicate 60 (CHR ''-'')) @ crlf"

text \<open>The part after the file is open, with its clean-up; the result says whether the pipeline worked. \<open>None\<close> is a write outside an array.\<close>

definition show_file :: "'f system_table \<Rightarrow> u64 \<Rightarrow> 'f env \<Rightarrow> (bool \<times> 'f env) option" where
  "show_file st testFile e =
     (let BS = BootServices st; fs = Files st in
      case GetInfo fs testFile EFI_FILE_INFO_ID 0 0 e of (_, infoSize, e) \<Rightarrow>
      (case AllocatePool BS EfiLoaderData infoSize 0 e of (status, fileInfo, e) \<Rightarrow>
      if EFI_ERROR status
      then Some (False, snd (Close fs testFile (con_out st (wide ''FAILED: AllocatePool for file info failed'' @ crlf) e)))
      else (case GetInfo fs testFile EFI_FILE_INFO_ID infoSize fileInfo e of (status, infoSize, e) \<Rightarrow>
      if EFI_ERROR status
      then Some (False, snd (Close fs testFile (snd (FreePool BS fileInfo
             (con_out st (wide ''FAILED: GetInfo (second call) failed'' @ crlf) e)))))
      else
        let e = con_out st (wide ''[OK] File size obtained.'' @ crlf) e;
            fileDataSize = read_unaligned_u64 (ram e) (fileInfo + 8)
        in (case AllocatePool BS EfiLoaderData fileDataSize 0 e of (status, fileData, e) \<Rightarrow>
      if EFI_ERROR status
      then Some (False, snd (Close fs testFile (snd (FreePool BS fileInfo
             (con_out st (wide ''FAILED: AllocatePool for file data failed'' @ crlf) e)))))
      else (case Read fs testFile fileDataSize fileData e of (status, fileDataSize, e) \<Rightarrow>
        let clean_up = (\<lambda>ok e. Some (ok, snd (Close fs testFile (snd (FreePool BS fileInfo (snd (FreePool BS fileData e)))))))
        in if EFI_ERROR status then clean_up False (con_out st (wide ''FAILED: Read failed'' @ crlf) e)
        else
          let e = con_out st (wide ''[OK] File read into memory. Contents:'' @ crlf) e;
              e = con_out st rule_line e
          in (case PrintAscii st fileData fileDataSize e of
                None \<Rightarrow> None
              | Some e \<Rightarrow>
                  let e = con_out st rule_line e;
                      e = con_out st (wide ''[OK] Part 2 file-read pipeline verified successfully.'' @ crlf) e
                  in clean_up True e))))))"

definition read_test_file :: "'f system_table \<Rightarrow> u64 \<Rightarrow> 'f env \<Rightarrow> (bool \<times> 'f env) option" where
  "read_test_file st root e =
     (case Open (Files st) root 0 (wide [CHR 0x5C] @ wide ''BOOTINFO.TXT'') EFI_FILE_MODE_READ 0 e of (status, testFile, e) \<Rightarrow>
      if EFI_ERROR status
      then Some (False, con_out st (wide ''(Did you copy boot/testdata/BOOTINFO.TXT to the ESP root? See README.)'' @ crlf)
             (con_out st (wide ''FAILED: could not open '' @ wide [CHR 0x5C] @ wide ''BOOTINFO.TXT'' @ crlf) e))
      else show_file st testFile (con_out st (wide ''[OK] '' @ wide [CHR 0x5C] @ wide ''BOOTINFO.TXT opened.'' @ crlf) e))"

section \<open>The structure for the kernel\<close>

text \<open>
  Where a C compiler puts the fields, and the structure as the kernel reads it. Both sides lay out the
  same list of sizes.
\<close>

definition repr_c_offsets :: "nat list \<Rightarrow> nat list" where
  "repr_c_offsets fs = fst (fold (\<lambda>f (offs, end). (offs @ [round_up_to end f], round_up_to end f + f)) fs ([], 0))"

definition read_boot_info :: "byte_mem \<Rightarrow> u64 \<Rightarrow> boot_info" where
  "read_boot_info m p =
     \<lparr>magic = read_unaligned_u64 m p, version = read_unaligned_u32 m (p + 8), struct_size_bytes = read_unaligned_u32 m (p + 12),
      memory_map_phys_addr = read_unaligned_u64 m (p + 16), memory_map_size_bytes = read_unaligned_u64 m (p + 24),
      memory_map_descriptor_size = read_unaligned_u64 m (p + 32), memory_map_descriptor_version = read_unaligned_u32 m (p + 40),
      memory_map_entry_count = read_unaligned_u64 m (p + 48), kernel_physical_base = read_unaligned_u64 m (p + 56),
      kernel_virtual_base = read_unaligned_u64 m (p + 64), kernel_size_bytes = read_unaligned_u64 m (p + 72),
      kernel_stack_top = read_unaligned_u64 m (p + 80), kernel_stack_size_bytes = read_unaligned_u64 m (p + 88)\<rparr>"

lemma boot_info_layout: "repr_c_offsets [8, 4, 4, 8, 8, 8, 4, 8, 8, 8, 8, 8, 8] = [0, 8, 12, 16, 24, 32, 40, 48, 56, 64, 72, 80, 88]"
  by (simp add: repr_c_offsets_def round_up_to_def)

definition prepare_boot_info :: "u64 \<Rightarrow> loaded_kernel \<Rightarrow> byte_mem \<Rightarrow> byte_mem" where
  "prepare_boot_info bootInfo lk m =
     (let m = zero_bytes m bootInfo 96 0;
          m = store64 m bootInfo BOOTINFO_MAGIC;
          m = store32 m (bootInfo + 8) BOOTINFO_VERSION;
          m = store32 m (bootInfo + 12) 96;
          m = store64 m (bootInfo + 56) (KernelPhysicalBase lk);
          m = store64 m (bootInfo + 64) (KernelVirtualBase lk)
      in store64 m (bootInfo + 72) (KernelSizeBytes lk))"

definition store_stack :: "u64 \<Rightarrow> u64 \<Rightarrow> u64 \<Rightarrow> byte_mem \<Rightarrow> byte_mem" where
  "store_stack bootInfo stackTop stackSizeBytes m = store64 (store64 m (bootInfo + 80) stackTop) (bootInfo + 88) stackSizeBytes"

definition store_memory_map :: "u64 \<Rightarrow> boot_memory_map \<Rightarrow> byte_mem \<Rightarrow> byte_mem" where
  "store_memory_map bootInfo memMap m =
     (let m = store64 m (bootInfo + 16) (Map memMap);
          m = store64 m (bootInfo + 24) (MapSizeBytes memMap);
          m = store64 m (bootInfo + 32) (DescriptorSize memMap);
          m = store32 m (bootInfo + 40) (DescriptorVersion memMap)
      in store64 m (bootInfo + 48) (EntryCount memMap))"

section \<open>The jump\<close>

text \<open>Loading \<open>CR3\<close> drops the cached translations; the kernel finds the structure in \<open>RDI\<close>.\<close>

record entry_state =
  entry_cpu :: cpu
  reg_rsp :: u64
  reg_rdi :: u64
  reg_rip :: u64

definition JumpToKernel :: "u64 \<Rightarrow> u64 \<Rightarrow> u64 \<Rightarrow> u64 \<Rightarrow> cpu \<Rightarrow> entry_state" where
  "JumpToKernel NewCr3 KernelEntryVirtual BootInfoPhysAddr KernelStackTop c =
     \<lparr>entry_cpu = c\<lparr>cr3 := NewCr3, tlb := Map.empty\<rparr>, reg_rsp = KernelStackTop, reg_rdi = BootInfoPhysAddr, reg_rip = KernelEntryVirtual\<rparr>"

section \<open>\<open>EfiMain\<close>\<close>

definition KERNEL_STACK_PAGES :: u64 where "KERNEL_STACK_PAGES = 16"

text \<open>Where the bootloader ends: in its own halt loop, or in the kernel, with the arguments of the jump and the trace of the serial port.\<close>

datatype 'f boot_outcome =
    Stopped "'f env"
  | Jumped (jump_cr3: u64) (jump_entry: u64) (jump_info: u64) (jump_stack: u64) (jump_env: "'f env") (jump_ports: ports)

definition halt_loop :: "'f system_table \<Rightarrow> 'f env \<Rightarrow> 'f boot_outcome option" where
  "halt_loop st e = Some (Stopped (con_out st (crlf @ wide ''Halting.'' @ crlf) e))"

definition boot_fail :: "'f system_table \<Rightarrow> string \<Rightarrow> 'f env \<Rightarrow> 'f boot_outcome option" where
  "boot_fail st s e = halt_loop st (con_out st (wide s @ crlf) e)"

definition last_words :: "device \<Rightarrow> u64 \<Rightarrow> u64 \<Rightarrow> ports \<Rightarrow> ports option" where
  "last_words dev entry newCr3 t =
     (let nl = [13, 10]; t = SerialInit t in do {
        t \<leftarrow> SerialWriteString dev (nl @ ascii ''NeoastrenOS Bootloader - Phase 2 Part 4'' @ nl) t;
        t \<leftarrow> SerialWriteString dev (ascii ''ExitBootServices succeeded. Boot Services have been terminated.'' @ nl) t;
        t \<leftarrow> SerialWriteString dev (ascii ''BootInfo populated. Jumping to kernel entry point: 0x'') t;
        t \<leftarrow> SerialWriteHex64 dev entry t;
        t \<leftarrow> SerialWriteString dev nl t;
        t \<leftarrow> SerialWriteString dev (ascii ''New CR3: 0x'') t;
        t \<leftarrow> SerialWriteHex64 dev newCr3 t;
        t \<leftarrow> SerialWriteString dev nl t;
        t \<leftarrow> SerialWriteString dev (ascii ''This is the last line the bootloader itself prints.'' @ nl) t;
        SerialWriteString dev (ascii ''Control transfers to the kernel now.'' @ nl @ nl) t
      })"

text \<open>From the loaded kernel to the jump.\<close>

definition leave_firmware :: "'f system_table \<Rightarrow> device \<Rightarrow> u64 \<Rightarrow> loaded_kernel \<Rightarrow> u64 \<Rightarrow> u64 \<Rightarrow> u64 \<Rightarrow> 'f env \<Rightarrow> ports \<Rightarrow> 'f boot_outcome option" where
  "leave_firmware st dev ImageHandle lk bootInfo stackTop newCr3 e t =
     (let e = con_out st (crlf @ wide ''Preparing to retrieve the memory map and exit Boot Services...'' @ crlf) e;
          e = con_out st (wide ''(No further ConOut output is guaranteed valid after this point,'' @ crlf) e;
          e = con_out st (wide '' per the UEFI specification. Remaining output goes to COM1.)'' @ crlf) e
      in case ExitBootServicesWithRetry (BootServices st) ImageHandle e of
        (None, e) \<Rightarrow> boot_fail st ''FAILED: ExitBootServices did not succeed within the retry budget.'' e
      | (Some memMap, e) \<Rightarrow>
          let e = e\<lparr>ram := store_memory_map bootInfo memMap (ram e)\<rparr>
          in map_option (Jumped newCr3 (EntryPointVirtual lk) bootInfo stackTop e) (last_words dev (EntryPointVirtual lk) newCr3 t))"

definition prepare_kernel :: "'f system_table \<Rightarrow> device \<Rightarrow> u64 \<Rightarrow> loaded_kernel \<Rightarrow> 'f env \<Rightarrow> ports \<Rightarrow> 'f boot_outcome option" where
  "prepare_kernel st dev ImageHandle lk e t =
     (let BS = BootServices st in
      case AllocatePages BS AllocateMaxAddress EfiLoaderData 1 (IDENTITY_MAP_LIMIT - 1) e of (status, bootInfo, e) \<Rightarrow>
      if EFI_ERROR status then boot_fail st ''FAILED: could not allocate BootInfo page'' e
      else
        let e = e\<lparr>ram := prepare_boot_info bootInfo lk (ram e)\<rparr>
        in (case AllocatePages BS AllocateMaxAddress EfiLoaderData KERNEL_STACK_PAGES (IDENTITY_MAP_LIMIT - 1) e of (status, stackPhys, e) \<Rightarrow>
      if EFI_ERROR status then boot_fail st ''FAILED: could not allocate kernel stack'' e
      else
        let stackSizeBytes = KERNEL_STACK_PAGES * PAGE_SIZE_4K;
            stackTop = stackPhys + stackSizeBytes;
            e = e\<lparr>ram := store_stack bootInfo stackTop stackSizeBytes (ram e)\<rparr>;
            e = con_out st (wide ''[OK] Kernel stack allocated.'' @ crlf) e;
            e = con_out st (wide ''[OK] BootInfo allocated and pre-populated.'' @ crlf) e
        in (case BuildKernelPageTables BS (KernelPhysicalBase lk) (KernelSizeBytes lk) e of (newCr3, e) \<Rightarrow>
      if newCr3 = 0 then boot_fail st ''FAILED: could not build kernel page tables'' e
      else
        let e = con_out st (wide ''[OK] Page tables built (identity map + higher-half kernel mapping).'' @ crlf) e
        in leave_firmware st dev ImageHandle lk bootInfo stackTop newCr3 e t)))"

definition KERNEL_PATH :: "CHAR16 list" where
  "KERNEL_PATH = wide [CHR 0x5C] @ wide ''KERNEL.ELF''"

definition EfiMain :: "'f system_table \<Rightarrow> device \<Rightarrow> u64 \<Rightarrow> 'f env \<Rightarrow> ports \<Rightarrow> 'f boot_outcome option" where
  "EfiMain st dev ImageHandle e t =
     (let e = snd (ClearScreen (ConOut st) e);
          e = con_out st (wide ''NeoastrenOS Bootloader '' @ [0x2014] @ wide '' Phase 2, Part 4'' @ crlf) e;
          e = con_out st (wide ''Testing Simple File System read pipeline...'' @ crlf @ crlf) e
      in case open_root st ImageHandle e of
        (None, e) \<Rightarrow> halt_loop st e
      | (Some root, e) \<Rightarrow>
          (case read_test_file st root e of
             None \<Rightarrow> None
           | Some (False, e) \<Rightarrow> halt_loop st e
           | Some (True, e) \<Rightarrow>
               let e = con_out st (crlf @ wide ''Loading kernel image '' @ KERNEL_PATH @ wide ''...'' @ crlf) e
               in (case LoadKernelElf (BootServices st) (Files st) root KERNEL_PATH e of
                     (None, e) \<Rightarrow> boot_fail st ''(See tests/kernel_stub/README.md for how to build the test fixture.)''
                        (con_out st (wide ''FAILED: could not load or validate '' @ KERNEL_PATH @ crlf) e)
                   | (Some lk, e) \<Rightarrow>
                       let e = con_out st (wide ''[OK] Kernel image loaded and validated.'' @ crlf) e;
                           e = snd (Close (Files st) root e)
                       in prepare_kernel st dev ImageHandle lk e t)))"

end
