(* ===== verification/Boot_Main_Props.thy ===== *)
theory Boot_Main_Props
  imports Boot_Main
begin

unbundle bit_operations_syntax

section \<open>The structure in memory\<close>

lemma far_byte:
  assumes "of_nat w \<le> r - q" and "of_nat k \<le> q - r" and "w < 2 ^ 64" "k < 2 ^ 64" "i < k"
  shows "\<not> r + of_nat i - q < (of_nat w :: u64)"
proof -
  let ?d = "r - q"
  have w: "unat (of_nat w :: u64) = w" "unat (of_nat k :: u64) = k" using assms(3,4) by (simp_all add: unat_of_nat)
  have i: "unat (of_nat i :: u64) = i" using assms(4,5) by (simp add: unat_of_nat)
  have "?d \<noteq> 0" using assms(2,5) w(2) by (auto simp: word_le_nat_alt)
  then have "unat ?d \<noteq> 0" by (simp add: word_unat_eq_iff)
  then have "unat (q - r) = 18446744073709551616 - unat ?d" using unat_sub_if' [of 0 ?d] by simp
  then have "unat (q - r) + unat ?d = 18446744073709551616" using unat_lt64 [of ?d] by linarith
  moreover have "k \<le> unat (q - r)" "w \<le> unat ?d" using assms(1,2) w by (simp_all add: word_le_nat_alt)
  ultimately have "unat ?d + unat (of_nat i :: u64) < 2 ^ 64" "w \<le> unat ?d" using i assms(5) by simp_all
  then have "w \<le> unat (?d + of_nat i)" by (simp add: unat_add_no_wrap)
  moreover have eq: "r + of_nat i - q = ?d + of_nat i" by simp
  ultimately show ?thesis unfolding eq word_less_nat_alt w(1) by simp
qed

lemma read_store_far:
  "8 \<le> r - q \<Longrightarrow> 8 \<le> q - r \<Longrightarrow> read_unaligned_u64 (store64 m q v) r = read_unaligned_u64 m r"
  "8 \<le> r - q \<Longrightarrow> 4 \<le> q - r \<Longrightarrow> read_unaligned_u32 (store64 m q v) r = read_unaligned_u32 m r"
  "4 \<le> r - q \<Longrightarrow> 8 \<le> q - r \<Longrightarrow> read_unaligned_u64 (store32 m q x) r = read_unaligned_u64 m r"
  "4 \<le> r - q \<Longrightarrow> 4 \<le> q - r \<Longrightarrow> read_unaligned_u32 (store32 m q x) r = read_unaligned_u32 m r"
proof -
  have b64: "read_bytes (store64 m q v) r k = read_bytes m r k" if "8 \<le> r - q" "of_nat k \<le> q - r" "k < 2 ^ 64" for k
    unfolding read_bytes_def by (rule map_cong) (use far_byte [of 8 r q k] that in \<open>auto simp: store64_def\<close>)
  have b32: "read_bytes (store32 m q x) r k = read_bytes m r k" if "4 \<le> r - q" "of_nat k \<le> q - r" "k < 2 ^ 64" for k
    unfolding read_bytes_def by (rule map_cong) (use far_byte [of 4 r q k] that in \<open>auto simp: store32_def\<close>)
  show "8 \<le> r - q \<Longrightarrow> 8 \<le> q - r \<Longrightarrow> read_unaligned_u64 (store64 m q v) r = read_unaligned_u64 m r"
    "8 \<le> r - q \<Longrightarrow> 4 \<le> q - r \<Longrightarrow> read_unaligned_u32 (store64 m q v) r = read_unaligned_u32 m r"
    "4 \<le> r - q \<Longrightarrow> 8 \<le> q - r \<Longrightarrow> read_unaligned_u64 (store32 m q x) r = read_unaligned_u64 m r"
    "4 \<le> r - q \<Longrightarrow> 4 \<le> q - r \<Longrightarrow> read_unaligned_u32 (store32 m q x) r = read_unaligned_u32 m r"
    using b64 [of 8] b64 [of 4] b32 [of 8] b32 [of 4] by (simp_all add: read_unaligned_u64_def read_unaligned_u32_def)
qed

lemma read_store32 [simp]: "read_unaligned_u32 (store32 m p v) p = v"
proof -
  have u: "drop_bit (8 * i) (ucast v :: u64) = ucast (drop_bit (8 * i) v)" for i
    by (rule bit_eqI) (auto simp: bit_simps dest: bit_imp_le_length)
  have uu: "ucast (ucast y :: u64) = (ucast y :: u8)" for y :: u32
    by (rule bit_eqI) (auto simp: bit_simps dest: bit_imp_le_length)
  have "read_bytes (store32 m p v) p 4 = List.map (\<lambda>i. ucast (drop_bit (8 * i) (ucast v :: u64))) [0..<0 + 4]"
    unfolding read_bytes_def u uu by (rule map_cong) (auto simp: store32_def word_less_nat_alt unat_of_nat)
  then show ?thesis
    using le_bytes_parts [of "ucast v :: u64" 0 4] unsigned_less [of v, where ?'a = nat] by (simp add: read_unaligned_u32_def unsigned_ucast_eq take_bit_nat_eq_self)
qed

lemma read_zeroed:
  assumes "unat p + 96 \<le> 2 ^ 64"
  shows "unat off + 8 \<le> 96 \<Longrightarrow> read_unaligned_u64 (zero_bytes m p 96 0) (p + off) = 0"
    and "unat off + 4 \<le> 96 \<Longrightarrow> read_unaligned_u32 (zero_bytes m p 96 0) (p + off) = 0"
proof -
  have z: "zero_bytes m p 96 0 = (\<lambda>x. if unat p + unat (0 :: u64) \<le> unat x \<and> unat x < unat p + unat (96 :: u64) then 0 else m x)"
    by (rule zero_bytes_spec) (use assms in simp)
  have "zero_bytes m p 96 0 (p + off + of_nat i) = 0" if "unat off + k \<le> 96" "i < k" for k i
  proof -
    have i: "unat (of_nat i :: u64) = i" using that by (simp add: unat_of_nat)
    then have "unat (off + of_nat i) = unat off + i" using that by (simp add: unat_add_no_wrap)
    then have "unat (p + (off + of_nat i)) = unat p + (unat off + i)" using that assms by (simp add: unat_add_no_wrap)
    then show ?thesis using that unfolding z by (simp add: add.assoc)
  qed
  then have "le_bytes (read_bytes (zero_bytes m p 96 0) (p + off) k) = le_bytes (replicate k 0)" if "unat off + k \<le> 96" for k
    using that by (intro arg_cong [of _ _ le_bytes]) (simp add: read_bytes_def list_eq_iff_nth_eq)
  moreover have "le_bytes (replicate k 0) = 0" for k by (induction k) simp_all
  ultimately show "unat off + 8 \<le> 96 \<Longrightarrow> read_unaligned_u64 (zero_bytes m p 96 0) (p + off) = 0"
    "unat off + 4 \<le> 96 \<Longrightarrow> read_unaligned_u32 (zero_bytes m p 96 0) (p + off) = 0"
    by (simp_all add: read_unaligned_u64_def read_unaligned_u32_def)
qed

text \<open>The structure as the kernel finds it; before the memory map is known its fields are zero.\<close>

definition info_for :: "loaded_kernel \<Rightarrow> boot_memory_map \<Rightarrow> u64 \<Rightarrow> u64 \<Rightarrow> boot_info" where
  "info_for lk mm stack sz =
     \<lparr>magic = BOOTINFO_MAGIC, version = BOOTINFO_VERSION, struct_size_bytes = 96,
      memory_map_phys_addr = Map mm, memory_map_size_bytes = MapSizeBytes mm, memory_map_descriptor_size = DescriptorSize mm,
      memory_map_descriptor_version = DescriptorVersion mm, memory_map_entry_count = EntryCount mm,
      kernel_physical_base = KernelPhysicalBase lk, kernel_virtual_base = KernelVirtualBase lk, kernel_size_bytes = KernelSizeBytes lk,
      kernel_stack_top = stack, kernel_stack_size_bytes = sz\<rparr>"

definition no_map :: boot_memory_map where
  "no_map = \<lparr>Map = 0, MapSizeBytes = 0, DescriptorSize = 0, DescriptorVersion = 0, EntryCount = 0\<rparr>"

lemma read_boot_info_prepare:
  assumes "unat p + 96 \<le> 2 ^ 64"
  shows "read_boot_info (prepare_boot_info p lk m) p = info_for lk no_map 0 0"
  by (simp add: info_for_def no_map_def read_boot_info_def prepare_boot_info_def Let_def read_store_far read_zeroed [OF assms])

text \<open>Nothing outside the structure is written, and what is in it depends on its bytes alone.\<close>

lemma store_within:
  assumes "unat p + 96 \<le> 2 ^ 64" and "unat x \<notin> bytes_at p 96"
  shows "unat off + 8 \<le> 96 \<Longrightarrow> store64 m (p + off) v x = m x" and "unat off + 4 \<le> 96 \<Longrightarrow> store32 m (p + off) y x = m x"
    and "store64 m p v x = m x"
proof -
  have out: "\<not> x - (p + off) < of_nat k" if "unat off + k \<le> 96" for off k
  proof
    assume lt: "x - (p + off) < of_nat k"
    define d where "d = x - (p + off)"
    have k: "unat d < k" using lt that by (simp add: d_def word_less_nat_alt unat_of_nat)
    then have d: "unat (off + d) = unat off + unat d" using that by (simp add: unat_add_no_wrap)
    have "x = p + (off + d)" by (simp add: d_def)
    moreover have "unat (p + (off + d)) = unat p + (unat off + unat d)" using d k that assms(1) by (simp add: unat_add_no_wrap)
    ultimately show False using assms(2) k that by (simp add: bytes_at_def)
  qed
  show "unat off + 8 \<le> 96 \<Longrightarrow> store64 m (p + off) v x = m x" "unat off + 4 \<le> 96 \<Longrightarrow> store32 m (p + off) y x = m x" "store64 m p v x = m x"
    using out [of off 8] out [of off 4] out [of 0 8] by (simp_all add: store64_def store32_def)
qed

lemma boot_info_within:
  assumes "unat p + 96 \<le> 2 ^ 64" and "unat x \<notin> bytes_at p 96"
  shows "prepare_boot_info p lk m x = m x" and "store_stack p peak sz m x = m x" and "store_memory_map p mm m x = m x"
proof -
  have "zero_bytes m p 96 0 x = m x"
    using zero_bytes_spec [of p 96 m 0] assms by (auto simp: bytes_at_def)
  then show "prepare_boot_info p lk m x = m x" by (simp add: prepare_boot_info_def Let_def store_within [OF assms])
  show "store_stack p peak sz m x = m x" "store_memory_map p mm m x = m x"
    by (simp_all add: store_stack_def store_memory_map_def Let_def store_within [OF assms])
qed

lemma read_boot_info_kept:
  assumes "unat p + 96 \<le> 2 ^ 64" and "kept (bytes_at p 96) m m'"
  shows "read_boot_info m' p = read_boot_info m p"
proof -
  have b: "m' (p + d) = m (p + d)" if "unat d < 96" for d
    using assms that by (simp add: kept_def bytes_at_def unat_add_no_wrap)
  have "read_bytes m' (p + off) k = read_bytes m (p + off) k" if "unat off + k \<le> 96" for off k
    unfolding read_bytes_def
  proof (rule map_cong [OF refl])
    fix i assume i: "i \<in> set [0..<k]"
    then have "unat (of_nat i :: u64) = i" using that by (simp add: unat_of_nat)
    then have "unat (off + of_nat i) < 96" using i that by (simp add: unat_add_no_wrap)
    from b [OF this] show "m' (p + off + of_nat i) = m (p + off + of_nat i)" by (simp add: add.assoc)
  qed
  note r = this
  have "read_bytes m' p 8 = read_bytes m p 8" using r [of 0 8] by simp
  then show ?thesis by (simp add: read_boot_info_def read_unaligned_u64_def read_unaligned_u32_def r)
qed

lemma read_boot_info_stack:
  "read_boot_info (store_stack p peak sz m) p = (read_boot_info m p)\<lparr>kernel_stack_top := peak, kernel_stack_size_bytes := sz\<rparr>"
  by (simp add: read_boot_info_def store_stack_def read_store_far)

lemma read_boot_info_map:
  "read_boot_info (store_memory_map p mm m) p = (read_boot_info m p)
    \<lparr>memory_map_phys_addr := Map mm, memory_map_size_bytes := MapSizeBytes mm, memory_map_descriptor_size := DescriptorSize mm,
     memory_map_descriptor_version := DescriptorVersion mm, memory_map_entry_count := EntryCount mm\<rparr>"
  by (simp add: read_boot_info_def store_memory_map_def Let_def read_store_far)

section \<open>The tables, kept\<close>

lemma tables_built:
  assumes svc: "pages_service bs owned" and run: "BuildKernelPageTables bs base sz e = (root, e')" and root: "root \<noteq> 0"
    and large: "large_run base (kernel_pages sz)" and low: "owned (firmware e') - owned (firmware e) \<subseteq> {..<2 ^ 32}"
  obtains idp ds kp kd where "boot_entries (quads (ram e')) root idp ds kp kd base (kernel_pages sz)" and "kernel_pages sz \<le> 512"
    and "owned (firmware e) \<subseteq> owned (firmware e')" and "kept (owned (firmware e)) (ram e) (ram e')"
    and "\<forall>p \<in> set ([root, idp, kp, kd] @ ds). page_bytes (PhysAddr p) \<subseteq> owned (firmware e') - owned (firmware e)"
proof -
  obtain T idp ds kp kd where ds: "length ds = 4" "distinct ([root, idp, kp, kd] @ ds)" and n: "kernel_pages sz \<le> 512"
    and b: "built owned e T e'" and t: "boot_tables T root idp ds kp kd base (kernel_pages sz)"
    by (rule build_spec [OF svc run root])
  have "page_bytes (PhysAddr p) \<subseteq> owned (firmware e') - owned (firmware e)" if "p \<in> set ([root, idp, kp, kd] @ ds)" for p
  proof -
    have "dom T = PhysAddr ` set ([root, idp, kp, kd] @ ds)" using t unfolding boot_tables_def by (elim conjE)
    then have in_T: "PhysAddr p \<in> dom T" using that by (simp only: imageI)
    then obtain c where c: "T (PhysAddr p) = Some c" by blast
    have "page_bytes (PhysAddr p) \<subseteq> owned (firmware e')" unfolding builtD(2) [OF b] using in_T by blast
    then show ?thesis using builtD(4) [OF b c] by (simp add: Diff_eq disjoint_eq_subset_Compl)
  qed
  then show thesis
    by (intro that [OF boot_entries_built [OF b t ds large low] n _ builtD(1) [OF b]]) (use builtD(2) [OF b] in auto)
qed

lemma boot_entries_kept:
  assumes b: "boot_entries (quads m) root idp ds kp kd base n" and k: "kept S m m'"
    and S: "\<forall>p \<in> set ([root, idp, kp, kd] @ ds). page_bytes (PhysAddr p) \<subseteq> S"
  shows "boot_entries (quads m') root idp ds kp kd base n"
proof -
  note d = boot_entriesD [OF b]
  have same: "entry_at (quads m') (PhysAddr p) i = entry_at (quads m) (PhysAddr p) i"
    if "p \<in> set ([root, idp, kp, kd] @ ds)" "unat i < 512" for p i
  proof -
    have "bytes_at (ptr_add p i) 8 \<subseteq> S"
      using subset_trans [OF slot_in_page(3) [OF d(4) [OF that(1)] that(2)] bspec [OF S that(1)]] by simp
    then show ?thesis using quads_kept [OF k] by (simp add: entry_at_def)
  qed
  have "ds ! k \<in> set ([root, idp, kp, kd] @ ds)" if "k < 4" for k using that d(1) by simp
  then show ?thesis using b same unfolding boot_entries_def by simp
qed

section \<open>Steps of the bootloader\<close>

lemma keeps_con_out:
  assumes "console_service st V"
  shows "V (firmware (con_out st s e)) = V (firmware e)" and "S \<subseteq> held_in V e \<Longrightarrow> keeps V S e (con_out st s e)"
proof -
  obtain r e' where o: "OutputString (ConOut st) s e = (r, e')" by fastforce
  then have c: "calm V {} e e'" using assms unfolding console_service_def by blast
  show "V (firmware (con_out st s e)) = V (firmware e)" using c o by (simp add: calm_def con_out_def)
  show "S \<subseteq> held_in V e \<Longrightarrow> keeps V S e (con_out st s e)" using keeps_calm [OF c] o by (simp add: con_out_def)
qed

lemma keeps_ram: "S \<subseteq> held_in V e \<Longrightarrow> kept S (ram e) m \<Longrightarrow> keeps V S e (e\<lparr>ram := m\<rparr>)"
  by (simp add: keeps_def)

lemma con_out_firmware [simp]: "console_service st V \<Longrightarrow> V (firmware (con_out st s e)) = V (firmware e)"
  by (rule keeps_con_out(1))

text \<open>On a machine without memory above 4 GiB, and with the first page kept back, what is held lies between.\<close>

definition low_holdings :: "('f \<Rightarrow> holdings) \<Rightarrow> bool" where
  "low_holdings V \<longleftrightarrow> (\<forall>f. held (V f) \<subseteq> {4096..<2 ^ 32})"

text \<open>The two allocations and what is written between them.\<close>

lemma prepared:
  assumes mem: "memory_services bs V" and cons: "console_service st V"
    and al1: "AllocatePages bs AllocateMaxAddress EfiLoaderData 1 lim e = (st1, bi, e1)" "\<not> EFI_ERROR st1"
    and e2: "e2 = e1\<lparr>ram := prepare_boot_info bi lk (ram e1)\<rparr>"
    and al2: "AllocatePages bs AllocateMaxAddress EfiLoaderData 16 lim e2 = (st2, sp, e3)" "\<not> EFI_ERROR st2"
    and e6: "e6 = con_out st s' (con_out st s (e3\<lparr>ram := store_stack bi peak sz (ram e3)\<rparr>))"
  shows "keeps V (held_in V e) e e6" and "held_in V e6 = held_in V e \<union> bytes_at bi 4096 \<union> bytes_at sp 65536"
    and "bytes_at bi 4096 \<inter> held_in V e = {}" and "bytes_at sp 65536 \<inter> (held_in V e \<union> bytes_at bi 4096) = {}"
    and "unat bi mod 4096 = 0" and "unat bi + 4096 \<le> 2 ^ 52" and "unat sp + 65536 \<le> 2 ^ 52"
    and "read_boot_info (ram e6) bi = info_for lk no_map peak sz"
proof -
  let ?H = "held_in V e" and ?P = "bytes_at bi 4096" and ?K = "bytes_at sp 65536" and ?I = "bytes_at bi 96"
  note p1 = pages_serviceD [OF memory_servicesD(1) [OF mem] al1(1)] and p2 = pages_serviceD [OF memory_servicesD(1) [OF mem] al2(1)]
  have P: "?P \<inter> ?H = {}" "held_in V e1 = ?H \<union> ?P" and lim: "unat bi + 4096 \<le> 2 ^ 52" using p1(4,6,7) [OF al1(2)] by simp_all
  have fits: "unat bi + 96 \<le> 2 ^ 64" using lim by simp
  have sub: "?I \<subseteq> ?P" by (auto simp: bytes_at_def)
  have h2: "held_in V e2 = ?H \<union> ?P" using P(2) by (simp add: e2)
  have K: "?K \<inter> (?H \<union> ?P) = {}" "held_in V e3 = ?H \<union> ?P \<union> ?K" using p2(6,7) [OF al2(2)] h2 by simp_all
  let ?e4 = "e3\<lparr>ram := store_stack bi peak sz (ram e3)\<rparr>"
  have out: "kept ?H (ram e1) (prepare_boot_info bi lk (ram e1))" "kept ?H (ram e3) (store_stack bi peak sz (ram e3))"
    unfolding kept_def using boot_info_within(1,2) [OF fits] P(1) sub by blast+
  have k1: "keeps V ?H e e1" by (rule keeps_pages [OF mem al1(1)]) simp
  have k2: "keeps V ?H e e2" unfolding e2 by (rule keeps_trans [OF k1 keeps_ram [OF _ out(1)]]) (simp add: P(2))
  have k3: "keeps V ?H e e3" by (rule keeps_trans [OF k2 keeps_pages [OF mem al2(1)]]) (simp add: h2)
  have k4: "keeps V ?H e ?e4" by (rule keeps_trans [OF k3 keeps_ram [OF _ out(2)]]) (simp add: K(2) le_supI1)
  have v6: "V (firmware e6) = V (firmware e3)" using cons by (simp add: e6)
  have con: "keeps V S ?e4 e6" if "S \<subseteq> held_in V e3" for S
    unfolding e6 by (rule keeps_trans [OF keeps_con_out(2) [OF cons] keeps_con_out(2) [OF cons]]) (use that cons in simp_all)
  show "keeps V ?H e e6" by (rule keeps_trans [OF k4 con]) (simp add: K(2) le_supI1)
  show "held_in V e6 = ?H \<union> ?P \<union> ?K" using v6 K(2) by simp
  have "read_boot_info (ram e6) bi = read_boot_info (ram ?e4) bi"
    by (rule read_boot_info_kept [OF fits]) (use con [of ?I] sub K(2) in \<open>auto simp: keeps_def\<close>)
  also have "\<dots> = (read_boot_info (ram e3) bi)\<lparr>kernel_stack_top := peak, kernel_stack_size_bytes := sz\<rparr>"
    by (simp add: read_boot_info_stack)
  also have "read_boot_info (ram e3) bi = read_boot_info (ram e2) bi"
    by (rule read_boot_info_kept [OF fits]) (use keeps_pages [OF mem al2(1), of ?I] sub h2 in \<open>auto simp: keeps_def\<close>)
  finally show "read_boot_info (ram e6) bi = info_for lk no_map peak sz"
    by (simp add: e2 read_boot_info_prepare [OF fits] info_for_def)
  show "?P \<inter> ?H = {}" "?K \<inter> (?H \<union> ?P) = {}" "unat bi mod 4096 = 0" "unat bi + 4096 \<le> 2 ^ 52" "unat sp + 65536 \<le> 2 ^ 52"
    using P(1) K(1) p1(3) [OF al1(2)] lim p2(4) [OF al2(2)] by simp_all
qed

lemma left_firmware:
  assumes mem: "memory_services (BootServices st) V" and maps: "map_service (BootServices st) V key M" and cons: "console_service st V"
    and run: "leave_firmware st dev img lk bi peak root e t = Some (Jumped c3 entry info stack e' t')"
  obtains mm e1 where "c3 = root" and "entry = EntryPointVirtual lk" and "info = bi" and "stack = peak"
    and "e' = e1\<lparr>ram := store_memory_map bi mm (ram e1)\<rparr>" and "last_words dev entry root t = Some t'"
    and "keeps V (held_in V e) e e1" and "map_delivered V M e mm e1"
proof -
  let ?H = "held_in V e"
  define e0 where "e0 = con_out st (wide '' per the UEFI specification. Remaining output goes to COM1.)'' @ crlf)
    (con_out st (wide ''(No further ConOut output is guaranteed valid after this point,'' @ crlf)
    (con_out st (crlf @ wide ''Preparing to retrieve the memory map and exit Boot Services...'' @ crlf) e))"
  have k0: "keeps V ?H e e0" and h0: "held_in V e0 = ?H"
    unfolding e0_def using cons by (auto intro!: keeps_trans [OF keeps_trans [OF keeps_con_out(2) keeps_con_out(2)] keeps_con_out(2)])
  obtain r e1 where ex: "ExitBootServicesWithRetry (BootServices st) img e0 = (r, e1)" by fastforce
  note sp = exit_attempts_spec [OF mem maps ex [unfolded ExitBootServicesWithRetry_def], unfolded h0]
  note run = run [unfolded leave_firmware_def Let_def e0_def [symmetric] ex prod.case]
  obtain mm where mm: "r = Some mm" using run by (cases r) (simp_all add: boot_fail_def halt_loop_def)
  have "keeps V ?H e e1" using keeps_trans [OF k0] sp by blast
  moreover have "map_delivered V M e mm e1" using sp mm h0 by (simp add: map_delivered_def)
  ultimately show thesis using that run mm by auto
qed

text \<open>
  What the kernel is handed: tables that map its image and the low memory, the structure with the
  memory map and the places of image and stack, all in memory that the map does not offer.
\<close>

definition handed_over :: "('f \<Rightarrow> holdings) \<Rightarrow> memory_map_entry list set \<Rightarrow> loaded_kernel \<Rightarrow> u64 \<Rightarrow> u64 \<Rightarrow> u64 \<Rightarrow> 'f env \<Rightarrow> bool" where
  "handed_over V M lk root bi stack e \<longleftrightarrow> (\<exists>(mm :: boot_memory_map) idp ds kp kd.
     boot_entries (quads (ram e)) root idp ds kp kd (KernelPhysicalBase lk) (kernel_pages (KernelSizeBytes lk))
     \<and> kernel_pages (KernelSizeBytes lk) \<le> 512 \<and> (\<forall>p \<in> set ([root, idp, kp, kd] @ ds). page_bytes (PhysAddr p) \<subseteq> held_in V e)
     \<and> bytes_at bi 4096 \<subseteq> held_in V e \<and> bytes_at (stack - 65536) 65536 \<subseteq> held_in V e
     \<and> read_boot_info (ram e) bi = info_for lk mm stack 65536
     \<and> bytes_at (Map mm) (unat (MapSizeBytes mm)) \<subseteq> held_in V e \<and> unat (Map mm) + unat (MapSizeBytes mm) \<le> 2 ^ 32
     \<and> 40 \<le> DescriptorSize mm \<and> EntryCount mm = MapSizeBytes mm div DescriptorSize mm
     \<and> map_entries (ram e) (Map mm) (MapSizeBytes mm) (DescriptorSize mm) \<in> M
     \<and> offers (ram e) (Map mm) (MapSizeBytes mm) (DescriptorSize mm) \<inter> held_in V e = {})"

lemma handed_over_end:
  assumes e': "e' = e1\<lparr>ram := store_memory_map bi mm (ram e1)\<rparr>" and k: "keeps V (held_in V e) e e1" and del: "map_delivered V M e mm e1"
    and tabs: "boot_entries (quads (ram e)) root idp ds kp kd (KernelPhysicalBase lk) (kernel_pages (KernelSizeBytes lk))"
      "kernel_pages (KernelSizeBytes lk) \<le> 512" "\<forall>p \<in> set ([root, idp, kp, kd] @ ds). page_bytes (PhysAddr p) \<subseteq> held_in V e - bytes_at bi 4096"
    and bi: "bytes_at bi 4096 \<subseteq> held_in V e" "unat bi + 4096 \<le> 2 ^ 52" and stack: "bytes_at (stack - 65536) 65536 \<subseteq> held_in V e"
    and info: "read_boot_info (ram e) bi = info_for lk no_map stack 65536"
  shows "handed_over V M lk root bi stack e'" and "keeps V (held_in V e - bytes_at bi 4096) e e'"
proof -
  let ?H = "held_in V e" and ?P = "bytes_at bi 4096" and ?M = "bytes_at (Map mm) (unat (MapSizeBytes mm))"
  have fits: "unat bi + 96 \<le> 2 ^ 64" using bi(2) by simp
  have sub: "bytes_at bi 96 \<subseteq> ?P" by (auto simp: bytes_at_def)
  have h: "held_in V e' = held_in V e1" "?H \<subseteq> held_in V e1" using k by (simp_all add: e' keeps_def)
  have out: "kept S (ram e1) (ram e')" if "S \<inter> ?P = {}" for S
    unfolding kept_def e' by (auto intro!: boot_info_within(3) [OF fits]) (use that sub in blast)
  have "kept (?H - ?P) (ram e) (ram e1)" using k by (auto simp: keeps_def intro: kept_subset)
  then have kr: "kept (?H - ?P) (ram e) (ram e')" by (rule kept_trans [OF _ out]) blast
  then show "keeps V (?H - ?P) e e'" using h by (auto simp: keeps_def)
  have b: "boot_entries (quads (ram e')) root idp ds kp kd (KernelPhysicalBase lk) (kernel_pages (KernelSizeBytes lk))"
    by (rule boot_entries_kept [OF tabs(1) kr tabs(3)])
  have tp: "\<forall>p \<in> set ([root, idp, kp, kd] @ ds). page_bytes (PhysAddr p) \<subseteq> held_in V e'"
    using tabs(3) h(2) unfolding h(1) by (meson Diff_subset subset_trans)
  have "kept (bytes_at bi 96) (ram e) (ram e1)" using k sub bi(1) by (auto simp: keeps_def intro: kept_subset)
  from read_boot_info_kept [OF fits this] info
  have info': "read_boot_info (ram e') bi = info_for lk mm stack 65536"
    by (simp add: e' read_boot_info_map info_for_def)
  note d = del [unfolded map_delivered_def]
  then have fits_low: "unat (Map mm) + unat (MapSizeBytes mm) \<le> 2 ^ 32" and shape: "40 \<le> DescriptorSize mm" "EntryCount mm = MapSizeBytes mm div DescriptorSize mm"
    by blast+
  have "?M \<inter> ?P = {}" using d bi(1) by blast
  then have "offers (ram e') (Map mm) (MapSizeBytes mm) (DescriptorSize mm) = offers (ram e1) (Map mm) (MapSizeBytes mm) (DescriptorSize mm)"
    "map_entries (ram e') (Map mm) (MapSizeBytes mm) (DescriptorSize mm) = map_entries (ram e1) (Map mm) (MapSizeBytes mm) (DescriptorSize mm)"
    using offers_kept [OF out] d by simp_all
  then have fin: "offers (ram e') (Map mm) (MapSizeBytes mm) (DescriptorSize mm) \<inter> held_in V e' = {}"
    "map_entries (ram e') (Map mm) (MapSizeBytes mm) (DescriptorSize mm) \<in> M" "?M \<subseteq> held_in V e'"
    using d h(1) by auto
  have hold: "?P \<subseteq> held_in V e'" "bytes_at (stack - 65536) 65536 \<subseteq> held_in V e'" using bi(1) stack h by blast+
  show "handed_over V M lk root bi stack e'"
    unfolding handed_over_def
    by (intro exI [of _ mm] exI [of _ idp] exI [of _ ds] exI [of _ kp] exI [of _ kd] conjI)
      (rule b tabs(2) tp hold info' fin fits_low shape)+
qed

lemma kernel_pages_run:
  assumes "unat n mod 2 ^ 21 = 0" and "n \<noteq> 0" and "unat base mod 2 ^ 21 = 0" and "unat base + unat n \<le> 2 ^ 32"
  shows "unat (kernel_pages n) * 2 ^ 21 = unat n" and "large_run base (kernel_pages n)"
proof -
  have n: "unat n div 2 ^ 21 * 2 ^ 21 = unat n" using assms(1) by (simp add: mod_eq_0_iff_dvd)
  have "unat (n div PAGE_SIZE_2M) = unat n div 2 ^ 21" by (simp add: PAGE_SIZE_2M_def unat_div)
  moreover have "unat n \<noteq> 0" using assms(2) by (simp add: word_unat_eq_iff)
  then have "unat n div 2 ^ 21 \<noteq> 0" using n by auto
  ultimately have "unat (kernel_pages n) = unat n div 2 ^ 21" by (auto simp: kernel_pages_def word_unat_eq_iff)
  then show u: "unat (kernel_pages n) * 2 ^ 21 = unat n" using n by simp
  then show "large_run base (kernel_pages n)" using assms(3,4) by (simp add: large_run_def)
qed

lemma prepare_kernel_spec:
  assumes mem: "memory_services (BootServices st) V" and maps: "map_service (BootServices st) V key M" and cons: "console_service st V"
    and low: "low_holdings V" and size: "unat (KernelSizeBytes lk) mod 2 ^ 21 = 0" "KernelSizeBytes lk \<noteq> 0"
      "unat (KernelPhysicalBase lk) mod 2 ^ 21 = 0" "unat (KernelPhysicalBase lk) + unat (KernelSizeBytes lk) \<le> 2 ^ 32"
    and run: "prepare_kernel st dev img lk e t = Some (Jumped root entry bi stack e' t')"
  shows "handed_over V M lk root bi stack e'" and "keeps V (held_in V e) e e'" and "entry = EntryPointVirtual lk"
    and "last_words dev entry root t = Some t'" and "bytes_at bi 4096 \<inter> held_in V e = {}"
proof -
  let ?BS = "BootServices st" and ?lim = "IDENTITY_MAP_LIMIT - 1"
  obtain st1 b1 e1 where al1: "AllocatePages ?BS AllocateMaxAddress EfiLoaderData 1 ?lim e = (st1, b1, e1)" by (metis prod_cases3)
  define e2 where "e2 = e1\<lparr>ram := prepare_boot_info b1 lk (ram e1)\<rparr>"
  obtain st2 sp e3 where al2: "AllocatePages ?BS AllocateMaxAddress EfiLoaderData 16 ?lim e2 = (st2, sp, e3)" by (metis prod_cases3)
  define e6 where "e6 = con_out st (wide ''[OK] BootInfo allocated and pre-populated.'' @ crlf)
    (con_out st (wide ''[OK] Kernel stack allocated.'' @ crlf) (e3\<lparr>ram := store_stack b1 (sp + 65536) 65536 (ram e3)\<rparr>))"
  obtain r7 e7 where bt: "BuildKernelPageTables ?BS (KernelPhysicalBase lk) (KernelSizeBytes lk) e6 = (r7, e7)" by fastforce
  define e8 where "e8 = con_out st (wide ''[OK] Page tables built (identity map + higher-half kernel mapping).'' @ crlf) e7"
  have ok: "\<not> EFI_ERROR st1" "\<not> EFI_ERROR st2" "r7 \<noteq> 0" and lv: "leave_firmware st dev img lk b1 (sp + 65536) r7 e8 t = Some (Jumped root entry bi stack e' t')"
    using run al1 al2 bt unfolding prepare_kernel_def KERNEL_STACK_PAGES_def PAGE_SIZE_4K_def
    by (auto simp: Let_def e2_def e6_def e8_def boot_fail_def halt_loop_def split: if_splits)
  note pr = prepared [OF mem cons al1 ok(1) e2_def al2 ok(2) e6_def]
  obtain mm e9 where fin0: "root = r7" "entry = EntryPointVirtual lk" "bi = b1" "stack = sp + 65536"
    "e' = e9\<lparr>ram := store_memory_map b1 mm (ram e9)\<rparr>" "last_words dev entry r7 t = Some t'"
    "keeps V (held_in V e8) e8 e9" "map_delivered V M e8 mm e9" by (rule left_firmware [OF mem maps cons lv])
  have v8: "V (firmware e8) = V (firmware e7)" using cons by (simp add: e8_def)
  let ?n = "kernel_pages (KernelSizeBytes lk)"
  obtain idp ds kp kd where tabs: "boot_entries (quads (ram e7)) r7 idp ds kp kd (KernelPhysicalBase lk) ?n" "?n \<le> 512"
    and sub: "held_in V e6 \<subseteq> held_in V e7" and k67: "kept (held_in V e6) (ram e6) (ram e7)"
    and tp: "\<forall>p \<in> set ([r7, idp, kp, kd] @ ds). page_bytes (PhysAddr p) \<subseteq> held_in V e7 - held_in V e6"
  proof (rule tables_built [OF memory_servicesD(1) [OF mem] bt ok(3) kernel_pages_run(2) [OF size]])
    show "held (V (firmware e7)) - held (V (firmware e6)) \<subseteq> {..<2 ^ 32}" 
      using low unfolding low_holdings_def by (force dest: spec [of _ "firmware e7"])
  qed
  have k78: "keeps V (held_in V e7) e7 e8" unfolding e8_def by (rule keeps_con_out(2) [OF cons]) simp
  have h8: "held_in V e8 = held_in V e7" using v8 by simp
  let ?P = "bytes_at b1 4096"
  have in6: "?P \<subseteq> held_in V e6" "bytes_at sp 65536 \<subseteq> held_in V e6" "held_in V e \<subseteq> held_in V e6 - ?P" using pr(2,3) by auto
  have k68: "keeps V (held_in V e6) e6 e8"
    using keeps_subset [OF k78 sub] k67 sub by (auto simp: keeps_def intro: kept_trans)
  have tabs8: "boot_entries (quads (ram e8)) r7 idp ds kp kd (KernelPhysicalBase lk) ?n"
    by (rule boot_entries_kept [OF tabs(1), of "held_in V e7"]) (use k78 tp in \<open>auto simp: keeps_def\<close>)
  have tp8: "\<forall>p \<in> set ([r7, idp, kp, kd] @ ds). page_bytes (PhysAddr p) \<subseteq> held_in V e8 - ?P"
    using tp in6(1) unfolding h8 by blast
  have fits: "unat b1 + 96 \<le> 2 ^ 64" using pr(6) by simp
  have "kept (bytes_at b1 96) (ram e6) (ram e8)"
    by (rule kept_subset [of "held_in V e6"]) (use k68 in6(1) in \<open>auto simp: keeps_def bytes_at_def\<close>)
  note info = read_boot_info_kept [OF fits this, unfolded pr(8)]
  note fin = handed_over_end [OF fin0(5,7,8) tabs8 tabs(2) tp8 _ pr(6) _ info]
  have "?P \<subseteq> held_in V e8" "bytes_at (sp + 65536 - 65536) 65536 \<subseteq> held_in V e8" using in6(1,2) sub unfolding h8 by auto
  note fin = fin [OF this]
  show "handed_over V M lk root bi stack e'" using fin(1) fin0(1,3,4) by simp
  have "keeps V (held_in V e) e6 e8" by (rule keeps_subset [OF k68]) (use in6(3) in blast)
  moreover have "keeps V (held_in V e) e8 e'" by (rule keeps_subset [OF fin(2)]) (use in6(3) sub in \<open>unfold h8, blast\<close>)
  ultimately show "keeps V (held_in V e) e e'" using pr(1) by (blast intro: keeps_trans)
  show "entry = EntryPointVirtual lk" "last_words dev entry root t = Some t'" "bytes_at bi 4096 \<inter> held_in V e = {}"
    using fin0(1,2,3,6) pr(3) by simp_all
qed

section \<open>From start to jump\<close>

text \<open>Opening a volume gives the directory through which its files are reached.\<close>

definition volume_service :: "'f system_table \<Rightarrow> ('f \<Rightarrow> holdings) \<Rightarrow> (CHAR16 list \<rightharpoonup> u8 list) \<Rightarrow> bool" where
  "volume_service st V disk \<longleftrightarrow> (\<forall>h p e s root e'. OpenVolume (Files st) h p e = (s, root, e') \<longrightarrow> \<not> EFI_ERROR s \<longrightarrow> file_service (Files st) V root disk)"

definition firmware_ok :: "'f system_table \<Rightarrow> ('f \<Rightarrow> holdings) \<Rightarrow> ('f \<Rightarrow> u64) \<Rightarrow> memory_map_entry list set \<Rightarrow> (CHAR16 list \<rightharpoonup> u8 list) \<Rightarrow> bool" where
  "firmware_ok st V key M disk \<longleftrightarrow> memory_services (BootServices st) V \<and> pool_service (BootServices st) V \<and> map_service (BootServices st) V key M
     \<and> console_service st V \<and> volume_service st V disk \<and> low_holdings V"

lemma firmware_okD:
  assumes "firmware_ok st V key M disk"
  shows "memory_services (BootServices st) V" and "pool_service (BootServices st) V" and "map_service (BootServices st) V key M"
    and "console_service st V" and "volume_service st V disk" and "low_holdings V"
  using assms by (simp_all add: firmware_ok_def)

lemma open_root_some:
  assumes "open_root st img e = (Some root, e')" and "volume_service st V disk"
  shows "file_service (Files st) V root disk"
  using assms(1) assms(2) [unfolded volume_service_def, rule_format] unfolding open_root_def by (auto simp: Let_def split: prod.splits if_splits)

lemma EfiMain_jump:
  assumes "EfiMain st dev img e t = Some (Jumped root entry bi stack e' t')" and "volume_service st V disk"
  obtains dir e1 lk e2 where "file_service (Files st) V dir disk" and "LoadKernelElf (BootServices st) (Files st) dir KERNEL_PATH e1 = (Some lk, e2)"
    and "prepare_kernel st dev img lk (snd (Close (Files st) dir (con_out st (wide ''[OK] Kernel image loaded and validated.'' @ crlf) e2))) t
      = Some (Jumped root entry bi stack e' t')"
proof -
  define e0 where "e0 = con_out st (wide ''Testing Simple File System read pipeline...'' @ crlf @ crlf)
    (con_out st (wide ''NeoastrenOS Bootloader '' @ [0x2014] @ wide '' Phase 2, Part 4'' @ crlf) (snd (ClearScreen (ConOut st) e)))"
  obtain r1 e1 where op: "open_root st img e0 = (r1, e1)" by fastforce
  note run = assms(1) [unfolded EfiMain_def Let_def, folded e0_def, unfolded op prod.case]
  obtain dir where dir: "r1 = Some dir" using run by (cases r1) (simp_all add: halt_loop_def)
  note run = run [unfolded dir option.case]
  obtain e2 where rd: "read_test_file st dir e1 = Some (True, e2)"
    using run by (cases "read_test_file st dir e1") (auto simp: halt_loop_def split: bool.splits)
  define e3 where "e3 = con_out st (crlf @ wide ''Loading kernel image '' @ KERNEL_PATH @ wide ''...'' @ crlf) e2"
  obtain r3 e4 where ld: "LoadKernelElf (BootServices st) (Files st) dir KERNEL_PATH e3 = (r3, e4)" by fastforce
  note run = run [unfolded rd option.case prod.case bool.case, folded e3_def, unfolded ld prod.case]
  obtain lk where lk: "r3 = Some lk" using run by (cases r3) (simp_all add: boot_fail_def halt_loop_def)
  show thesis by (rule that [OF open_root_some ld [unfolded lk]]) (use op dir assms(2) run lk in simp_all)
qed

lemma EfiMain_spec:
  assumes fw: "firmware_ok st V key M disk" and disk: "disk KERNEL_PATH = Some file" "elf_ok file"
    and run: "EfiMain st dev img e t = Some (Jumped root entry bi stack e' t')"
  obtains lk where "handed_over V M lk root bi stack e'" and "entry = e_entry (file_mem file) 0"
    and "planned file (KernelVirtualBase lk) (KernelSizeBytes lk)"
    and "unat (KernelPhysicalBase lk) mod 2 ^ 21 = 0" and "unat (KernelPhysicalBase lk) + unat (KernelSizeBytes lk) \<le> 2 ^ 32"
    and "bytes_at (KernelPhysicalBase lk) (unat (KernelSizeBytes lk)) \<subseteq> held_in V e'"
    and "\<forall>d. unat d < unat (KernelSizeBytes lk) \<longrightarrow> ram e' (KernelPhysicalBase lk + d) = image_byte file (unat (KernelVirtualBase lk) + unat d)"
proof -
  note f = firmware_okD [OF fw]
  obtain dir e1 lk e2 where fs: "file_service (Files st) V dir disk"
    and ld: "LoadKernelElf (BootServices st) (Files st) dir KERNEL_PATH e1 = (Some lk, e2)"
    and pk: "prepare_kernel st dev img lk (snd (Close (Files st) dir (con_out st (wide ''[OK] Kernel image loaded and validated.'' @ crlf) e2))) t
      = Some (Jumped root entry bi stack e' t')"
    by (rule EfiMain_jump [OF run f(5)])
  let ?S = "bytes_at (KernelPhysicalBase lk) (unat (KernelSizeBytes lk))"
  let ?e3 = "con_out st (wide ''[OK] Kernel image loaded and validated.'' @ crlf) e2"
  have l: "loaded V e1 file lk e2" using LoadKernelElf_spec [OF f(1,2) fs disk ld] by simp
  note l = l [unfolded loaded_def]
  let ?e4 = "snd (Close (Files st) dir ?e3)"
  have S2: "?S \<subseteq> held_in V e2" using l by blast
  have k3: "keeps V ?S e2 ?e3" by (rule keeps_con_out(2) [OF f(4) S2])
  have "keeps V ?S ?e3 ?e4" by (rule close_file(1) [OF fs]) (use k3 in \<open>simp add: keeps_def\<close>)
  then have k4: "keeps V ?S e2 ?e4" by (rule keeps_trans [OF k3])
  have ne: "KernelSizeBytes lk \<noteq> 0" "unat (KernelSizeBytes lk) mod 2 ^ 21 = 0" using l by (simp_all add: planned_def)
  note p = prepare_kernel_spec [OF f(1,3,4,6) ne(2,1) _ _ pk]
  have k: "keeps V ?S e2 e'" using keeps_trans [OF k4 keeps_subset [OF p(2)]] k4 l by (auto simp: keeps_def)
  have "ram e' (KernelPhysicalBase lk + d) = image_byte file (unat (KernelVirtualBase lk) + unat d)" if d: "unat d < unat (KernelSizeBytes lk)" for d
  proof -
    have "unat (KernelPhysicalBase lk + d) \<in> ?S" using d l by (auto simp: bytes_at_def unat_add_no_wrap)
    then have "ram e' (KernelPhysicalBase lk + d) = ram e2 (KernelPhysicalBase lk + d)" using k by (simp add: keeps_def kept_def)
    then show ?thesis using l d by simp
  qed
  then show thesis using that [OF p(1)] p(3) l k by (auto simp: keeps_def)
qed

end
