(* ===== verification/Spec2Isabelle.thy ===== *)
theory Spec2Isabelle
  imports Boot_Props Linked_List_Props Boot_Main_Props
begin

text \<open>
  The kernel of NeoastrenOS (\<open>src/kernel/src\<close>), from the pointer to the boot information that the
  bootloader passes to \<open>kernel_main\<close> to the page fault the boot deliberately ends in.

  \<^bold>\<open>The program.\<close> \<open>kernel_main\<close> checks the boot information, builds a bitmap allocator of physical frames
  from the UEFI memory map, takes over the page tables of the bootloader, tests both, hands them to a
  global heap that maps its pages on demand, tests the heap through \<open>Box\<close> and \<open>Vec\<close>, loads the segment
  and interrupt tables, and tests the exception path with a breakpoint and with a write to a
  read-only page. Everything it does is reported on the serial port.

  \<^bold>\<open>Conventions.\<close> Integers are words of their width and wrap around, as in a release build. A panic is
  \<open>Inl\<close> of the sum type \<open>exec\<close>; a loop that may not end gives \<open>None\<close> in \<open>run\<close> and in \<open>boot\<close>. Operations
  with \<open>&mut self\<close> return the changed state. Physical memory is a map from addresses of eight-byte
  words to words (\<open>qmem\<close>); the memory map is read from bytes (\<open>byte_mem\<close>).

  \<^bold>\<open>Theories and sources.\<close>
  \<^item> \<open>Kernel_Prelude\<close>: panics, partial runs, words, layouts and the list and word lemmas the rest shares.
  \<^item> \<open>Addresses\<close> (\<open>mm/phys_addr.rs\<close>, \<open>mm/virt_addr.rs\<close>), \<open>Page_Table_Entry\<close> (\<open>mm/page_table_entry.rs\<close>),
    \<open>Boot_Info\<close> (\<open>boot_info.rs\<close>, \<open>mm/memory_map.rs\<close>): the data and their accessors, the layout of the
    structure shared with the bootloader, the iterator over descriptors of any stride.
  \<^item> \<open>Frame_Allocator\<close>, \<open>Frame_Allocator_Props\<close> (\<open>mm/frame_allocator.rs\<close>): the record is the struct with the
    bitmap as a list of bytes; \<open>fa_init\<close> has the three passes of \<open>init\<close>. \<open>fa_inv\<close> ties the bitmap, the
    count and the hint; \<open>free_frames\<close> is the abstract state. Locale \<open>frame_source\<close> is what clients rely
    on.
  \<^item> \<open>Vmm\<close>, \<open>Vmm_Props\<close> (\<open>mm/vmm.rs\<close>): a processor with memory, cached translations, \<open>CR3\<close> and \<open>EFER\<close>;
    \<open>vmm_map\<close>, \<open>vmm_unmap\<close>, \<open>translate\<close> and \<open>flags_at\<close> walk the tables as the code does. \<open>walk\<close> is the
    reference walk; \<open>vm_inv\<close> says that the tables form a tree outside the free frames.
  \<^item> \<open>Linked_List_Allocator\<close>, \<open>Free_Store\<close>, \<open>Linked_List_Props\<close> (\<open>mm/linked_list_allocator.rs\<close>): the free list
    as nodes in memory; \<open>lseg\<close> relates it to the sorted list of maximal free blocks, \<open>Free_Store\<close> to the
    set of free bytes.
  \<^item> \<open>Spin_Lock\<close> (\<open>sync/spinlock.rs\<close>): the spin loop, interleavings of threads as a step relation, and
    the sequential \<open>lock\<close> that the rest uses, with the proof that they agree when one thread runs.
  \<^item> \<open>Kernel_Heap\<close>, \<open>Kernel_Heap_Props\<close> (\<open>mm/heap.rs\<close>): growth page by page with its unwinding, and
    allocation behind the lock, over the two globals and the processor.
  \<^item> \<open>Serial\<close> (\<open>arch/x86_64/serial.rs\<close>), \<open>Gdt\<close>, \<open>Idt\<close>, \<open>Exceptions\<close>, \<open>Interrupts\<close> (\<open>gdt.rs\<close>, \<open>idt.rs\<close>,
    \<open>exceptions.rs\<close>): port accesses as a trace given meaning by a 16550 register file; the tables bit by
    bit, with the delivery of an exception by the processor as the reader.
  \<^item> \<open>Cpu_Access\<close>, \<open>Boot_Monad\<close>, \<open>Heap_Words\<close>, \<open>Alloc_Crate\<close>, \<open>Alloc_Rules\<close>: loads and stores through the
    page tables, the state of the whole machine and the steps of boot code on it, words in heap
    memory, and \<open>Box\<close> and \<open>Vec\<close> with their growth, from the documented behaviour of the standard library.
  \<^item> \<open>Frame_Test\<close>, \<open>Vmm_Test\<close>, \<open>Heap_Test\<close>, \<open>Kernel_Main\<close>, \<open>Boot_Props\<close> (\<open>main.rs\<close>): the self-tests,
    the panic handler, \<open>kernel_main\<close> and the last act, each message included.

  \<^bold>\<open>What is shown.\<close> Each allocator keeps its invariant over every sequence of calls, hands out nothing
  twice, fails only when it must and never panics on the requests named in the theorems. \<open>map\<close> and
  \<open>unmap\<close> change exactly the translation they are asked to, and keep the cached translations true. The
  free list is always sorted, coalesced and first fit. The heap keeps every block it handed out,
  every page below its cursor mapped to a frame of its own, and succeeds when memory is there. Every
  exception reaches its handler, whose report can be read back. The last part composes all of it:
  from a machine as the bootloader should leave it, \<open>kernel_main\<close> passes its four self-tests without a
  panic and ends where the source says, provided the processor enforces write protection. Some
  theorems show where the code differs from its comments, and name the inputs for which it does.

  \<^bold>\<open>Bounds.\<close> No definition has a bound that the code does not have. Loops that end are proved to, by
  measures; polling and spinning, which may not, are \<open>partial_function\<close>s, and their termination is
  stated with the condition it needs (\<open>responsive\<close>, a lock nobody holds). \<open>HEAP_TEST_PAGES\<close> is the
  number of heap pages the heap test can need at most, 2032: sixteen for every growth of its boxes
  and vectors plus those the larger buffers ask for. Each may take a frame for data and three for new
  tables, hence the 8135 frames of the last theorem.

  \<^bold>\<open>Parameters.\<close> The serial device, the addresses of the linked image, the bytes of the memory map, the
  boot information by address, the registers saved at an exception, the places panics report and the
  write-protect bit of \<open>CR0\<close> are fields of \<open>platform\<close>. The theorems name what they need of them.

  \<^bold>\<open>Simplifications.\<close> The bitmap is a field of the allocator, not bytes in memory, which the proof that
  its frames are never handed out justifies; the memory map is read from bytes that nothing writes.
  Heap memory is a store of its own, addressed by virtual addresses: \<open>heap_backed\<close> shows that the pages
  under it are mapped to frames of their own. Locks are sequential in the heap and the boot, which
  run on one thread. Memory orderings are not modelled. A fault before the tables are loaded is the
  outcome \<open>EarlyFault\<close>; it is shown not to happen.

  \<^bold>\<open>Not modelled.\<close> The bootloader (\<open>src/boot\<close>) is C and assembly that runs on UEFI firmware; what the
  kernel needs of it are the hypotheses \<open>tables_reserved\<close>, \<open>pages_ready\<close> and \<open>globals_ready\<close>. The stub
  kernel in \<open>src/tests\<close>, the host unit tests inside the Rust files, the build files and the documents
  hold no code of the kernel.
\<close>

end
